(* ===== verification/Prelude.thy ===== *)
theory Prelude
  imports Main "HOL-Library.Word" "HOL-Library.Monad_Syntax"
begin

text \<open>
  Shared vocabulary of the development: the machine integers of the Go sources, the error
  values the packages return, Go's checked slice indexing and its counted \<open>for\<close> loop over
  \<open>uint64\<close>, and the generic lemmas on options, lists and words the component theories use.

  A Go function that can panic is a function into \<open>option\<close>: \<open>None\<close> is the panic (or, for the
  counted loop, a loop that never ends), so a theorem of the shape \<open>f x = Some y\<close> says that the
  code returns. A Go \<open>error\<close> result is a value of type \<open>error option\<close> or of a sum type, with
  the error on the left.
\<close>

unbundle bit_operations_syntax

subsection \<open>Machine integers\<close>

type_synonym u8 = "8 word"
type_synonym u16 = "16 word"
type_synonym u32 = "32 word"
type_synonym u64 = "64 word"

named_theorems u64_arith \<open>facts that move 64-bit arithmetic to natural numbers\<close>
named_theorems panic_free \<open>operations that return under their stated precondition\<close>

lemma u64_max_bound [simp]: "unat (x :: u64) < 18446744073709551616"
proof -
  have "unat x < 2 ^ LENGTH(64)" by (rule unsigned_less)
  then show ?thesis by simp
qed

lemma unat_plus_one [u64_arith]:
  "unat (x :: u64) + 1 < 2 ^ 64 \<Longrightarrow> unat (x + 1) = unat x + 1"
  by (simp add: unat_word_ariths)

lemma unat_minus_one_u64 [u64_arith]:
  "0 < unat (x :: u64) \<Longrightarrow> unat (x - 1) = unat x - 1"
  by (simp add: unat_minus_one unat_gt_0)

lemma unat_minus_u64 [u64_arith]:
  "unat (y :: u64) \<le> unat x \<Longrightarrow> unat (x - y) = unat x - unat y"
  by (simp add: unat_sub word_le_nat_alt)

lemma unat_of_nat_u64 [u64_arith]:
  "n < 2 ^ 64 \<Longrightarrow> unat (of_nat n :: u64) = n"
  by (simp add: unat_of_nat)

lemma unat_max_u64 [u64_arith]: "unat (max x y :: u64) = max (unat x) (unat y)"
  by (simp add: max_def word_le_nat_alt)

lemma unat_min_u64 [u64_arith]: "unat (min x y :: u64) = min (unat x) (unat y)"
  by (simp add: min_def word_le_nat_alt)

lemma word_eq_unat: "(x :: 'a::len word) = y \<longleftrightarrow> unat x = unat y"
  by (simp add: word_unat_eq_iff)

lemmas u64_cmp = word_le_nat_alt word_less_nat_alt

subsection \<open>Error values\<close>

datatype error =
    ErrStorage                        \<comment> \<open>raft: stable storage failure\<close>
  | ErrChecksum                       \<comment> \<open>wal: checksum mismatch\<close>
  | ErrFormat                         \<comment> \<open>wal: invalid record format\<close>
  | ErrSequence                       \<comment> \<open>wal: non-contiguous sequence\<close>
  | ErrInvalidTear                    \<comment> \<open>wal: invalid torn-write length\<close>
  | ErrHardStateRegression            \<comment> \<open>raftwal: hard-state regression\<close>
  | ErrInvalidLogIndex u64            \<comment> \<open>raftwal: invalid log index\<close>
  | ErrLogIndexGap u64                \<comment> \<open>raftwal: log index gap\<close>
  | ErrResetRegression u64            \<comment> \<open>raftwal: reset index regression\<close>
  | ErrInvalidCompaction u64          \<comment> \<open>raftwal: invalid compaction index\<close>
  | ErrStaleRequest                   \<comment> \<open>statemachine: stale request\<close>
  | ErrUnsupportedOperation           \<comment> \<open>statemachine: unsupported operation\<close>
  | ErrBadSnapshot                    \<comment> \<open>statemachine: invalid snapshot\<close>
  | ErrFrame                          \<comment> \<open>protocol: invalid frame\<close>
  | ErrVersion                        \<comment> \<open>protocol: unsupported version\<close>
  | ErrFrameTooLarge                  \<comment> \<open>protocol: frame too large\<close>
  | ErrInvalidClientOperation         \<comment> \<open>protocol: invalid client operation\<close>
  | ErrEOF                            \<comment> \<open>io: the stream ended before the first byte\<close>
  | ErrUnexpectedEOF                  \<comment> \<open>io: the stream ended in the middle\<close>
  | ErrShortWrite                     \<comment> \<open>io: short write\<close>
  | ErrWrite nat                      \<comment> \<open>an error returned by the underlying writer\<close>
  | ErrImageFormat                    \<comment> \<open>snapshot: invalid image\<close>
  | ErrImageChecksum                  \<comment> \<open>snapshot: checksum mismatch\<close>
  | ErrRegression                     \<comment> \<open>snapshot: index regression\<close>
  | ErrFile nat                       \<comment> \<open>an error of the file system\<close>
  | ErrBaseExceedsSnapshot u64 u64    \<comment> \<open>raftstore: WAL base exceeds snapshot\<close>
  | ErrSnapshotExceedsLog u64         \<comment> \<open>raftstore: snapshot exceeds WAL last index\<close>
  | ErrBaseMismatch u64 u64           \<comment> \<open>raftstore, raftcluster, sim: snapshot/WAL base mismatch\<close>
  | ErrNoDurableSnapshot u64          \<comment> \<open>raftstore: no durable snapshot for compaction index\<close>
  | ErrProbability                    \<comment> \<open>faultdisk: probability outside 0..1000000\<close>
  | ErrInvalidTruncate                \<comment> \<open>faultdisk: invalid truncate\<close>
  | ErrUnknownNode u32                \<comment> \<open>raftcluster, sim: unknown node\<close>
  | ErrIncompleteConfig               \<comment> \<open>server: incomplete configuration\<close>

subsection \<open>Go slices and loops\<close>

definition go_index :: "'a list \<Rightarrow> nat \<Rightarrow> 'a option" where
  "go_index xs i = (if i < length xs then Some (xs ! i) else None)"

lemma go_index_Some [simp]: "i < length xs \<Longrightarrow> go_index xs i = Some (xs ! i)"
  by (simp add: go_index_def)

lemma go_index_eq_Some_iff: "go_index xs i = Some x \<longleftrightarrow> i < length xs \<and> xs ! i = x"
  by (auto simp: go_index_def)

fun foldM :: "('a \<Rightarrow> 's \<Rightarrow> 's option) \<Rightarrow> 'a list \<Rightarrow> 's \<Rightarrow> 's option" where
  "foldM f [] s = Some s"
| "foldM f (x # xs) s = do { s' \<leftarrow> f x s; foldM f xs s' }"

lemma foldM_append: "foldM f (xs @ ys) s = do { s' \<leftarrow> foldM f xs s; foldM f ys s' }"
  by (induction xs arbitrary: s) (auto split: Option.bind_splits)

lemma foldM_cong [fundef_cong]:
  "xs = ys \<Longrightarrow> s = t \<Longrightarrow> (\<And>x u. x \<in> set ys \<Longrightarrow> f x u = g x u) \<Longrightarrow> foldM f xs s = foldM g ys t"
proof (induction ys arbitrary: xs s t)
  case (Cons y ys)
  then show ?case by (auto intro!: Option.bind_cong)
qed simp

lemma foldM_Some: "foldM (\<lambda>x s. Some (f x s)) xs s = Some (fold f xs s)"
  by (induction xs arbitrary: s) auto

lemma foldM_inv_total:
  assumes "\<And>x s. x \<in> set xs \<Longrightarrow> P s \<Longrightarrow> \<exists>s'. f x s = Some s' \<and> P s'" and "P s"
  shows "\<exists>s'. foldM f xs s = Some s' \<and> P s'"
  using assms
proof (induction xs arbitrary: s)
  case (Cons x xs)
  obtain s' where "f x s = Some s'" "P s'" using Cons.prems by force
  moreover from this Cons obtain s'' where "foldM f xs s' = Some s''" "P s''" by force
  ultimately show ?case by simp
qed simp

lemma foldM_invariant:
  assumes "foldM f xs s = Some s'" and "P s"
    and "\<And>x s t. x \<in> set xs \<Longrightarrow> f x s = Some t \<Longrightarrow> P s \<Longrightarrow> P t"
  shows "P s'"
  using assms
proof (induction xs arbitrary: s)
  case (Cons x xs)
  then obtain t where t: "f x s = Some t" "foldM f xs t = Some s'"
    by (auto simp: bind_eq_Some_conv)
  have "P t" by (rule Cons.prems(3) [OF _ t(1) Cons.prems(2)]) simp
  with t(2) show ?case
    by (rule Cons.IH) (auto intro: Cons.prems(3))
qed simp

partial_function (option) for_u64 ::
  "u64 \<Rightarrow> u64 \<Rightarrow> (u64 \<Rightarrow> 's \<Rightarrow> 's option) \<Rightarrow> 's \<Rightarrow> 's option" where
  "for_u64 i hi body s =
     (if i \<le> hi then do { s' \<leftarrow> body i s; for_u64 (i + 1) hi body s' } else Some s)"

declare for_u64.simps [code]

definition u64_range :: "u64 \<Rightarrow> u64 \<Rightarrow> u64 list" where
  "u64_range lo hi = map of_nat [unat lo ..< Suc (unat hi)]"

lemma u64_range_empty: "hi < lo \<Longrightarrow> u64_range lo hi = []"
  by (simp add: u64_range_def word_less_nat_alt)

lemma u64_range_Cons:
  assumes "lo \<le> hi" and "unat hi + 1 < 2 ^ 64"
  shows "u64_range lo hi = lo # u64_range (lo + 1) hi"
proof -
  have "unat (lo + 1) = Suc (unat lo)"
    using assms by (simp add: u64_cmp unat_word_ariths)
  then show ?thesis
    using assms upt_conv_Cons [of "unat lo" "Suc (unat hi)"]
    by (simp add: u64_range_def u64_cmp del: upt_Suc)
qed

lemma set_u64_range: "set (u64_range lo hi) = {i. lo \<le> i \<and> i \<le> hi}"
proof -
  have "\<exists>n\<in>{unat lo ..< Suc (unat hi)}. i = of_nat n" if "lo \<le> i" "i \<le> hi" for i
    using that by (intro bexI [of _ "unat i"]) (auto simp: u64_cmp)
  moreover have "lo \<le> of_nat n \<and> of_nat n \<le> hi"
    if "unat lo \<le> n" "n < Suc (unat hi)" for n
  proof -
    have "n < 2 ^ 64" using that(2) u64_max_bound [of hi] by (simp del: u64_max_bound)
    then have "unat (of_nat n :: u64) = n" by (rule unat_of_nat_u64)
    then show ?thesis using that by (simp add: u64_cmp)
  qed
  ultimately show ?thesis by (fastforce simp: u64_range_def simp del: upt_Suc)
qed

text \<open>
  The counted loop visits exactly the indexes of its range, provided its upper bound is not
  the largest \<open>uint64\<close> (with that bound the Go loop does not stop by its own condition).
\<close>

lemma for_u64_foldM:
  assumes "unat hi + 1 < 2 ^ 64"
  shows "for_u64 i hi body s = foldM body (u64_range i hi) s"
proof (induction "unat hi + 1 - unat i" arbitrary: i s)
  case 0
  then have "hi < i" "\<not> i \<le> hi" by (simp_all add: u64_cmp)
  then show ?case by (subst for_u64.simps) (simp add: u64_range_empty)
next
  case (Suc k)
  then have le: "i \<le> hi" by (simp add: word_le_nat_alt)
  then have "unat (i + 1) = unat i + 1"
    using assms by (intro unat_plus_one) (simp add: word_le_nat_alt)
  with Suc have IH: "for_u64 (i + 1) hi body = foldM body (u64_range (i + 1) hi)"
    by (intro ext Suc.hyps) simp
  show ?case
    by (subst for_u64.simps) (simp add: le IH u64_range_Cons [OF le assms])
qed

lemma for_u64_invariant:
  assumes "for_u64 i hi body s = Some s'" and "P s"
    and step: "\<And>i s t. body i s = Some t \<Longrightarrow> P s \<Longrightarrow> P t"
  shows "P s'"
proof -
  have "body' = body \<longrightarrow> P s \<longrightarrow> P s'" if "for_u64 i hi body' s = Some s'" for body'
  proof (rule for_u64.raw_induct
      [where P = "\<lambda>_ _ b s s'. b = body \<longrightarrow> P s \<longrightarrow> P s'", OF _ that])
    fix loop :: "u64 \<Rightarrow> u64 \<Rightarrow> (u64 \<Rightarrow> 'a \<Rightarrow> 'a option) \<Rightarrow> 'a \<Rightarrow> 'a option" and i hi body' s s'
    assume IH: "\<And>i hi body' s s'. loop i hi body' s = Some s' \<Longrightarrow> body' = body \<longrightarrow> P s \<longrightarrow> P s'"
      and eq: "(if i \<le> hi then body' i s \<bind> loop (i + 1) hi body' else Some s) = Some s'"
    show "body' = body \<longrightarrow> P s \<longrightarrow> P s'"
      using eq IH step by (auto simp: bind_eq_Some_conv split: if_splits)
  qed
  with assms(1,2) show ?thesis by blast
qed

end
