(* ===== verification/Quorum.thy ===== *)
theory Quorum
  imports Prelude
begin

text \<open>
  Voter sets and majorities: the bit masks of \<^verbatim>\<open>raft/node.go\<close> (\<open>nodeBit\<close>, \<open>bitsSet\<close>,
  \<open>majorityMask\<close>, \<open>voterMask\<close>) and the list form of \<^verbatim>\<open>raft/membership.go\<close>. The locale
  \<open>quorum_system\<close> states what the protocol needs of a quorum predicate on masks; it is
  interpreted for simple majorities and for the joint rule of a membership transition.
\<close>

subsection \<open>raft/node.go: masks\<close>

definition nodeBit :: "u32 \<Rightarrow> u64 option" where
  "nodeBit nid = (if nid = 0 \<or> nid > 64 then None else Some (push_bit (unat (nid - 1)) 1))"

lemma mask_and_pred_less: "msk \<noteq> 0 \<Longrightarrow> unat (msk AND (msk - 1)) < unat (msk :: u64)"
proof -
  assume "msk \<noteq> 0"
  then have "unat (msk - 1) < unat msk" by (simp add: unat_minus_one unat_gt_0)
  moreover have "msk AND (msk - 1) \<le> msk - 1" by (rule word_and_le1)
  ultimately show ?thesis by (simp add: word_le_nat_alt)
qed

function bitsSet_loop :: "u64 \<Rightarrow> nat \<Rightarrow> nat" where
  "bitsSet_loop msk count =
     (if msk \<noteq> 0 then bitsSet_loop (msk AND (msk - 1)) (count + 1) else count)"
  by pat_completeness auto
termination
  by (relation "measure (\<lambda>(msk, count). unat msk)") (auto intro: mask_and_pred_less)

declare bitsSet_loop.simps [simp del]

definition bitsSet :: "u64 \<Rightarrow> nat" where
  "bitsSet msk = bitsSet_loop msk 0"

definition majorityMask :: "u64 \<Rightarrow> u64 \<Rightarrow> bool" where
  "majorityMask voters acked \<longleftrightarrow>
     voters \<noteq> 0 \<and> bitsSet (voters AND acked) \<ge> bitsSet voters div 2 + 1"

fun voterMask_loop :: "u32 list \<Rightarrow> u64 \<Rightarrow> (u64 \<times> bool) option" where
  "voterMask_loop [] msk = Some (msk, True)"
| "voterMask_loop (nid # nids) msk = do {
     b \<leftarrow> nodeBit nid;
     if msk AND b \<noteq> 0 then Some (0, False) else voterMask_loop nids (msk OR b) }"

definition voterMask :: "u32 list \<Rightarrow> (u64 \<times> bool) option" where
  "voterMask nids = (if nids = [] then Some (0, False) else voterMask_loop nids 0)"

subsection \<open>raft/membership.go: the list form\<close>

record Membership =
  Old :: "u32 list"
  New :: "u32 list"

definition Joint :: "Membership \<Rightarrow> bool" where
  "Joint m \<longleftrightarrow> length (New m) \<noteq> 0"

definition majority :: "u32 list \<Rightarrow> (u32 \<Rightarrow> bool) \<Rightarrow> bool" where
  "majority voters acked =
     (if length voters = 0 then False
      else fold (\<lambda>nid count. if acked nid then count + 1 else count) voters (0 :: nat)
             \<ge> length voters div 2 + 1)"

definition CanCommit :: "Membership \<Rightarrow> (u32 \<Rightarrow> bool) \<Rightarrow> bool" where
  "CanCommit m acked =
     (if \<not> majority (Old m) acked then False else \<not> Joint m \<or> majority (New m) acked)"

fun contains :: "u32 list \<Rightarrow> u32 \<Rightarrow> bool" where
  "contains [] target = False"
| "contains (nid # nids) target = (if nid = target then True else contains nids target)"

definition Contains :: "Membership \<Rightarrow> u32 \<Rightarrow> bool" where
  "Contains m nid \<longleftrightarrow> contains (Old m) nid \<or> contains (New m) nid"

subsection \<open>Counting bits\<close>

definition bits_of :: "u64 \<Rightarrow> nat set" where
  "bits_of w = {k. bit w k}"

lemma in_bits_of [simp]: "k \<in> bits_of w \<longleftrightarrow> bit w k"
  by (simp add: bits_of_def)

lemma bits_of_0 [simp]: "bits_of 0 = {}"
  by (auto simp: set_eq_iff)

lemma finite_bits_of [simp]: "finite (bits_of w)"
proof (rule finite_subset)
  show "bits_of w \<subseteq> {..<64}" using bit_imp_le_length [of w] by auto
qed simp

lemma nat_clear_lowest:
  "0 < n \<Longrightarrow> \<exists>m. bit n m \<and> {i. bit (n AND (n - 1)) i} = {i. bit n i} - {m}" for n :: nat
proof (induction n rule: less_induct)
  case (less n)
  show ?case
  proof (cases "even n")
    case False
    have "bit (n - 1) i \<longleftrightarrow> bit n i \<and> i \<noteq> 0" for i
      using False by (cases i) (auto simp: bit_0 bit_Suc elim!: oddE)
    then show ?thesis using False by (intro exI [of _ 0]) (auto simp: bit_0 bit_and_iff)
  next
    case True
    then obtain k where k: "n = 2 * k" by blast
    with less.prems have "0 < k" "k < n" by auto
    then obtain m where m: "bit k m" "{i. bit (k AND (k - 1)) i} = {i. bit k i} - {m}"
      using less.IH by blast
    have "(n - 1) div 2 = k - 1" using k by simp
    moreover have "bit k i \<and> bit (k - 1) i \<longleftrightarrow> bit k i \<and> i \<noteq> m" for i
      using m(2) by (auto simp: set_eq_iff bit_and_iff)
    ultimately have "bit n i \<and> bit (n - 1) i \<longleftrightarrow> bit n i \<and> i \<noteq> Suc m" for i
      using k by (cases i) (simp_all add: bit_0 bit_Suc)
    then show ?thesis using m(1) k
      by (intro exI [of _ "Suc m"]) (auto simp: bit_Suc bit_and_iff)
  qed
qed

lemma clear_lowest_bit:
  assumes "msk \<noteq> 0"
  obtains m where "m \<in> bits_of msk" "bits_of (msk AND (msk - 1)) = bits_of msk - {m}"
proof -
  have "0 < unat msk" using assms by (simp add: unat_gt_0)
  then obtain m where m: "bit (unat msk) m"
      "{i. bit (unat msk AND (unat msk - 1)) i} = {i. bit (unat msk) i} - {m}"
    using nat_clear_lowest by blast
  have "unat msk AND (unat msk - 1) = unat (msk AND (msk - 1))"
    using assms by (simp add: unsigned_and_eq unat_minus_one)
  with m have "m \<in> bits_of msk" "bits_of (msk AND (msk - 1)) = bits_of msk - {m}"
    by (auto simp: bit_unsigned_iff set_eq_iff dest: bit_imp_le_length)
  then show ?thesis by (rule that)
qed

lemma bitsSet_loop_card: "bitsSet_loop msk count = count + card (bits_of msk)"
proof (induction msk count rule: bitsSet_loop.induct)
  case (1 msk count)
  show ?case
  proof (cases "msk = 0")
    case True
    then show ?thesis by (subst bitsSet_loop.simps) simp
  next
    case False
    then obtain m where m: "m \<in> bits_of msk" "bits_of (msk AND (msk - 1)) = bits_of msk - {m}"
      by (rule clear_lowest_bit)
    then have "card (bits_of msk) = Suc (card (bits_of (msk AND (msk - 1))))"
      using card_Suc_Diff1 [OF finite_bits_of m(1)] by simp
    with False "1.IH" show ?thesis by (subst bitsSet_loop.simps) simp
  qed
qed

lemma bitsSet_card: "bitsSet msk = card (bits_of msk)"
  by (simp add: bitsSet_def bitsSet_loop_card)

lemma bits_of_and: "bits_of (a AND b) = bits_of a \<inter> bits_of b"
  by (auto simp: bit_simps)

lemma bits_of_or: "bits_of (a OR b) = bits_of a \<union> bits_of b"
  by (auto simp: bit_simps)

lemma bits_of_inject: "bits_of a = bits_of b \<longleftrightarrow> a = b"
  by (auto intro: bit_word_eqI simp: set_eq_iff)

lemma bits_of_empty_iff: "bits_of w = {} \<longleftrightarrow> w = 0"
  using bits_of_inject [of w 0] by simp

lemma and_eq_0_iff: "a AND b = 0 \<longleftrightarrow> bits_of a \<inter> bits_of b = {}"
  by (simp flip: bits_of_empty_iff bits_of_and)

subsection \<open>Node identifiers\<close>

definition valid_id :: "u32 \<Rightarrow> bool" where
  "valid_id nid \<longleftrightarrow> 1 \<le> nid \<and> nid \<le> 64"

lemma nodeBit_valid: "nodeBit nid = (if valid_id nid then Some (push_bit (unat (nid - 1)) 1) else None)"
proof -
  have "nid = 0 \<or> nid > 64 \<longleftrightarrow> \<not> valid_id nid"
    by (auto simp: valid_id_def not_le word_less_1)
  then show ?thesis by (auto simp: nodeBit_def)
qed

definition idx :: "u32 \<Rightarrow> nat" where
  "idx nid = unat nid - 1"

lemma valid_id_unat: "valid_id nid \<longleftrightarrow> 1 \<le> unat nid \<and> unat nid \<le> 64"
  by (simp add: valid_id_def word_le_nat_alt)

lemma idx_less: "valid_id nid \<Longrightarrow> idx nid < 64"
  by (auto simp: idx_def valid_id_unat)

lemma idx_inject: "valid_id a \<Longrightarrow> valid_id b \<Longrightarrow> idx a = idx b \<longleftrightarrow> a = b"
  by (auto simp: idx_def valid_id_unat word_unat_eq_iff)

lemma nodeBit_bits:
  "nodeBit nid = Some b \<longleftrightarrow> valid_id nid \<and> bits_of b = {idx nid}"
proof -
  have "bits_of (push_bit (idx nid) 1) = {idx nid}" if "valid_id nid"
    using idx_less [OF that] by (auto simp: bit_simps)
  moreover have "valid_id nid \<Longrightarrow> unat (nid - 1) = idx nid"
    by (subst unat_minus_one) (auto simp: idx_def valid_id_unat)
  ultimately show ?thesis
    by (auto simp: nodeBit_valid simp flip: bits_of_inject)
qed

lemma nodeBit_Some: "valid_id nid \<Longrightarrow> \<exists>b. nodeBit nid = Some b \<and> bits_of b = {idx nid}"
  by (metis nodeBit_bits nodeBit_valid)

lemma nodeBit_inject: "nodeBit a = Some b \<Longrightarrow> nodeBit c = Some b \<Longrightarrow> a = c"
  by (auto simp: nodeBit_bits idx_inject)

lemma voterMask_loop_Some:
  assumes "list_all valid_id nids"
  shows "\<exists>m ok. voterMask_loop nids msk = Some (m, ok) \<and>
     (ok \<longleftrightarrow> distinct nids \<and> bits_of msk \<inter> idx ` set nids = {}) \<and>
     (ok \<longrightarrow> bits_of m = bits_of msk \<union> idx ` set nids)"
  using assms
proof (induction nids arbitrary: msk)
  case (Cons i js)
  then obtain b where b: "nodeBit i = Some b" "bits_of b = {idx i}"
    using nodeBit_Some by force
  have disj: "msk AND b = 0 \<longleftrightarrow> idx i \<notin> bits_of msk"
    using b(2) by (simp add: and_eq_0_iff)
  have "i \<in> set js \<longleftrightarrow> idx i \<in> idx ` set js"
    using Cons.prems by (auto simp: list_all_iff) (metis idx_inject)
  note i_js = this
  show ?case
  proof (cases "idx i \<in> bits_of msk")
    case True
    then show ?thesis using b disj by auto
  next
    case False
    have un: "bits_of (msk OR b) = insert (idx i) (bits_of msk)"
      using b(2) by (auto simp: bits_of_or)
    obtain m ok where m: "voterMask_loop js (msk OR b) = Some (m, ok)"
        "ok \<longleftrightarrow> distinct js \<and> bits_of (msk OR b) \<inter> idx ` set js = {}"
        "ok \<longrightarrow> bits_of m = bits_of (msk OR b) \<union> idx ` set js"
      using Cons.IH [of "msk OR b"] Cons.prems by auto
    have "ok \<longleftrightarrow> distinct (i # js) \<and> bits_of msk \<inter> idx ` set (i # js) = {}"
      using m(2) i_js False unfolding un by (auto simp del: in_bits_of)
    moreover have "ok \<longrightarrow> bits_of m = bits_of msk \<union> idx ` set (i # js)"
      using m(3) unfolding un by (auto simp del: in_bits_of)
    moreover have "voterMask_loop (i # js) msk = Some (m, ok)"
      using b(1) m(1) False disj by simp
    ultimately show ?thesis by blast
  qed
qed auto

subsection \<open>Quorum systems\<close>

locale quorum_system =
  fixes is_quorum :: "u64 \<Rightarrow> bool"
  assumes intersect: "is_quorum A \<Longrightarrow> is_quorum B \<Longrightarrow> A AND B \<noteq> 0"
    and mono: "is_quorum A \<Longrightarrow> bits_of A \<subseteq> bits_of B \<Longrightarrow> is_quorum B"
begin

lemma common_member:
  assumes "is_quorum A" and "is_quorum B"
  obtains k where "bit A k" "bit B k"
  using intersect [OF assms] by (auto simp: and_eq_0_iff)

lemma not_empty: "\<not> is_quorum 0"
  using intersect [of 0 0] by auto

text \<open>Two quorums that each agree on one choice agree on the same choice.\<close>

lemma unique_choice:
  assumes "is_quorum A" and "is_quorum B"
    and "\<And>k. bit A k \<Longrightarrow> choice k c" and "\<And>k. bit B k \<Longrightarrow> choice k d"
    and "\<And>k x y. choice k x \<Longrightarrow> choice k y \<Longrightarrow> x = y"
  shows "c = d"
  using assms by (metis common_member)

end

lemma majority_counts_intersect:
  assumes "finite V" and "card (V \<inter> A) \<ge> card V div 2 + 1" and "card (V \<inter> B) \<ge> card V div 2 + 1"
  shows "V \<inter> A \<inter> B \<noteq> {}"
proof
  assume "V \<inter> A \<inter> B = {}"
  then have "card (V \<inter> A) + card (V \<inter> B) = card (V \<inter> A \<union> V \<inter> B)"
    using assms(1) by (intro card_Un_disjoint [symmetric]) auto
  also have "\<dots> \<le> card V" using assms(1) by (intro card_mono) auto
  finally show False using assms(2,3) by linarith
qed

lemma majorityMask_bits:
  "majorityMask voters acked \<longleftrightarrow>
     voters \<noteq> 0 \<and> card (bits_of voters \<inter> bits_of acked) \<ge> card (bits_of voters) div 2 + 1"
  by (simp add: majorityMask_def bitsSet_card bits_of_and)

lemma majorityMask_mono:
  assumes "majorityMask V A" and "bits_of A \<subseteq> bits_of B"
  shows "majorityMask V B"
proof -
  have "card (bits_of V \<inter> bits_of A) \<le> card (bits_of V \<inter> bits_of B)"
    using assms(2) by (intro card_mono) auto
  with assms(1) show ?thesis by (simp add: majorityMask_bits)
qed

lemma majorityMask_common_voter:
  assumes "majorityMask V A" and "majorityMask V B"
  shows "\<exists>k. bit V k \<and> bit A k \<and> bit B k"
  using majority_counts_intersect [of "bits_of V" "bits_of A" "bits_of B"] assms
  by (auto simp: majorityMask_bits)

definition joint_quorum :: "u64 \<Rightarrow> u64 \<Rightarrow> u64 \<Rightarrow> bool" where
  "joint_quorum oldVoters newVoters msk \<longleftrightarrow>
     majorityMask oldVoters msk \<and> (newVoters = 0 \<or> majorityMask newVoters msk)"

interpretation simple: quorum_system "majorityMask V" for V
proof unfold_locales
  fix A B
  show "majorityMask V A \<Longrightarrow> majorityMask V B \<Longrightarrow> A AND B \<noteq> 0"
    using majorityMask_common_voter [of V A B] by (auto simp: and_eq_0_iff)
  show "majorityMask V A \<Longrightarrow> bits_of A \<subseteq> bits_of B \<Longrightarrow> majorityMask V B"
    by (rule majorityMask_mono)
qed

interpretation joint: quorum_system "joint_quorum V W" for V W
proof unfold_locales
  fix A B
  show "joint_quorum V W A \<Longrightarrow> joint_quorum V W B \<Longrightarrow> A AND B \<noteq> 0"
    by (auto simp: joint_quorum_def dest: simple.intersect)
  show "joint_quorum V W A \<Longrightarrow> bits_of A \<subseteq> bits_of B \<Longrightarrow> joint_quorum V W B"
    by (auto simp: joint_quorum_def intro: majorityMask_mono)
qed

subsection \<open>The two forms agree\<close>

lemma majority_count:
  "fold (\<lambda>nid count. if acked nid then count + 1 else count) voters k =
     k + length (filter acked voters)" for k :: nat
  by (induction voters arbitrary: k) auto

lemma majority_eq_mask:
  assumes "list_all valid_id voters" and "voterMask voters = Some (V, True)"
    and "\<And>nid. valid_id nid \<Longrightarrow> bit A (idx nid) \<longleftrightarrow> acked nid"
  shows "majority voters acked \<longleftrightarrow> majorityMask V A"
proof -
  have ne: "voters \<noteq> []" and loop: "voterMask_loop voters 0 = Some (V, True)"
    using assms(2) by (auto simp: voterMask_def split: if_splits)
  then have V: "distinct voters" "bits_of V = idx ` set voters"
    using voterMask_loop_Some [OF assms(1), of 0] by auto
  have inj: "inj_on idx (set voters)"
    using assms(1) by (auto simp: inj_on_def list_all_iff idx_inject)
  have "bits_of V \<inter> bits_of A = idx ` set (filter acked voters)"
    using V(2) assms(1,3) by (auto simp: list_all_iff)
  then have "card (bits_of V \<inter> bits_of A) = length (filter acked voters)"
    using inj V(1) by (simp add: card_image inj_on_subset distinct_card [symmetric] del: set_filter)
  moreover have "card (bits_of V) = length voters"
    using V inj by (simp add: card_image distinct_card)
  moreover have "V \<noteq> 0" using V(2) ne by (auto simp flip: bits_of_empty_iff)
  ultimately show ?thesis
    using ne by (simp add: majority_def majority_count majorityMask_bits)
qed

text \<open>
  C5: On well-formed voter lists the list rule \<open>Membership.CanCommit\<close> and the mask rule of the
  node (a majority of the old voters, and of the new voters when a transition is under way)
  decide the same way: \<open>V\<close> and \<open>W\<close> are the masks \<open>voterMask\<close> computes, \<open>W = 0\<close> when there is no
  transition, and \<open>A\<close> is the mask of the acknowledging nodes.
\<close>

theorem CanCommit_iff_joint_quorum:
  assumes "list_all valid_id (Old m @ New m)" and "voterMask (Old m) = Some (V, True)"
    and "if Joint m then voterMask (New m) = Some (W, True) else W = 0"
    and "\<And>nid. valid_id nid \<Longrightarrow> bit A (idx nid) \<longleftrightarrow> acked nid"
  shows "CanCommit m acked \<longleftrightarrow> joint_quorum V W A"
proof (cases "Joint m")
  case True
  then have W: "voterMask (New m) = Some (W, True)" using assms(3) by simp
  have "W \<noteq> 0"
    using W voterMask_loop_Some [of "New m" 0] assms(1) True
    by (auto simp: voterMask_def Joint_def simp flip: bits_of_empty_iff split: if_splits)
  then show ?thesis
    using True assms(1) majority_eq_mask [OF _ assms(2,4)] majority_eq_mask [OF _ W assms(4)]
    by (simp add: CanCommit_def joint_quorum_def)
next
  case False
  then show ?thesis
    using assms(1,3) majority_eq_mask [OF _ assms(2,4)]
    by (simp add: CanCommit_def joint_quorum_def)
qed

theorem CanCommit_iff_joint_quorum_witness:
  "CanCommit \<lparr>Old = [1, 2, 3], New = [3, 4]\<rparr> (\<lambda>nid. bit (13 :: u64) (idx nid))
     = joint_quorum 7 12 13"
  by (rule CanCommit_iff_joint_quorum)
    (auto simp: valid_id_def Joint_def voterMask_def nodeBit_def)

definition adjacent :: "u64 \<times> u64 \<Rightarrow> u64 \<times> u64 \<Rightarrow> bool" where
  "adjacent c d \<longleftrightarrow> ({fst c, snd c} \<inter> {fst d, snd d}) - {0} \<noteq> {}"

lemma adjacent_common_member:
  assumes "adjacent (V, W) (V', W')" and "joint_quorum V W A" and "joint_quorum V' W' B"
  shows "\<exists>k. bit A k \<and> bit B k"
proof -
  obtain X where "X \<noteq> 0" "X = V \<or> X = W" "X = V' \<or> X = W'"
    using assms(1) by (auto simp: adjacent_def)
  then have "majorityMask X A" "majorityMask X B"
    using assms(2,3) by (auto simp: joint_quorum_def)
  then show ?thesis using majorityMask_common_voter by blast
qed

text \<open>
  C6: Quorums of neighbouring configurations overlap. A membership change goes from voters \<open>V\<close>
  through the joint configuration \<open>(V, W)\<close> to \<open>W\<close>; two masks that satisfy the node's quorum rule
  in configurations which share a non-empty component have a member in common, so no two
  disjoint quorums exist before, during or after the transition.
\<close>

theorem adjacent_quorums_intersect:
  assumes "adjacent (V, W) (V', W')" and "joint_quorum V W A" and "joint_quorum V' W' B"
  shows "\<exists>k. bit A k \<and> bit B k"
  using assms by (rule adjacent_common_member)

theorem adjacent_quorums_intersect_witness:
  "adjacent (7, 24) (24, 0) \<and> (\<exists>k. bit (27 :: u64) k \<and> bit (24 :: u64) k)"
proof -
  have b: "bitsSet 7 = 3" "bitsSet 24 = 2" "bitsSet 3 = 2"
    by (simp_all add: bitsSet_def bitsSet_loop.simps)
  have "joint_quorum 7 24 27" "joint_quorum 24 0 24" "adjacent (7, 24) (24, 0)"
    by (simp_all add: joint_quorum_def majorityMask_def adjacent_def b)
  then show ?thesis using adjacent_quorums_intersect by blast
qed

end
