(* ===== verification/Bytes.thy ===== *)
theory Bytes
  imports Prelude
begin

text \<open>
  What the packages use of Go's slices and standard library on bytes: \<^verbatim>\<open>encoding/binary\<close>'s little-endian
  integers and \<^verbatim>\<open>hash/crc32\<close> with the Castagnoli table. The lemmas give the round trips of the
  integer codecs and the error-detection property of the checksum the record formats rely on:
  two byte strings of one length that differ in exactly one byte have different checksums.
\<close>

type_synonym bytes = "u8 list"

subsection \<open>Slices and little-endian integers\<close>

definition go_slice :: "nat \<Rightarrow> nat \<Rightarrow> 'a list \<Rightarrow> 'a list" where
  "go_slice i j xs = take (j - i) (drop i xs)"

definition le_bytes :: "nat \<Rightarrow> 'a::len word \<Rightarrow> bytes" where
  "le_bytes n w = map (\<lambda>k. ucast (drop_bit (8 * k) w)) [0..<n]"

definition le_word :: "bytes \<Rightarrow> 'a::len word" where
  "le_word bs = foldr (\<lambda>b acc. ucast b OR push_bit 8 acc) bs 0"

definition PutUint16 :: "u16 \<Rightarrow> bytes" where "PutUint16 = le_bytes 2"
definition PutUint32 :: "u32 \<Rightarrow> bytes" where "PutUint32 = le_bytes 4"
definition PutUint64 :: "u64 \<Rightarrow> bytes" where "PutUint64 = le_bytes 8"
definition Uint16 :: "bytes \<Rightarrow> u16" where "Uint16 = le_word"
definition Uint32 :: "bytes \<Rightarrow> u32" where "Uint32 = le_word"
definition Uint64 :: "bytes \<Rightarrow> u64" where "Uint64 = le_word"

lemma length_le_bytes [simp]: "length (le_bytes n w) = n"
  by (simp add: le_bytes_def)

lemma length_Put [simp]:
  "length (PutUint16 a) = 2" "length (PutUint32 b) = 4" "length (PutUint64 c) = 8"
  by (simp_all add: PutUint16_def PutUint32_def PutUint64_def)

lemma bit_le_word:
  "bit (le_word bs :: 'a::len word) k \<longleftrightarrow>
     k < LENGTH('a) \<and> k div 8 < length bs \<and> bit (bs ! (k div 8)) (k mod 8)"
proof (induction bs arbitrary: k)
  case Nil
  then show ?case by (simp add: le_word_def)
next
  case (Cons b bs)
  have "bit (le_word (b # bs) :: 'a word) k \<longleftrightarrow>
      k < LENGTH('a) \<and> (bit b k \<or> 8 \<le> k \<and> bit (le_word bs :: 'a word) (k - 8))"
    by (auto simp: le_word_def bit_simps dest: bit_imp_le_length)
  also have "\<dots> \<longleftrightarrow> k < LENGTH('a) \<and> k div 8 < length (b # bs) \<and> bit ((b # bs) ! (k div 8)) (k mod 8)"
  proof (cases "k < 8")
    case True
    then show ?thesis by simp
  next
    case False
    then have "\<not> bit b k" using bit_imp_le_length [of b k] by auto
    moreover have "k div 8 = Suc ((k - 8) div 8)" "k mod 8 = (k - 8) mod 8"
      using False by (simp_all add: le_div_geq le_mod_geq)
    ultimately show ?thesis using False by (auto simp: Cons.IH)
  qed
  finally show ?case .
qed

lemma le_word_le_bytes:
  assumes "LENGTH('a) = 8 * n"
  shows "le_word (le_bytes n w) = (w :: 'a::len word)"
proof (rule bit_word_eqI)
  fix k assume k: "k < LENGTH('a)"
  then have "k div 8 < n" using assms by simp
  then show "bit (le_word (le_bytes n w) :: 'a word) k = bit w k"
    using k by (simp add: bit_le_word) (simp add: le_bytes_def bit_simps)
qed

lemma le_bytes_le_word:
  assumes "length bs = n" and "LENGTH('a) = 8 * n"
  shows "le_bytes n (le_word bs :: 'a::len word) = bs"
proof (rule nth_equalityI)
  fix i assume "i < length (le_bytes n (le_word bs :: 'a word))"
  then have i: "i < n" by simp
  show "le_bytes n (le_word bs :: 'a word) ! i = bs ! i"
  proof (rule bit_word_eqI)
    fix k assume k: "k < LENGTH(8)"
    have "(8 * i + k) div 8 = i" "(8 * i + k) mod 8 = k" using k by simp_all
    then show "bit (le_bytes n (le_word bs :: 'a word) ! i) k = bit (bs ! i) k"
      using i k assms by (simp add: le_bytes_def bit_simps bit_le_word)
  qed
qed (use assms in simp)

lemma Uint_Put [simp]:
  "Uint16 (PutUint16 a) = a" "Uint32 (PutUint32 b) = b" "Uint64 (PutUint64 c) = c"
  by (simp_all add: PutUint16_def PutUint32_def PutUint64_def Uint16_def Uint32_def Uint64_def
      le_word_le_bytes)

lemma Put_Uint:
  "length bs = 2 \<Longrightarrow> PutUint16 (Uint16 bs) = bs"
  "length bs = 4 \<Longrightarrow> PutUint32 (Uint32 bs) = bs"
  "length bs = 8 \<Longrightarrow> PutUint64 (Uint64 bs) = bs"
  by (simp_all add: PutUint16_def PutUint32_def PutUint64_def Uint16_def Uint32_def Uint64_def
      le_bytes_le_word)

lemma Uint32_inj: "length bs = 4 \<Longrightarrow> length cs = 4 \<Longrightarrow> Uint32 bs = Uint32 cs \<longleftrightarrow> bs = cs"
  by (metis Put_Uint(2))

lemma ucast_u8_u16 [simp]: "ucast (ucast (x :: u8) :: u16) = x"
  by (rule bit_word_eqI) (simp add: bit_simps)

subsection \<open>Slices of concatenated fields\<close>

lemma length_go_slice [simp]: "length (go_slice i j xs) = min (j - i) (length xs - i)"
  by (simp add: go_slice_def)

lemma go_slice_append_skip [simp]:
  "length xs \<le> i \<Longrightarrow> go_slice i j (xs @ ys) = go_slice (i - length xs) (j - length xs) ys"
  by (simp add: go_slice_def)

lemma go_slice_append_take [simp]:
  "j \<le> length xs \<Longrightarrow> go_slice i j (xs @ ys) = go_slice i j xs"
  by (simp add: go_slice_def)

lemma go_slice_Cons [simp]: "0 < i \<Longrightarrow> go_slice i j (x # xs) = go_slice (i - 1) (j - 1) xs"
  by (cases i) (simp_all add: go_slice_def)

lemma go_slice_whole [simp]: "length xs \<le> j \<Longrightarrow> go_slice 0 j xs = xs"
  by (simp add: go_slice_def)

lemma go_slice_list_update_outside:
  "n < i \<or> j \<le> n \<Longrightarrow> go_slice i j (xs[n := x]) = go_slice i j xs"
proof (cases "n < i")
  case True
  then show ?thesis by (simp add: go_slice_def drop_update_cancel)
next
  case False
  moreover assume "n < i \<or> j \<le> n"
  ultimately show ?thesis by (simp add: go_slice_def drop_update_swap take_update_cancel)
qed

lemma go_slice_list_update_inside:
  "i \<le> n \<Longrightarrow> n < j \<Longrightarrow> go_slice i j (xs[n := x]) = (go_slice i j xs)[n - i := x]"
  by (auto simp: go_slice_def drop_update_swap take_update_swap)

subsection \<open>CRC-32C\<close>

definition castagnoli :: u32 where
  "castagnoli = 0x82F63B78"

definition crc_bit :: "u32 \<Rightarrow> u32" where
  "crc_bit c = (if bit c 0 then drop_bit 1 c XOR castagnoli else drop_bit 1 c)"

definition crc_table :: "u8 \<Rightarrow> u32" where
  "crc_table i = (crc_bit ^^ 8) (ucast i)"

definition crc_byte :: "u32 \<Rightarrow> u8 \<Rightarrow> u32" where
  "crc_byte c b = crc_table (ucast c XOR b) XOR drop_bit 8 c"

definition Checksum :: "bytes \<Rightarrow> u32" where
  "Checksum data = NOT (foldl crc_byte (NOT 0) data)"

lemma crc_bit_xor: "crc_bit (a XOR b) = crc_bit a XOR crc_bit b"
  by (rule bit_word_eqI) (auto simp: crc_bit_def bit_simps)

lemma xor_right_cancel: "(a :: 'a::len word) XOR c = b XOR c \<longleftrightarrow> a = b"
proof
  assume "a XOR c = b XOR c"
  then have "(a XOR c) XOR c = (b XOR c) XOR c" by simp
  then show "a = b" by (simp add: xor.assoc)
qed simp

lemma crc_bit_inj: "crc_bit a = crc_bit b \<Longrightarrow> a = b"
proof -
  assume eq: "crc_bit a = crc_bit b"
  have top: "bit (crc_bit c) 31 = bit c 0" for c
    using bit_imp_le_length [of c 32] by (auto simp: crc_bit_def castagnoli_def bit_simps)
  have "bit a 0 = bit b 0" using top [of a] top [of b] eq by simp
  then have "drop_bit 1 a = drop_bit 1 b"
    using eq by (auto simp: crc_bit_def xor_right_cancel split: if_splits)
  then have "bit (drop_bit 1 a) k = bit (drop_bit 1 b) k" for k by simp
  then have "bit a (Suc k) = bit b (Suc k)" for k
    by (simp add: bit_simps)
  with \<open>bit a 0 = bit b 0\<close> show "a = b"
    by (intro bit_word_eqI) (metis not0_implies_Suc)
qed

lemma crc_bits_xor: "(crc_bit ^^ n) (a XOR b) = (crc_bit ^^ n) a XOR (crc_bit ^^ n) b"
  by (induction n) (simp_all add: crc_bit_xor)

lemma crc_bits_inj: "(crc_bit ^^ n) a = (crc_bit ^^ n) b \<Longrightarrow> a = b"
  by (induction n) (auto dest: crc_bit_inj)

lemma crc_bits_shift:
  "(\<And>k. k < n \<Longrightarrow> \<not> bit c k) \<Longrightarrow> (crc_bit ^^ n) c = drop_bit n c"
proof (induction n arbitrary: c)
  case (Suc n)
  have "crc_bit c = drop_bit 1 c" using Suc.prems [of 0] by (simp add: crc_bit_def)
  moreover have "(crc_bit ^^ n) (drop_bit 1 c) = drop_bit n (drop_bit 1 c)"
    using Suc.prems by (intro Suc.IH) (simp add: bit_simps)
  ultimately show ?case
    by (simp only: funpow_Suc_right o_apply) (simp add: drop_bit_drop_bit)
qed simp

text \<open>The table-driven byte step is eight bit steps on the state with the byte folded in.\<close>

lemma crc_byte_eq: "crc_byte c b = (crc_bit ^^ 8) (c XOR ucast b)"
proof -
  have "c XOR ucast b = ucast (ucast c XOR b :: u8) XOR (push_bit 8 (drop_bit 8 c))"
    by (rule bit_word_eqI) (auto simp: bit_simps not_less dest: bit_imp_le_length)
  moreover have "(crc_bit ^^ 8) (push_bit 8 (drop_bit 8 c)) = drop_bit 8 c"
  proof (subst crc_bits_shift)
    show "drop_bit 8 (push_bit 8 (drop_bit 8 c)) = drop_bit 8 c"
      using bit_imp_le_length [of c] by (intro bit_word_eqI) (fastforce simp: bit_simps)
  qed (simp_all add: bit_simps)
  ultimately show ?thesis
    by (simp add: crc_byte_def crc_table_def crc_bits_xor)
qed

lemma crc_byte_inj_state: "crc_byte c b = crc_byte d b \<Longrightarrow> c = d"
proof -
  assume "crc_byte c b = crc_byte d b"
  then have "c XOR ucast b = d XOR ucast b" by (auto simp: crc_byte_eq dest: crc_bits_inj)
  then show "c = d" by (simp add: xor_right_cancel)
qed

lemma crc_byte_inj_byte: "crc_byte c b = crc_byte c b' \<Longrightarrow> b = b'"
proof -
  assume "crc_byte c b = crc_byte c b'"
  then have "c XOR ucast b = c XOR ucast b'" by (auto simp: crc_byte_eq dest: crc_bits_inj)
  then have "c XOR (c XOR ucast b) = c XOR (c XOR ucast b')" by simp
  then have "(ucast b :: u32) = ucast b'" by (simp flip: xor.assoc)
  then have "bit (ucast b :: u32) k = bit (ucast b' :: u32) k" for k by simp
  then show "b = b'" by (intro bit_word_eqI) (fastforce simp: bit_simps)
qed

lemma foldl_crc_inj: "foldl crc_byte c bs = foldl crc_byte d bs \<Longrightarrow> c = d"
  by (induction bs arbitrary: c d) (auto dest: crc_byte_inj_state)

lemma Checksum_single_byte:
  assumes "i < length bs" and "b \<noteq> bs ! i"
  shows "Checksum (bs[i := b]) \<noteq> Checksum bs"
proof
  assume "Checksum (bs[i := b]) = Checksum bs"
  then have "foldl crc_byte (NOT 0) (bs[i := b]) = foldl crc_byte (NOT 0) bs"
    by (simp add: Checksum_def)
  then have "foldl crc_byte (foldl crc_byte (NOT 0) (take i bs)) (b # drop (Suc i) bs) =
      foldl crc_byte (foldl crc_byte (NOT 0) (take i bs)) (bs ! i # drop (Suc i) bs)"
    using assms(1) by (metis foldl_append id_take_nth_drop upd_conv_take_nth_drop)
  then have "crc_byte (foldl crc_byte (NOT 0) (take i bs)) b =
      crc_byte (foldl crc_byte (NOT 0) (take i bs)) (bs ! i)"
    by (auto dest: foldl_crc_inj)
  then have "b = bs ! i" by (rule crc_byte_inj_byte)
  with assms(2) show False by simp
qed

end
