(* ===== verification/Raft_Types.thy ===== *)
theory Raft_Types
  imports Quorum Bytes
begin

text \<open>
  The data of \<^verbatim>\<open>raft/types.go\<close> and \<^verbatim>\<open>raft/persist.go\<close>: entries, messages, hard state,
  snapshots, and the persistence interfaces \<open>StableStore\<close> and \<open>SnapshotStore\<close>. The Go enums
  that travel in messages and records (\<open>EntryKind\<close>, \<open>CommandOp\<close>, \<open>MessageType\<close>) are \<open>uint8\<close>
  values there, and decoding accepts every byte, so they are bytes with named constants here;
  \<open>State\<close> never leaves the process and is a datatype. A Go interface value is a record of
  operations over the concrete store type; the type assertion \<open>store.(SnapshotStore)\<close> is the
  optional component \<open>asSnapshotStore\<close>.
\<close>

datatype State = Follower | Candidate | Leader

type_synonym EntryKind = u8

abbreviation (input) EntryNormal :: EntryKind where "EntryNormal \<equiv> 0"
abbreviation (input) EntryJointConfig :: EntryKind where "EntryJointConfig \<equiv> 1"
abbreviation (input) EntryFinalConfig :: EntryKind where "EntryFinalConfig \<equiv> 2"
abbreviation (input) EntryNoop :: EntryKind where "EntryNoop \<equiv> 3"

type_synonym CommandOp = u8

abbreviation (input) CommandLegacy :: CommandOp where "CommandLegacy \<equiv> 0"
abbreviation (input) CommandPut :: CommandOp where "CommandPut \<equiv> 1"
abbreviation (input) CommandDelete :: CommandOp where "CommandDelete \<equiv> 2"

record Entry =
  eTerm :: u64
  eCommand :: u64
  eKind :: EntryKind
  eOldVoters :: u64
  eNewVoters :: u64
  eOperation :: CommandOp
  eClientID :: u64
  eRequestID :: u64
  eKey :: u64
  eValue :: u64

definition zero_Entry :: Entry where
  "zero_Entry = \<lparr>eTerm = 0, eCommand = 0, eKind = EntryNormal, eOldVoters = 0, eNewVoters = 0,
     eOperation = CommandLegacy, eClientID = 0, eRequestID = 0, eKey = 0, eValue = 0\<rparr>"

type_synonym MessageType = u8

abbreviation (input) MsgPreVote :: MessageType where "MsgPreVote \<equiv> 0"
abbreviation (input) MsgPreVoteResponse :: MessageType where "MsgPreVoteResponse \<equiv> 1"
abbreviation (input) MsgRequestVote :: MessageType where "MsgRequestVote \<equiv> 2"
abbreviation (input) MsgRequestVoteResponse :: MessageType where "MsgRequestVoteResponse \<equiv> 3"
abbreviation (input) MsgAppend :: MessageType where "MsgAppend \<equiv> 4"
abbreviation (input) MsgAppendResponse :: MessageType where "MsgAppendResponse \<equiv> 5"
abbreviation (input) MsgTimeoutNow :: MessageType where "MsgTimeoutNow \<equiv> 6"
abbreviation (input) MsgInstallSnapshot :: MessageType where "MsgInstallSnapshot \<equiv> 7"
abbreviation (input) MsgInstallSnapshotResponse :: MessageType
  where "MsgInstallSnapshotResponse \<equiv> 8"

record Message =
  mType :: MessageType
  mFrom :: u32
  mTo :: u32
  mTerm :: u64
  mLogIndex :: u64
  mLogTerm :: u64
  mEntry :: Entry
  mHasEntry :: bool
  mCommit :: u64
  mReject :: bool
  mMatch :: u64
  mContext :: u64
  mSnapshotIndex :: u64
  mSnapshotTerm :: u64
  mSnapshot :: bytes
  mSnapshotOld :: u64
  mSnapshotNew :: u64

definition zero_Message :: Message where
  "zero_Message = \<lparr>mType = MsgPreVote, mFrom = 0, mTo = 0, mTerm = 0, mLogIndex = 0, mLogTerm = 0,
     mEntry = zero_Entry, mHasEntry = False, mCommit = 0, mReject = False, mMatch = 0,
     mContext = 0, mSnapshotIndex = 0, mSnapshotTerm = 0, mSnapshot = [], mSnapshotOld = 0,
     mSnapshotNew = 0\<rparr>"

record HardState =
  hTerm :: u64
  hVotedFor :: u32
  hCommit :: u64

definition zero_HardState :: HardState where
  "zero_HardState = \<lparr>hTerm = 0, hVotedFor = 0, hCommit = 0\<rparr>"

record Snapshot =
  sLastIndex :: u64
  sLastTerm :: u64
  sState :: bytes
  sOldVoters :: u64
  sNewVoters :: u64

definition zero_Snapshot :: Snapshot where
  "zero_Snapshot = \<lparr>sLastIndex = 0, sLastTerm = 0, sState = [], sOldVoters = 0, sNewVoters = 0\<rparr>"

subsection \<open>raft/persist.go: the persistence boundary\<close>

record 's SnapshotStore =
  SaveSnapshot :: "Snapshot \<Rightarrow> 's \<Rightarrow> error option \<times> 's"
  CompactLog :: "u64 \<Rightarrow> 's \<Rightarrow> error option \<times> 's"

record 's StableStore =
  SaveHardState :: "HardState \<Rightarrow> 's \<Rightarrow> error option \<times> 's"
  AppendEntry :: "u64 \<Rightarrow> Entry \<Rightarrow> 's \<Rightarrow> error option \<times> 's"
  asSnapshotStore :: "'s SnapshotStore option"

record memoryStore =
  ms_hard :: HardState
  ms_log :: "Entry list"
  ms_snapshot :: Snapshot
  ms_base :: u64

definition zero_memoryStore :: memoryStore where
  "zero_memoryStore = \<lparr>ms_hard = zero_HardState, ms_log = [], ms_snapshot = zero_Snapshot, ms_base = 0\<rparr>"

definition ms_SaveHardState :: "HardState \<Rightarrow> memoryStore \<Rightarrow> error option \<times> memoryStore" where
  "ms_SaveHardState h s = (None, s\<lparr>ms_hard := h\<rparr>)"

definition ms_Append :: "u64 \<Rightarrow> Entry \<Rightarrow> memoryStore \<Rightarrow> error option \<times> memoryStore" where
  "ms_Append _ e s = (None, s\<lparr>ms_log := ms_log s @ [e]\<rparr>)"

definition ms_SaveSnapshot :: "Snapshot \<Rightarrow> memoryStore \<Rightarrow> error option \<times> memoryStore" where
  "ms_SaveSnapshot snapshot s = (None, s\<lparr>ms_snapshot := snapshot\<rparr>)"

definition ms_CompactLog :: "u64 \<Rightarrow> memoryStore \<Rightarrow> error option \<times> memoryStore" where
  "ms_CompactLog index s =
     (if index < ms_base s then (Some ErrStorage, s) else (None, s\<lparr>ms_base := index\<rparr>))"

definition memory_ops :: "memoryStore StableStore" where
  "memory_ops = \<lparr>SaveHardState = ms_SaveHardState, AppendEntry = ms_Append,
     asSnapshotStore = Some \<lparr>SaveSnapshot = ms_SaveSnapshot, CompactLog = ms_CompactLog\<rparr>\<rparr>"

subsection \<open>The contract of a stable store\<close>

text \<open>
  A hard state may replace another when the term does not go back, the vote of a term does not
  change once it is cast, and the commit index does not go back.
\<close>

definition hard_le :: "HardState \<Rightarrow> HardState \<Rightarrow> bool" where
  "hard_le h h' \<longleftrightarrow> hCommit h \<le> hCommit h' \<and>
     (hTerm h < hTerm h' \<or>
      hTerm h = hTerm h' \<and> (hVotedFor h = 0 \<or> hVotedFor h' = hVotedFor h))"

lemma hard_le_refl [simp]: "hard_le h h"
  by (simp add: hard_le_def)

lemma hard_le_trans: "hard_le a b \<Longrightarrow> hard_le b c \<Longrightarrow> hard_le a c"
  by (auto simp: hard_le_def)

text \<open>\<open>store_run S s s'\<close>: some sequence of operations, successful or not, leads from \<open>s\<close> to \<open>s'\<close>.\<close>

inductive store_run :: "'s StableStore \<Rightarrow> 's \<Rightarrow> 's \<Rightarrow> bool" for S where
  run_refl [simp]: "store_run S s s"
| run_save: "store_run S s s1 \<Longrightarrow> SaveHardState S h s1 = (r, s2) \<Longrightarrow> store_run S s s2"
| run_append: "store_run S s s1 \<Longrightarrow> AppendEntry S i en s1 = (r, s2) \<Longrightarrow> store_run S s s2"
| run_snapshot: "store_run S s s1 \<Longrightarrow> asSnapshotStore S = Some SS \<Longrightarrow>
    SaveSnapshot SS sn s1 = (r, s2) \<Longrightarrow> store_run S s s2"
| run_compact: "store_run S s s1 \<Longrightarrow> asSnapshotStore S = Some SS \<Longrightarrow>
    CompactLog SS i s1 = (r, s2) \<Longrightarrow> store_run S s s2"

lemma store_run_trans: "store_run S a b \<Longrightarrow> store_run S b c \<Longrightarrow> store_run S a c"
  by (rotate_tac 1, induction rule: store_run.induct)
    (blast intro: store_run.intros)+

lemmas store_run_one =
  run_save [OF run_refl] run_append [OF run_refl] run_snapshot [OF run_refl] run_compact [OF run_refl]

text \<open>
  What the node relies on: a successful \<open>SaveHardState\<close> holds exactly the state it was given and
  never replaces a state it must not replace; a failed one, and every other operation, leaves the
  hard state alone. \<open>hard_of\<close> reads the hard state the store holds.
\<close>

locale hard_store =
  fixes S :: "'s StableStore" and hard_of :: "'s \<Rightarrow> HardState"
  assumes save_ok: "SaveHardState S h s = (None, s') \<Longrightarrow> hard_of s' = h \<and> hard_le (hard_of s) h"
    and save_err: "SaveHardState S h s = (Some e, s') \<Longrightarrow> hard_of s' = hard_of s"
    and append_hard: "AppendEntry S i en s = (r, s') \<Longrightarrow> hard_of s' = hard_of s"
    and snapshot_hard: "asSnapshotStore S = Some SS \<Longrightarrow> SaveSnapshot SS sn s = (r, s') \<Longrightarrow>
      hard_of s' = hard_of s"
    and compact_hard: "asSnapshotStore S = Some SS \<Longrightarrow> CompactLog SS i s = (r, s') \<Longrightarrow>
      hard_of s' = hard_of s"

text \<open>
  A store that also survives crashes: \<open>crash s s'\<close> says that losing power while its store is \<open>s\<close>, or while an
  operation on \<open>s\<close> is in progress, and opening the device again can give the store \<open>s'\<close>. The hard state is then
  the old one or, when the operation in progress was saving it, possibly the new one.
\<close>

locale durable_store = hard_store +
  fixes store_ok :: "'s \<Rightarrow> bool" and crash :: "'s \<Rightarrow> 's \<Rightarrow> bool"
  assumes save_keeps: "store_ok s \<Longrightarrow> SaveHardState S h s = (r, s') \<Longrightarrow> store_ok s'"
    and append_keeps: "store_ok s \<Longrightarrow> AppendEntry S i en s = (r, s') \<Longrightarrow> store_ok s'"
    and snapshot_keeps: "store_ok s \<Longrightarrow> asSnapshotStore S = Some SS \<Longrightarrow>
      SaveSnapshot SS sn s = (r, s') \<Longrightarrow> store_ok s'"
    and compact_keeps: "store_ok s \<Longrightarrow> asSnapshotStore S = Some SS \<Longrightarrow>
      CompactLog SS i s = (r, s') \<Longrightarrow> store_ok s'"
    and crash_hard: "store_ok s \<Longrightarrow> crash s s' \<Longrightarrow> store_ok s' \<and> hard_le (hard_of s) (hard_of s')"

context durable_store
begin

lemma store_run_keeps: "store_run S s s' \<Longrightarrow> store_ok s \<Longrightarrow> store_ok s'"
  by (induction rule: store_run.induct)
    (auto dest: save_keeps append_keeps snapshot_keeps compact_keeps)

end

context hard_store
begin

lemma store_run_hard: "store_run S s s' \<Longrightarrow> hard_le (hard_of s) (hard_of s')"
proof (induction rule: store_run.induct)
  case (run_save s s1 h r s2)
  have "hard_le (hard_of s1) (hard_of s2)"
    using run_save.hyps(2) save_ok [of h s1 s2] save_err [of h s1 _ s2] by (cases r) auto
  with run_save.IH show ?case by (rule hard_le_trans)
qed (auto dest: append_hard snapshot_hard compact_hard)

end

end
