(* ===== verification/Raft_Node.thy ===== *)
theory Raft_Node
  imports Raft_Types
begin

text \<open>
  The consensus core, \<^verbatim>\<open>raft/node.go\<close> and \<^verbatim>\<open>raft/recover.go\<close>: the node record and every
  operation of the file, over an arbitrary \<open>StableStore\<close> \<open>S\<close>. An operation that can panic
  returns an option (\<open>None\<close> is the panic); an operation that can return early from the middle of
  its body is split at that point, and its first part returns \<open>Inl n\<close> for "return now with \<open>n\<close>"
  and \<open>Inr n\<close> for "go on". Go's map reads give zero for a missing key, so \<open>next\<close> and \<open>match\<close> are
  total functions.
\<close>

definition outboundCapacity :: nat where
  "outboundCapacity = 4096"

record 's Node =
  nID :: u32
  nPeers :: "u32 list"
  nState :: State
  nTerm :: u64
  nVotedFor :: u32
  nLeader :: u32
  nLog :: "Entry list"
  nBaseIndex :: u64
  nBaseTerm :: u64
  nCommit :: u64
  nApplied :: u64
  nTimeout :: u64
  nElapsed :: u64
  nVoteMask :: u64
  nPreVoteMask :: u64
  nPreVoteTerm :: u64
  nNext :: "u32 \<Rightarrow> u64"
  nMatch :: "u32 \<Rightarrow> u64"
  nOutbound :: "Message list"
  nStore :: 's
  nFaulted :: bool
  nStorageErr :: "error option"
  nReadContext :: u64
  nReadAckMask :: u64
  nReadIndex :: u64
  nReadReady :: bool
  nSnapshot :: Snapshot
  nVotersOld :: u64
  nVotersNew :: u64
  nPendingConfig :: u64

subsection \<open>Construction\<close>

fun seenVoters :: "u32 list \<Rightarrow> u64 \<Rightarrow> u64 option" where
  "seenVoters [] seen = Some seen"
| "seenVoters (peer # peers) seen = do {
     b \<leftarrow> nodeBit peer;
     if seen AND b \<noteq> 0 then None else seenVoters peers (seen OR b) }"

definition NewNodeWithStore :: "u32 \<Rightarrow> u32 list \<Rightarrow> u64 \<Rightarrow> 's \<Rightarrow> 's Node option" where
  "NewNodeWithStore nid peers electionTimeout store = do {
     seen \<leftarrow> nodeBit nid;
     voters \<leftarrow> seenVoters peers seen;
     Some \<lparr>nID = nid, nPeers = peers, nState = Follower, nTerm = 0, nVotedFor = 0, nLeader = 0,
       nLog = [zero_Entry], nBaseIndex = 0, nBaseTerm = 0, nCommit = 0, nApplied = 0,
       nTimeout = electionTimeout, nElapsed = 0, nVoteMask = 0, nPreVoteMask = 0,
       nPreVoteTerm = 0, nNext = (\<lambda>_. 0), nMatch = (\<lambda>_. 0), nOutbound = [], nStore = store,
       nFaulted = False, nStorageErr = None, nReadContext = 0, nReadAckMask = 0, nReadIndex = 0,
       nReadReady = False, nSnapshot = zero_Snapshot, nVotersOld = voters, nVotersNew = 0,
       nPendingConfig = 0\<rparr> }"

definition NewNode :: "u32 \<Rightarrow> u32 list \<Rightarrow> u64 \<Rightarrow> memoryStore Node option" where
  "NewNode nid peers electionTimeout = NewNodeWithStore nid peers electionTimeout zero_memoryStore"

definition VoterMasks :: "'s Node \<Rightarrow> u64 \<times> u64" where
  "VoterMasks n = (nVotersOld n, nVotersNew n)"

subsection \<open>The log\<close>

definition lastIndex :: "'s Node \<Rightarrow> u64" where
  "lastIndex n = nBaseIndex n + of_nat (length (nLog n)) - 1"

definition LastIndex :: "'s Node \<Rightarrow> u64" where
  "LastIndex n = lastIndex n"

definition offset :: "'s Node \<Rightarrow> u64 \<Rightarrow> u64 option" where
  "offset n index =
     (if index < nBaseIndex n \<or> index > lastIndex n then None else Some (index - nBaseIndex n))"

definition EntryAt :: "'s Node \<Rightarrow> u64 \<Rightarrow> (Entry \<times> bool) option" where
  "EntryAt n index =
     (case offset n index of
        None \<Rightarrow> Some (zero_Entry, False)
      | Some off \<Rightarrow> do { e \<leftarrow> go_index (nLog n) (unat off); Some (e, True) })"

definition termAt :: "'s Node \<Rightarrow> u64 \<Rightarrow> (u64 \<times> bool) option" where
  "termAt n index =
     (case offset n index of
        None \<Rightarrow> Some (0, False)
      | Some off \<Rightarrow> do { e \<leftarrow> go_index (nLog n) (unat off); Some (eTerm e, True) })"

definition termAtMust :: "'s Node \<Rightarrow> u64 \<Rightarrow> u64 option" where
  "termAtMust n index = do { (t, ok) \<leftarrow> termAt n index; if \<not> ok then None else Some t }"

definition entryAt :: "'s Node \<Rightarrow> u64 \<Rightarrow> Entry option" where
  "entryAt n index = do { off \<leftarrow> offset n index; go_index (nLog n) (unat off) }"

subsection \<open>Storage failures and outbound messages\<close>

definition failStorage :: "'s Node \<Rightarrow> 's Node" where
  "failStorage n = n\<lparr>
     nStorageErr := (if nStorageErr n = None then Some ErrStorage else nStorageErr n),
     nFaulted := True, nState := Follower, nLeader := 0, nOutbound := []\<rparr>"

definition failStorageWith :: "error \<Rightarrow> 's Node \<Rightarrow> 's Node" where
  "failStorageWith err n = failStorage (n\<lparr>nStorageErr := Some err\<rparr>)"

definition StorageError :: "'s Node \<Rightarrow> error option" where
  "StorageError n = nStorageErr n"

definition persistHardState :: "'s StableStore \<Rightarrow> HardState \<Rightarrow> 's Node \<Rightarrow> bool \<times> 's Node" where
  "persistHardState S h n =
     (case SaveHardState S h (nStore n) of
        (None, st) \<Rightarrow> (True, n\<lparr>nStore := st\<rparr>)
      | (Some err, st) \<Rightarrow> (False, failStorageWith err (n\<lparr>nStore := st\<rparr>)))"

definition send :: "Message \<Rightarrow> 's Node \<Rightarrow> 's Node option" where
  "send m n =
     (if length (nOutbound n) = outboundCapacity then None
      else Some (n\<lparr>nOutbound := nOutbound n @ [m]\<rparr>))"

definition Drain :: "Message list \<Rightarrow> 's Node \<Rightarrow> Message list \<times> 's Node" where
  "Drain dst n = (dst @ nOutbound n, n\<lparr>nOutbound := []\<rparr>)"

subsection \<open>Voters and quorums\<close>

definition effectiveVoters :: "'s Node \<Rightarrow> (u64 \<times> u64) option" where
  "effectiveVoters n =
     for_u64 (max (nCommit n + 1) (nBaseIndex n + 1)) (lastIndex n)
       (\<lambda>index (oldVoters, newVoters). do {
          entry \<leftarrow> entryAt n index;
          Some (if eKind entry = EntryJointConfig then (eOldVoters entry, eNewVoters entry)
                else (oldVoters, newVoters)) })
       (nVotersOld n, nVotersNew n)"

definition quorumMask :: "'s Node \<Rightarrow> u64 \<Rightarrow> bool option" where
  "quorumMask n msk = do {
     (oldVoters, newVoters) \<leftarrow> effectiveVoters n;
     Some (majorityMask oldVoters msk \<and> (newVoters = 0 \<or> majorityMask newVoters msk)) }"

definition isVoter :: "'s Node \<Rightarrow> u32 \<Rightarrow> bool option" where
  "isVoter n nid = do {
     (oldVoters, newVoters) \<leftarrow> effectiveVoters n;
     b \<leftarrow> nodeBit nid;
     Some ((oldVoters OR newVoters) AND b \<noteq> 0) }"

definition canCommitIndex :: "'s Node \<Rightarrow> u64 \<Rightarrow> u64 \<Rightarrow> bool option" where
  "canCommitIndex n index acked = do {
     (oldVoters, newVoters) \<leftarrow> for_u64 (nCommit n + 1) index
       (\<lambda>pending (oldVoters, newVoters). do {
          entry \<leftarrow> entryAt n pending;
          Some (if eKind entry = EntryJointConfig then (eOldVoters entry, eNewVoters entry)
                else (oldVoters, newVoters)) })
       (nVotersOld n, nVotersNew n);
     Some (majorityMask oldVoters acked \<and> (newVoters = 0 \<or> majorityMask newVoters acked)) }"

definition ensurePeer :: "u64 \<Rightarrow> u32 \<Rightarrow> 's Node \<Rightarrow> 's Node option" where
  "ensurePeer msk nid n =
     (if nid = nID n then Some n
      else do {
        b \<leftarrow> nodeBit nid;
        if msk AND b = 0 then Some n
        else if nid \<in> set (nPeers n) then Some n
        else Some (n\<lparr>nPeers := nPeers n @ [nid],
                     nNext := (nNext n)(nid := lastIndex n + 1),
                     nMatch := (nMatch n)(nid := 0)\<rparr>) })"

definition ensurePeers :: "u64 \<Rightarrow> 's Node \<Rightarrow> 's Node option" where
  "ensurePeers msk n = foldM (ensurePeer msk) (map of_nat [1..<65]) n"

definition applyConfigurationEntry :: "Entry \<Rightarrow> 's Node \<Rightarrow> 's Node option" where
  "applyConfigurationEntry entry n =
     (if eKind entry = EntryJointConfig then
        ensurePeers (eOldVoters entry OR eNewVoters entry)
          (n\<lparr>nVotersOld := eOldVoters entry, nVotersNew := eNewVoters entry\<rparr>)
      else if eKind entry = EntryFinalConfig then do {
        let n' = n\<lparr>nVotersOld := eOldVoters entry, nVotersNew := 0\<rparr>;
        v \<leftarrow> isVoter n' (nID n');
        Some (if \<not> v then n'\<lparr>nState := Follower, nLeader := 0, nReadReady := False\<rparr> else n') }
      else Some n)"

definition applyCommittedConfiguration :: "u64 \<Rightarrow> 's Node \<Rightarrow> 's Node option" where
  "applyCommittedConfiguration index n = do {
     entry \<leftarrow> entryAt n index;
     n1 \<leftarrow> applyConfigurationEntry entry n;
     Some (if index = nPendingConfig n1 then n1\<lparr>nPendingConfig := 0\<rparr> else n1) }"

definition applyCommittedConfigurations :: "u64 \<Rightarrow> u64 \<Rightarrow> 's Node \<Rightarrow> 's Node option" where
  "applyCommittedConfigurations lo hi n =
     for_u64 (if lo \<le> nBaseIndex n then nBaseIndex n + 1 else lo) hi
       applyCommittedConfiguration n"

definition rebuildPendingConfig :: "'s Node \<Rightarrow> 's Node option" where
  "rebuildPendingConfig n =
     for_u64 (max (nCommit n + 1) (nBaseIndex n + 1)) (lastIndex n)
       (\<lambda>index n. do {
          entry \<leftarrow> entryAt n index;
          if eKind entry = EntryJointConfig \<or> eKind entry = EntryFinalConfig
          then ensurePeers (eOldVoters entry OR eNewVoters entry) (n\<lparr>nPendingConfig := index\<rparr>)
          else Some n })
       (n\<lparr>nPendingConfig := 0\<rparr>)"

definition validNewEntry :: "'s Node \<Rightarrow> Entry \<Rightarrow> bool" where
  "validNewEntry n entry =
     (if eKind entry = EntryNormal then
        eOldVoters entry = 0 \<and> eNewVoters entry = 0 \<and>
        (eOperation entry = CommandLegacy \<or>
         (eOperation entry = CommandPut \<or> eOperation entry = CommandDelete) \<and>
         eClientID entry \<noteq> 0 \<and> eRequestID entry \<noteq> 0)
      else if eKind entry = EntryNoop then
        eCommand entry = 0 \<and> eOldVoters entry = 0 \<and> eNewVoters entry = 0 \<and>
        eOperation entry = CommandLegacy
      else if eKind entry = EntryJointConfig then
        nPendingConfig n = 0 \<and> nVotersNew n = 0 \<and>
        eOldVoters entry = nVotersOld n \<and> eOldVoters entry \<noteq> 0 \<and> eNewVoters entry \<noteq> 0
      else if eKind entry = EntryFinalConfig then
        nPendingConfig n = 0 \<and> nVotersNew n \<noteq> 0 \<and>
        eOldVoters entry = nVotersNew n \<and> eNewVoters entry = 0
      else False)"

subsection \<open>Replication\<close>

definition appendToContext :: "u32 \<Rightarrow> u64 \<Rightarrow> 's Node \<Rightarrow> 's Node option" where
  "appendToContext p context n =
     (if nNext n p \<le> nBaseIndex n then
        send (zero_Message\<lparr>mType := MsgInstallSnapshot, mFrom := nID n, mTo := p, mTerm := nTerm n,
          mSnapshotIndex := sLastIndex (nSnapshot n), mSnapshotTerm := sLastTerm (nSnapshot n),
          mSnapshot := sState (nSnapshot n), mSnapshotOld := sOldVoters (nSnapshot n),
          mSnapshotNew := sNewVoters (nSnapshot n)\<rparr>) n
      else do {
        let clamped = (nNext n p > lastIndex n + 1);
        let next0 = (if clamped then lastIndex n + 1 else nNext n p);
        let n1 = (if clamped then n\<lparr>nNext := (nNext n)(p := next0)\<rparr> else n);
        let next1 = (if next0 = 0 then 1 else next0);
        let prev = next1 - 1;
        prevTerm \<leftarrow> termAtMust n1 prev;
        let m = zero_Message\<lparr>mType := MsgAppend, mFrom := nID n1, mTo := p, mTerm := nTerm n1,
          mLogIndex := prev, mLogTerm := prevTerm, mCommit := nCommit n1, mContext := context\<rparr>;
        if next1 < lastIndex n1 + 1 then do {
          e \<leftarrow> entryAt n1 next1;
          send (m\<lparr>mEntry := e, mHasEntry := True\<rparr>) n1 }
        else send m n1 })"

definition appendTo :: "u32 \<Rightarrow> 's Node \<Rightarrow> 's Node option" where
  "appendTo p n = appendToContext p 0 n"

definition broadcastAppend :: "'s Node \<Rightarrow> 's Node option" where
  "broadcastAppend n =
     foldM (\<lambda>p n. do { v \<leftarrow> isVoter n p; if v then appendTo p n else Some n }) (nPeers n) n"

definition appendLocal :: "'s StableStore \<Rightarrow> Entry \<Rightarrow> 's Node \<Rightarrow> (bool \<times> 's Node) option" where
  "appendLocal S entry n =
     (case AppendEntry S (lastIndex n + 1) entry (nStore n) of
        (Some err, st) \<Rightarrow> Some (False, failStorageWith err (n\<lparr>nStore := st\<rparr>))
      | (None, st) \<Rightarrow> do {
          let n1 = n\<lparr>nStore := st, nLog := nLog n @ [entry]\<rparr>;
          b \<leftarrow> nodeBit (nID n1);
          q \<leftarrow> quorumMask n1 b;
          if \<not> q then Some (True, n1)
          else do {
            let previous = nCommit n1;
            let n2 = n1\<lparr>nCommit := lastIndex n1\<rparr>;
            let (ok, n3) = persistHardState S
              \<lparr>hTerm = nTerm n2, hVotedFor = nVotedFor n2, hCommit = nCommit n2\<rparr> n2;
            if \<not> ok then Some (False, n3\<lparr>nCommit := previous\<rparr>)
            else do {
              n4 \<leftarrow> applyCommittedConfigurations (previous + 1) (nCommit n3) n3;
              Some (True, n4) } } })"

definition becomeLeader :: "'s StableStore \<Rightarrow> 's Node \<Rightarrow> 's Node option" where
  "becomeLeader S n = do {
     let n1 = n\<lparr>nState := Leader, nLeader := nID n, nElapsed := 0\<rparr>;
     (ok, n2) \<leftarrow> appendLocal S (zero_Entry\<lparr>eTerm := nTerm n1, eKind := EntryNoop\<rparr>) n1;
     if \<not> ok then Some n2
     else do {
       let hi = lastIndex n2 + 1;
       let n3 = fold (\<lambda>p n. n\<lparr>nNext := (nNext n)(p := hi), nMatch := (nMatch n)(p := 0)\<rparr>)
                  (nPeers n2) n2;
       broadcastAppend n3 } }"

subsection \<open>Elections\<close>

definition startElection :: "'s StableStore \<Rightarrow> 's Node \<Rightarrow> 's Node option" where
  "startElection S n = do {
     let nextTerm = nTerm n + 1;
     let (ok, n1) = persistHardState S
       \<lparr>hTerm = nextTerm, hVotedFor = nID n, hCommit = nCommit n\<rparr> n;
     if \<not> ok then Some n1
     else do {
       b \<leftarrow> nodeBit (nID n1);
       let n2 = n1\<lparr>nState := Candidate, nTerm := nextTerm, nVotedFor := nID n1, nElapsed := 0,
         nVoteMask := b, nPreVoteMask := 0\<rparr>;
       let hi = lastIndex n2;
       n3 \<leftarrow> foldM (\<lambda>p n. do {
           t \<leftarrow> termAtMust n hi;
           send (zero_Message\<lparr>mType := MsgRequestVote, mFrom := nID n, mTo := p, mTerm := nTerm n,
             mLogIndex := hi, mLogTerm := t\<rparr>) n }) (nPeers n2) n2;
       q \<leftarrow> quorumMask n3 (nVoteMask n3);
       if q then becomeLeader S n3 else Some n3 } }"

definition startPreVote :: "'s StableStore \<Rightarrow> 's Node \<Rightarrow> 's Node option" where
  "startPreVote S n = do {
     b \<leftarrow> nodeBit (nID n);
     let n1 = n\<lparr>nElapsed := 0, nPreVoteTerm := nTerm n + 1, nLeader := 0, nPreVoteMask := b\<rparr>;
     let hi = lastIndex n1;
     n2 \<leftarrow> foldM (\<lambda>p n. do {
         t \<leftarrow> termAtMust n hi;
         send (zero_Message\<lparr>mType := MsgPreVote, mFrom := nID n, mTo := p, mTerm := nPreVoteTerm n,
           mLogIndex := hi, mLogTerm := t\<rparr>) n }) (nPeers n1) n1;
     q \<leftarrow> quorumMask n2 (nPreVoteMask n2);
     if q then startElection S n2 else Some n2 }"

definition Tick :: "'s StableStore \<Rightarrow> 's Node \<Rightarrow> 's Node option" where
  "Tick S n =
     (if nFaulted n then Some n
      else let n1 = n\<lparr>nElapsed := nElapsed n + 1\<rparr> in
        if nState n1 = Leader then
          (if nElapsed n1 \<ge> 3 then broadcastAppend (n1\<lparr>nElapsed := 0\<rparr>) else Some n1)
        else if nElapsed n1 \<ge> nTimeout n1 then startPreVote S n1 else Some n1)"

definition upToDate :: "Message \<Rightarrow> 's Node \<Rightarrow> bool option" where
  "upToDate m n = do {
     t \<leftarrow> termAtMust n (lastIndex n);
     Some (mLogTerm m > t \<or> mLogTerm m = t \<and> mLogIndex m \<ge> lastIndex n) }"

definition onPreVote :: "Message \<Rightarrow> 's Node \<Rightarrow> 's Node option" where
  "onPreVote m n = do {
     utd \<leftarrow> upToDate m n;
     let leaderActive = (nLeader n \<noteq> 0 \<and> nElapsed n < nTimeout n);
     v \<leftarrow> isVoter n (mFrom m);
     let grant = (v \<and> mTerm m \<ge> nTerm n + 1 \<and> utd \<and> \<not> leaderActive);
     send (zero_Message\<lparr>mType := MsgPreVoteResponse, mFrom := nID n, mTo := mFrom m,
       mTerm := mTerm m, mReject := \<not> grant\<rparr>) n }"

definition onVote :: "'s StableStore \<Rightarrow> Message \<Rightarrow> 's Node \<Rightarrow> 's Node option" where
  "onVote S m n = do {
     utd \<leftarrow> upToDate m n;
     v \<leftarrow> isVoter n (mFrom m);
     let grant = (v \<and> mTerm m = nTerm n \<and> (nVotedFor n = 0 \<or> nVotedFor n = mFrom m) \<and> utd);
     let (ok, n1) = (if grant then
         (case persistHardState S
            \<lparr>hTerm = nTerm n, hVotedFor = mFrom m, hCommit = nCommit n\<rparr> n of
            (True, n') \<Rightarrow> (True, n'\<lparr>nVotedFor := mFrom m, nElapsed := 0\<rparr>)
          | (False, n') \<Rightarrow> (False, n'))
       else (True, n));
     if \<not> ok then Some n1
     else send (zero_Message\<lparr>mType := MsgRequestVoteResponse, mFrom := nID n1, mTo := mFrom m,
       mTerm := nTerm n1, mReject := \<not> grant\<rparr>) n1 }"

subsection \<open>Append handling\<close>

definition onAppendEntry ::
  "'s StableStore \<Rightarrow> Message \<Rightarrow> 's Node \<Rightarrow> ('s Node + 's Node) option" where
  "onAppendEntry S m n = do {
     let at = mLogIndex m + 1;
     n1 \<leftarrow> (case offset n at of
              None \<Rightarrow> Some n
            | Some off \<Rightarrow> do {
                e \<leftarrow> go_index (nLog n) (unat off);
                if eTerm e \<noteq> eTerm (mEntry m)
                then rebuildPendingConfig (n\<lparr>nLog := take (unat off) (nLog n)\<rparr>)
                else Some n });
     if at = lastIndex n1 + 1 then
       (case AppendEntry S at (mEntry m) (nStore n1) of
          (Some err, st) \<Rightarrow> Some (Inl (failStorageWith err (n1\<lparr>nStore := st\<rparr>)))
        | (None, st) \<Rightarrow>
            let n2 = n1\<lparr>nStore := st, nLog := nLog n1 @ [mEntry m]\<rparr> in
            if eKind (mEntry m) = EntryJointConfig \<or> eKind (mEntry m) = EntryFinalConfig
            then map_option Inr (ensurePeers (eOldVoters (mEntry m) OR eNewVoters (mEntry m))
                   (n2\<lparr>nPendingConfig := at\<rparr>))
            else Some (Inr n2))
     else Some (Inr n1) }"

definition onAppendCommit ::
  "'s StableStore \<Rightarrow> Message \<Rightarrow> 's Node \<Rightarrow> ('s Node + 's Node) option" where
  "onAppendCommit S m n =
     (if mCommit m > nCommit n \<and>
         (mLogIndex m > nCommit n \<or> mHasEntry m \<and> mLogIndex m + 1 > nCommit n) then do {
        let previous = nCommit n;
        let matched = (if mHasEntry m then mLogIndex m + 1 else mLogIndex m);
        let commit = min (mCommit m) matched;
        let (ok, n1) = persistHardState S
          \<lparr>hTerm = nTerm n, hVotedFor = nVotedFor n, hCommit = commit\<rparr> n;
        if \<not> ok then Some (Inl n1)
        else map_option Inr (applyCommittedConfigurations (previous + 1) commit
               (n1\<lparr>nCommit := commit\<rparr>)) }
      else Some (Inr n))"

definition appendReply :: "Message \<Rightarrow> bool \<Rightarrow> u64 \<Rightarrow> 's Node \<Rightarrow> 's Node option" where
  "appendReply m reject match n =
     send (zero_Message\<lparr>mType := MsgAppendResponse, mFrom := nID n, mTo := mFrom m,
       mTerm := nTerm n, mReject := reject, mMatch := match, mContext := mContext m\<rparr>) n"

definition onAppend :: "'s StableStore \<Rightarrow> Message \<Rightarrow> 's Node \<Rightarrow> 's Node option" where
  "onAppend S m n = do {
     (prevTerm, present) \<leftarrow> termAt n (mLogIndex m);
     let reject0 = (mTerm m < nTerm n \<or> \<not> present \<or> prevTerm \<noteq> mLogTerm m);
     let reject = (reject0 \<or>
       mHasEntry m \<and> mLogIndex m + 1 = lastIndex n + 1 \<and> \<not> validNewEntry n (mEntry m));
     if reject then appendReply m True (lastIndex n) n
     else do {
       let n1 = n\<lparr>nState := Follower, nLeader := mFrom m, nElapsed := 0\<rparr>;
       r1 \<leftarrow> (if mHasEntry m then onAppendEntry S m n1 else Some (Inr n1));
       case r1 of
         Inl n2 \<Rightarrow> Some n2
       | Inr n2 \<Rightarrow> do {
           r2 \<leftarrow> onAppendCommit S m n2;
           case r2 of
             Inl n3 \<Rightarrow> Some n3
           | Inr n3 \<Rightarrow>
               appendReply m False (if mHasEntry m then mLogIndex m + 1 else mLogIndex m) n3 } } }"

definition ackedMask :: "'s Node \<Rightarrow> u64 \<Rightarrow> u64 option" where
  "ackedMask n index = do {
     b \<leftarrow> nodeBit (nID n);
     foldM (\<lambda>p acked. if nMatch n p \<ge> index then do { c \<leftarrow> nodeBit p; Some (acked OR c) }
                      else Some acked) (nPeers n) b }"

function commitScan :: "'s Node \<Rightarrow> u64 \<Rightarrow> u64 option option" where
  "commitScan n index =
     (if index > nCommit n then do {
        t \<leftarrow> termAtMust n index;
        if t \<noteq> nTerm n then commitScan n (index - 1)
        else do {
          acked \<leftarrow> ackedMask n index;
          c \<leftarrow> canCommitIndex n index acked;
          if c then Some (Some index) else commitScan n (index - 1) } }
      else Some None)"
  by pat_completeness auto
termination
proof (relation "measure (\<lambda>(n, index). unat index)")
  fix n :: "'s Node" and index :: u64
  assume "index > nCommit n"
  then have "0 < unat index" by (simp add: word_less_nat_alt)
  then have "unat (index - 1) < unat index" by (simp add: unat_minus_one_u64)
  then show "((n, index - 1), n, index) \<in> measure (\<lambda>(n, index). unat index)"
    and "((n, index - 1), n, index) \<in> measure (\<lambda>(n, index). unat index)"
    by simp_all
qed auto

declare commitScan.simps [simp del]

definition advanceCommit :: "'s StableStore \<Rightarrow> 's Node \<Rightarrow> ('s Node + 's Node) option" where
  "advanceCommit S n = do {
     found \<leftarrow> commitScan n (lastIndex n);
     case found of
       None \<Rightarrow> Some (Inr n)
     | Some index \<Rightarrow> do {
         let (ok, n1) = persistHardState S
           \<lparr>hTerm = nTerm n, hVotedFor = nVotedFor n, hCommit = index\<rparr> n;
         if \<not> ok then Some (Inl n1)
         else do {
           let previous = nCommit n1;
           n2 \<leftarrow> applyCommittedConfigurations (previous + 1) index (n1\<lparr>nCommit := index\<rparr>);
           if nState n2 = Leader then map_option Inr (broadcastAppend n2) else Some (Inr n2) } } }"

definition readAck :: "Message \<Rightarrow> 's Node \<Rightarrow> 's Node option" where
  "readAck m n =
     (if nState n = Leader \<and> mTerm m = nTerm n \<and> \<not> mReject m \<and> mContext m \<noteq> 0 \<and>
         mContext m = nReadContext n then do {
        v \<leftarrow> isVoter n (mFrom m);
        if v then do {
          b \<leftarrow> nodeBit (mFrom m);
          let n1 = n\<lparr>nReadAckMask := nReadAckMask n OR b\<rparr>;
          q \<leftarrow> quorumMask n1 (nReadAckMask n1);
          Some (if q then n1\<lparr>nReadIndex := nCommit n1, nReadReady := True\<rparr> else n1) }
        else Some n }
      else Some n)"

definition onAppendResponse :: "'s StableStore \<Rightarrow> Message \<Rightarrow> 's Node \<Rightarrow> 's Node option" where
  "onAppendResponse S m n0 = do {
     n \<leftarrow> readAck m n0;
     if nState n \<noteq> Leader \<or> mTerm m \<noteq> nTerm n \<or> mMatch m \<ge> lastIndex n + 1 then Some n
     else if mReject m then
       appendTo (mFrom m)
         (if nNext n (mFrom m) > 1
          then n\<lparr>nNext := (nNext n)(mFrom m := nNext n (mFrom m) - 1)\<rparr> else n)
     else do {
       let n1 = n\<lparr>nMatch := (nMatch n)(mFrom m := mMatch m),
                  nNext := (nNext n)(mFrom m := mMatch m + 1)\<rparr>;
       r \<leftarrow> advanceCommit S n1;
       case r of
         Inl n2 \<Rightarrow> Some n2
       | Inr n2 \<Rightarrow>
           if nState n2 \<noteq> Leader then Some n2
           else if nNext n2 (mFrom m) < lastIndex n2 + 1 then appendTo (mFrom m) n2
           else Some n2 } }"

subsection \<open>Snapshots\<close>

definition Compact ::
  "'s StableStore \<Rightarrow> u64 \<Rightarrow> bytes \<Rightarrow> 's Node \<Rightarrow> (bool \<times> 's Node) option" where
  "Compact S index state n =
     (if index \<le> nBaseIndex n \<or> index > nApplied n then Some (False, n)
      else do {
        (term, ok) \<leftarrow> termAt n index;
        if \<not> ok then Some (False, n)
        else case asSnapshotStore S of
          None \<Rightarrow> Some (False, failStorage n)
        | Some SS \<Rightarrow>
            let snapshot = \<lparr>sLastIndex = index, sLastTerm = term, sState = state,
                  sOldVoters = nVotersOld n, sNewVoters = nVotersNew n\<rparr> in
            (case SaveSnapshot SS snapshot (nStore n) of
               (Some err, st) \<Rightarrow> Some (False, failStorageWith err (n\<lparr>nStore := st\<rparr>))
             | (None, st) \<Rightarrow>
                 (case CompactLog SS index st of
                    (Some err, st') \<Rightarrow> Some (False, failStorageWith err (n\<lparr>nStore := st'\<rparr>))
                  | (None, st') \<Rightarrow>
                      let off = (case offset n index of None \<Rightarrow> 0 | Some off \<Rightarrow> off) in
                      Some (True, n\<lparr>nStore := st', nLog := drop (unat off) (nLog n),
                        nBaseIndex := index, nBaseTerm := term, nSnapshot := snapshot\<rparr>))) })"

definition installSnapshot ::
  "'s StableStore \<Rightarrow> Message \<Rightarrow> 's Node \<Rightarrow> ('s Node + 's Node) option" where
  "installSnapshot S m n =
     (case asSnapshotStore S of
        None \<Rightarrow> Some (Inl (failStorage n))
      | Some SS \<Rightarrow>
          let snapshot = \<lparr>sLastIndex = mSnapshotIndex m, sLastTerm = mSnapshotTerm m,
                sState = mSnapshot m, sOldVoters = mSnapshotOld m, sNewVoters = mSnapshotNew m\<rparr> in
          (case SaveSnapshot SS snapshot (nStore n) of
             (Some err, st) \<Rightarrow> Some (Inl (failStorageWith err (n\<lparr>nStore := st\<rparr>)))
           | (None, st) \<Rightarrow>
               (case CompactLog SS (sLastIndex snapshot) st of
                  (Some err, st') \<Rightarrow> Some (Inl (failStorageWith err (n\<lparr>nStore := st'\<rparr>)))
                | (None, st') \<Rightarrow> do {
                    (term, present) \<leftarrow> termAt n (sLastIndex snapshot);
                    let log = (if present \<and> term = sLastTerm snapshot
                      then drop (unat (case offset n (sLastIndex snapshot) of
                                         None \<Rightarrow> 0 | Some off \<Rightarrow> off)) (nLog n)
                      else [zero_Entry\<lparr>eTerm := sLastTerm snapshot\<rparr>]);
                    Some (Inr (n\<lparr>nStore := st', nLog := log,
                      nBaseIndex := sLastIndex snapshot, nBaseTerm := sLastTerm snapshot,
                      nSnapshot := snapshot,
                      nVotersOld := sOldVoters snapshot, nVotersNew := sNewVoters snapshot,
                      nCommit := max (nCommit n) (sLastIndex snapshot),
                      nApplied := max (nApplied n) (sLastIndex snapshot)\<rparr>)) })))"

definition onInstallSnapshot :: "'s StableStore \<Rightarrow> Message \<Rightarrow> 's Node \<Rightarrow> 's Node option" where
  "onInstallSnapshot S m n = do {
     let reject = (mTerm m < nTerm n \<or> mSnapshotIndex m < nBaseIndex n \<or> mSnapshotOld m = 0 \<or>
       mSnapshotIndex m = nBaseIndex n \<and> mSnapshotTerm m \<noteq> nBaseTerm n);
     r \<leftarrow> (if \<not> reject \<and> mSnapshotIndex m > nBaseIndex n then installSnapshot S m n
           else Some (Inr n));
     case r of
       Inl n1 \<Rightarrow> Some n1
     | Inr n1 \<Rightarrow>
         let n2 = (if \<not> reject then n1\<lparr>nState := Follower, nLeader := mFrom m, nElapsed := 0\<rparr>
                   else n1) in
         send (zero_Message\<lparr>mType := MsgInstallSnapshotResponse, mFrom := nID n2,
           mTo := mFrom m, mTerm := nTerm n2, mReject := reject, mMatch := nBaseIndex n2\<rparr>) n2 }"

definition onInstallSnapshotResponse :: "Message \<Rightarrow> 's Node \<Rightarrow> 's Node option" where
  "onInstallSnapshotResponse m n =
     (if nState n \<noteq> Leader \<or> mTerm m \<noteq> nTerm n \<or> mReject m then Some n
      else do {
        v \<leftarrow> isVoter n (mFrom m);
        if \<not> v then Some n
        else
          let n1 = (if mMatch m > nMatch n (mFrom m)
                    then n\<lparr>nMatch := (nMatch n)(mFrom m := mMatch m),
                           nNext := (nNext n)(mFrom m := mMatch m + 1)\<rparr> else n) in
          if nNext n1 (mFrom m) \<le> lastIndex n1 then appendTo (mFrom m) n1 else Some n1 })"

subsection \<open>Message dispatch\<close>

definition stepDown :: "'s StableStore \<Rightarrow> Message \<Rightarrow> 's Node \<Rightarrow> bool \<times> 's Node" where
  "stepDown S m n =
     (let isPreVote = (mType m = MsgPreVote \<or> mType m = MsgPreVoteResponse) in
      if \<not> isPreVote \<and> mTerm m > nTerm n then
        (case persistHardState S \<lparr>hTerm = mTerm m, hVotedFor = 0, hCommit = nCommit n\<rparr> n of
           (False, n1) \<Rightarrow> (False, n1)
         | (True, n1) \<Rightarrow> (True, n1\<lparr>nState := Follower, nTerm := mTerm m, nVotedFor := 0,
             nLeader := 0, nReadReady := False\<rparr>))
      else (True, n))"

definition onPreVoteResponse :: "'s StableStore \<Rightarrow> Message \<Rightarrow> 's Node \<Rightarrow> 's Node option" where
  "onPreVoteResponse S m n =
     (if nState n \<noteq> Leader then do {
        v \<leftarrow> isVoter n (mFrom m);
        if v \<and> mTerm m = nTerm n + 1 \<and> mTerm m = nPreVoteTerm n \<and> \<not> mReject m then do {
          b \<leftarrow> nodeBit (mFrom m);
          let n1 = n\<lparr>nPreVoteMask := nPreVoteMask n OR b\<rparr>;
          q \<leftarrow> quorumMask n1 (nPreVoteMask n1);
          if q then startElection S n1 else Some n1 }
        else Some n }
      else Some n)"

definition onVoteResponse :: "'s StableStore \<Rightarrow> Message \<Rightarrow> 's Node \<Rightarrow> 's Node option" where
  "onVoteResponse S m n =
     (if nState n = Candidate then do {
        v \<leftarrow> isVoter n (mFrom m);
        if v \<and> mTerm m = nTerm n \<and> \<not> mReject m then do {
          b \<leftarrow> nodeBit (mFrom m);
          let n1 = n\<lparr>nVoteMask := nVoteMask n OR b\<rparr>;
          q \<leftarrow> quorumMask n1 (nVoteMask n1);
          if q then becomeLeader S n1 else Some n1 }
        else Some n }
      else Some n)"

definition Step :: "'s StableStore \<Rightarrow> Message \<Rightarrow> 's Node \<Rightarrow> 's Node option" where
  "Step S m n0 =
     (if nFaulted n0 then Some n0
      else case stepDown S m n0 of
        (False, n) \<Rightarrow> Some n
      | (True, n) \<Rightarrow>
          if mType m = MsgPreVote then onPreVote m n
          else if mType m = MsgPreVoteResponse then onPreVoteResponse S m n
          else if mType m = MsgRequestVote then onVote S m n
          else if mType m = MsgRequestVoteResponse then onVoteResponse S m n
          else if mType m = MsgAppend then onAppend S m n
          else if mType m = MsgAppendResponse then onAppendResponse S m n
          else if mType m = MsgInstallSnapshot then onInstallSnapshot S m n
          else if mType m = MsgInstallSnapshotResponse then onInstallSnapshotResponse m n
          else if mType m = MsgTimeoutNow then
            (if nState n = Follower \<and> mTerm m = nTerm n \<and> mFrom m = nLeader n
             then startElection S n else Some n)
          else Some n)"

subsection \<open>Client operations\<close>

definition StartReadIndex :: "u64 \<Rightarrow> 's Node \<Rightarrow> (bool \<times> 's Node) option" where
  "StartReadIndex context n =
     (if nState n \<noteq> Leader \<or> nFaulted n \<or> context = 0 \<or> nCommit n = 0 then Some (False, n)
      else do {
        t \<leftarrow> termAtMust n (nCommit n);
        b \<leftarrow> nodeBit (nID n);
        blocked \<leftarrow> (if t \<noteq> nTerm n then map_option Not (quorumMask n b) else Some False);
        if blocked then Some (False, n)
        else do {
          let n1 = n\<lparr>nReadContext := context, nReadAckMask := b\<rparr>;
          ready \<leftarrow> quorumMask n1 (nReadAckMask n1);
          let n2 = (if ready then n1\<lparr>nReadReady := ready, nReadIndex := nCommit n1\<rparr>
                    else n1\<lparr>nReadReady := ready\<rparr>);
          n3 \<leftarrow> foldM (\<lambda>p n. appendToContext p context n) (nPeers n2) n2;
          Some (True, n3) } })"

definition ReadIndex :: "u64 \<Rightarrow> 's Node \<Rightarrow> u64 \<times> bool" where
  "ReadIndex context n =
     (if nState n \<noteq> Leader \<or> context \<noteq> nReadContext n \<or> \<not> nReadReady n then (0, False)
      else (nReadIndex n, True))"

definition TransferLeadership :: "u32 \<Rightarrow> 's Node \<Rightarrow> (bool \<times> 's Node) option" where
  "TransferLeadership target n =
     (if nState n \<noteq> Leader \<or> target = nID n then Some (False, n)
      else do {
        v \<leftarrow> isVoter n target;
        if \<not> v then Some (False, n)
        else if nMatch n target < lastIndex n then map_option (Pair False) (appendTo target n)
        else map_option (Pair True)
          (send (zero_Message\<lparr>mType := MsgTimeoutNow, mFrom := nID n, mTo := target,
             mTerm := nTerm n\<rparr>) n) })"

definition proposeEntry :: "'s StableStore \<Rightarrow> Entry \<Rightarrow> 's Node \<Rightarrow> (bool \<times> 's Node) option" where
  "proposeEntry S entry n = do {
     (ok, n1) \<leftarrow> appendLocal S entry n;
     if \<not> ok then Some (False, n1) else map_option (Pair True) (broadcastAppend n1) }"

definition Propose :: "'s StableStore \<Rightarrow> u64 \<Rightarrow> 's Node \<Rightarrow> (bool \<times> 's Node) option" where
  "Propose S command n =
     (if nState n \<noteq> Leader \<or> nFaulted n then Some (False, n)
      else proposeEntry S (zero_Entry\<lparr>eTerm := nTerm n, eCommand := command\<rparr>) n)"

definition ProposeRequest ::
  "'s StableStore \<Rightarrow> CommandOp \<Rightarrow> u64 \<Rightarrow> u64 \<Rightarrow> u64 \<Rightarrow> u64 \<Rightarrow> 's Node \<Rightarrow> (bool \<times> 's Node) option" where
  "ProposeRequest S operation clientID requestID key value n =
     (if nState n \<noteq> Leader \<or> nFaulted n \<or> clientID = 0 \<or> requestID = 0 \<or>
         operation \<noteq> CommandPut \<and> operation \<noteq> CommandDelete then Some (False, n)
      else proposeEntry S (zero_Entry\<lparr>eTerm := nTerm n, eOperation := operation,
        eClientID := clientID, eRequestID := requestID, eKey := key, eValue := value\<rparr>) n)"

definition ProposeJoint :: "'s StableStore \<Rightarrow> u32 list \<Rightarrow> 's Node \<Rightarrow> (bool \<times> 's Node) option" where
  "ProposeJoint S newVoters n = do {
     (newMask, ok) \<leftarrow> voterMask newVoters;
     if \<not> ok \<or> nState n \<noteq> Leader \<or> nFaulted n \<or> nVotersNew n \<noteq> 0 \<or> nPendingConfig n \<noteq> 0
     then Some (False, n)
     else do {
       n1 \<leftarrow> ensurePeers newMask n;
       (ok', n2) \<leftarrow> appendLocal S (zero_Entry\<lparr>eTerm := nTerm n1, eKind := EntryJointConfig,
         eOldVoters := nVotersOld n1, eNewVoters := newMask\<rparr>) n1;
       if \<not> ok' then Some (False, n2)
       else map_option (Pair True) (broadcastAppend (n2\<lparr>nPendingConfig := lastIndex n2\<rparr>)) } }"

definition ProposeFinal :: "'s StableStore \<Rightarrow> 's Node \<Rightarrow> (bool \<times> 's Node) option" where
  "ProposeFinal S n =
     (if nState n \<noteq> Leader \<or> nFaulted n \<or> nVotersNew n = 0 \<or> nPendingConfig n \<noteq> 0
      then Some (False, n)
      else do {
        (ok, n1) \<leftarrow> appendLocal S (zero_Entry\<lparr>eTerm := nTerm n, eKind := EntryFinalConfig,
          eOldVoters := nVotersNew n\<rparr>) n;
        if \<not> ok then Some (False, n1)
        else map_option (Pair True) (broadcastAppend (n1\<lparr>nPendingConfig := lastIndex n1\<rparr>)) })"

function ApplyEntries :: "Entry list \<Rightarrow> 's Node \<Rightarrow> (Entry list \<times> 's Node) option" where
  "ApplyEntries dst n =
     (if nApplied n < nCommit n then do {
        let n1 = n\<lparr>nApplied := nApplied n + 1\<rparr>;
        entry \<leftarrow> entryAt n1 (nApplied n1);
        ApplyEntries (if eKind entry = EntryNormal then dst @ [entry] else dst) n1 }
      else Some (dst, n))"
  by pat_completeness auto
termination
proof (relation "measure (\<lambda>(dst, n). unat (nCommit n) - unat (nApplied n))")
  fix dst :: "Entry list" and n :: "'s Node" and n1 entry
  assume lt: "nApplied n < nCommit n" and n1: "n1 = n\<lparr>nApplied := nApplied n + 1\<rparr>"
  then have "unat (nApplied n + 1) = unat (nApplied n) + 1"
    using u64_max_bound [of "nCommit n"]
    by (intro unat_plus_one) (simp add: word_less_nat_alt del: u64_max_bound)
  with lt n1 show "((if eKind entry = EntryNormal then dst @ [entry] else dst, n1), dst, n)
      \<in> measure (\<lambda>(dst, n). unat (nCommit n) - unat (nApplied n))"
    by (simp add: word_less_nat_alt)
qed auto

declare ApplyEntries.simps [simp del]

definition Apply :: "'s Node \<Rightarrow> (u64 list \<times> 's Node) option" where
  "Apply n = do { (entries, n1) \<leftarrow> ApplyEntries [] n; Some (map eCommand entries, n1) }"

subsection \<open>Recovery\<close>

type_synonym 's restoring = "'s Node + (u64 \<times> u64 \<times> u64 \<times> 's Node)"

definition restoreVoters ::
  "u64 \<Rightarrow> u64 \<Rightarrow> Entry \<Rightarrow> u64 \<times> u64 \<times> u64 \<Rightarrow> (u64 \<times> u64 \<times> u64) option" where
  "restoreVoters index commit entry = (\<lambda>(oldVoters, newVoters, pending).
     if eKind entry = EntryNormal then
       (if eOldVoters entry \<noteq> 0 \<or> eNewVoters entry \<noteq> 0 then None
        else Some (oldVoters, newVoters, pending))
     else if eKind entry = EntryNoop then
       (if eCommand entry \<noteq> 0 \<or> eOldVoters entry \<noteq> 0 \<or> eNewVoters entry \<noteq> 0 \<or>
           eOperation entry \<noteq> CommandLegacy then None
        else Some (oldVoters, newVoters, pending))
     else if eKind entry = EntryJointConfig then
       (if pending \<noteq> 0 \<or> newVoters \<noteq> 0 \<or> eOldVoters entry \<noteq> oldVoters \<or>
           eOldVoters entry = 0 \<or> eNewVoters entry = 0 then None
        else if index \<le> commit then Some (eOldVoters entry, eNewVoters entry, pending)
        else Some (oldVoters, newVoters, index))
     else if eKind entry = EntryFinalConfig then
       (if pending \<noteq> 0 \<or> newVoters = 0 \<or> eOldVoters entry \<noteq> newVoters \<or>
           eNewVoters entry \<noteq> 0 then None
        else if index \<le> commit then Some (eOldVoters entry, 0, pending)
        else Some (oldVoters, newVoters, index))
     else None)"

definition restoreConfigurationEntry :: "u64 \<Rightarrow> 's restoring \<Rightarrow> 's restoring option" where
  "restoreConfigurationEntry index acc =
     (case acc of
        Inl n \<Rightarrow> Some (Inl n)
      | Inr (oldVoters, newVoters, pending, n) \<Rightarrow> do {
          entry \<leftarrow> entryAt n index;
          case restoreVoters index (nCommit n) entry (oldVoters, newVoters, pending) of
            None \<Rightarrow> Some (Inl n)
          | Some (oldVoters', newVoters', pending') \<Rightarrow> do {
              n' \<leftarrow> ensurePeers (eOldVoters entry OR eNewVoters entry) n;
              Some (Inr (oldVoters', newVoters', pending', n')) } })"

definition restoreConfigurationState :: "'s Node \<Rightarrow> (bool \<times> 's Node) option" where
  "restoreConfigurationState n = do {
     r \<leftarrow> for_u64 (nBaseIndex n + 1) (lastIndex n) restoreConfigurationEntry
           (Inr (nVotersOld n, nVotersNew n, 0, n));
     case r of
       Inl n1 \<Rightarrow> Some (False, n1)
     | Inr (oldVoters, newVoters, pending, n1) \<Rightarrow>
         Some (True, n1\<lparr>nVotersOld := oldVoters, nVotersNew := newVoters,
           nPendingConfig := pending\<rparr>) }"

definition finishRecovery :: "'s Node \<Rightarrow> 's Node option" where
  "finishRecovery n =
     (if nCommit n > lastIndex n then Some (failStorage n)
      else do {
        (ok, n1) \<leftarrow> restoreConfigurationState n;
        Some (if \<not> ok then failStorage n1 else n1) })"

definition NewRecoveredNode ::
  "u32 \<Rightarrow> u32 list \<Rightarrow> u64 \<Rightarrow> 's \<Rightarrow> HardState \<Rightarrow> Entry list \<Rightarrow> 's Node option" where
  "NewRecoveredNode nid peers electionTimeout store hard log = do {
     n \<leftarrow> NewNodeWithStore nid peers electionTimeout store;
     let n1 = n\<lparr>nTerm := hTerm hard, nVotedFor := hVotedFor hard, nCommit := hCommit hard\<rparr>;
     let n2 = (if length log > 0 then n1\<lparr>nLog := log\<rparr> else n1);
     let n3 = (if length (nLog n2) = 0 then n2\<lparr>nLog := [zero_Entry]\<rparr> else n2);
     finishRecovery n3 }"

definition NewRecoveredNodeWithSnapshot ::
  "u32 \<Rightarrow> u32 list \<Rightarrow> u64 \<Rightarrow> 's \<Rightarrow> HardState \<Rightarrow> Snapshot \<Rightarrow> Entry list \<Rightarrow> 's Node option" where
  "NewRecoveredNodeWithSnapshot nid peers electionTimeout store hard snapshot suffix = do {
     n \<leftarrow> NewNodeWithStore nid peers electionTimeout store;
     let n1 = n\<lparr>nTerm := hTerm hard, nVotedFor := hVotedFor hard,
       nBaseIndex := sLastIndex snapshot, nBaseTerm := sLastTerm snapshot,
       nSnapshot := snapshot,
       nVotersOld := sOldVoters snapshot, nVotersNew := sNewVoters snapshot\<rparr>;
     if nVotersOld n1 = 0 then Some (failStorage n1)
     else do {
       n2 \<leftarrow> ensurePeers (nVotersOld n1 OR nVotersNew n1) n1;
       finishRecovery (n2\<lparr>nLog := zero_Entry\<lparr>eTerm := sLastTerm snapshot\<rparr> # suffix,
         nCommit := max (hCommit hard) (sLastIndex snapshot),
         nApplied := sLastIndex snapshot\<rparr>) } }"

end
