(* ===== verification/Wal.thy ===== *)
theory Wal
  imports Bytes
begin

text \<open>
  The checksummed write-ahead log: \<^verbatim>\<open>storage/storage.go\<close> (the durable entry),
  \<^verbatim>\<open>storage/wal/format.go\<close> (the 112-byte record), \<^verbatim>\<open>storage/wal/wal.go\<close> (recovery and the
  append log) and \<^verbatim>\<open>storage/wal/device.go\<close> (the device interface and the in-memory device with
  its crash model). The locale \<open>wal_device\<close> is the contract \<^verbatim>\<open>device.go\<close> documents for a device;
  it is interpreted on \<open>MemoryDevice\<close>, and the log's durability lemmas are proved inside it.
\<close>

subsection \<open>storage/storage.go and storage/wal/format.go\<close>

record StorageEntry =
  wIndex :: u64
  wTerm :: u64
  wCommand :: u64
  wKind :: u8
  wOldVoters :: u64
  wNewVoters :: u64
  wOperation :: u8
  wClientID :: u64
  wRequestID :: u64
  wKey :: u64
  wValue :: u64

definition zero_StorageEntry :: StorageEntry where
  "zero_StorageEntry = \<lparr>wIndex = 0, wTerm = 0, wCommand = 0, wKind = 0, wOldVoters = 0,
     wNewVoters = 0, wOperation = 0, wClientID = 0, wRequestID = 0, wKey = 0, wValue = 0\<rparr>"

record Record =
  rSequence :: u64
  rEntry :: StorageEntry

definition RecordSize :: nat where "RecordSize = 112"

definition wal_version :: u16 where "wal_version = 3"

definition wal_magic :: bytes where
  "wal_magic = [0x48, 0x59, 0x50, 0x57, 0x41, 0x4C, 0x30, 0x33]"

definition encode_body :: "Record \<Rightarrow> bytes" where
  "encode_body r =
     wal_magic @ PutUint16 wal_version @ PutUint16 0 @
     PutUint64 (rSequence r) @ PutUint64 (wIndex (rEntry r)) @ PutUint64 (wTerm (rEntry r)) @
     PutUint64 (wCommand (rEntry r)) @ PutUint16 (ucast (wKind (rEntry r))) @ replicate 6 0 @
     PutUint64 (wOldVoters (rEntry r)) @ PutUint64 (wNewVoters (rEntry r)) @
     PutUint16 (ucast (wOperation (rEntry r))) @ replicate 2 0 @
     PutUint64 (wClientID (rEntry r)) @ PutUint64 (wRequestID (rEntry r)) @
     PutUint64 (wKey (rEntry r)) @ PutUint64 (wValue (rEntry r)) @ replicate 4 0"

definition Encode :: "Record \<Rightarrow> bytes" where
  "Encode r = encode_body r @ PutUint32 (Checksum (encode_body r))"

definition Decode :: "bytes \<Rightarrow> error + Record" where
  "Decode src =
     (if length src \<noteq> RecordSize \<or> go_slice 0 8 src \<noteq> wal_magic \<or>
         Uint16 (go_slice 8 10 src) \<noteq> wal_version then Inl ErrFormat
      else if Checksum (go_slice 0 108 src) \<noteq> Uint32 (go_slice 108 112 src) then Inl ErrChecksum
      else Inr \<lparr>rSequence = Uint64 (go_slice 12 20 src),
        rEntry = \<lparr>wIndex = Uint64 (go_slice 20 28 src), wTerm = Uint64 (go_slice 28 36 src),
          wCommand = Uint64 (go_slice 36 44 src), wKind = ucast (Uint16 (go_slice 44 46 src)),
          wOldVoters = Uint64 (go_slice 52 60 src), wNewVoters = Uint64 (go_slice 60 68 src),
          wOperation = ucast (Uint16 (go_slice 68 70 src)),
          wClientID = Uint64 (go_slice 72 80 src), wRequestID = Uint64 (go_slice 80 88 src),
          wKey = Uint64 (go_slice 88 96 src), wValue = Uint64 (go_slice 96 104 src)\<rparr>\<rparr>)"

subsection \<open>storage/wal/wal.go: Recover\<close>

fun recover_loop :: "bytes \<Rightarrow> nat \<Rightarrow> nat \<Rightarrow> Record list \<Rightarrow> Record list \<times> nat \<times> error option" where
  "recover_loop img i 0 records = (records, i * RecordSize, None)"
| "recover_loop img i (Suc left) records =
     (case Decode (go_slice (i * RecordSize) ((i + 1) * RecordSize) img) of
        Inl err \<Rightarrow> ([], i * RecordSize, Some err)
      | Inr rec \<Rightarrow>
          if rSequence rec \<noteq> of_nat (i + 1) then ([], i * RecordSize, Some ErrSequence)
          else recover_loop img (i + 1) left (records @ [rec]))"

definition Recover :: "bytes \<Rightarrow> Record list \<times> nat \<times> error option" where
  "Recover img = recover_loop img 0 (length img div RecordSize) []"

subsection \<open>storage/wal/device.go\<close>

record 'd Device =
  dAppend :: "bytes \<Rightarrow> 'd \<Rightarrow> error option \<times> 'd"
  dSync :: "'d \<Rightarrow> error option \<times> 'd"
  dDurableBytes :: "'d \<Rightarrow> bytes \<times> 'd"
  dTruncateDurable :: "int \<Rightarrow> 'd \<Rightarrow> error option \<times> 'd"

record MemoryDevice =
  md_durable :: bytes
  md_pending :: bytes

definition NewMemoryDevice :: "bytes \<Rightarrow> MemoryDevice" where
  "NewMemoryDevice durable = \<lparr>md_durable = durable, md_pending = []\<rparr>"

definition md_Append :: "bytes \<Rightarrow> MemoryDevice \<Rightarrow> error option \<times> MemoryDevice" where
  "md_Append p d = (None, d\<lparr>md_pending := md_pending d @ p\<rparr>)"

definition md_Sync :: "MemoryDevice \<Rightarrow> error option \<times> MemoryDevice" where
  "md_Sync d = (None, d\<lparr>md_durable := md_durable d @ md_pending d, md_pending := []\<rparr>)"

definition md_DurableBytes :: "MemoryDevice \<Rightarrow> bytes \<times> MemoryDevice" where
  "md_DurableBytes d = (md_durable d, d)"

definition md_TruncateDurable :: "int \<Rightarrow> MemoryDevice \<Rightarrow> error option \<times> MemoryDevice" where
  "md_TruncateDurable sz d =
     (if sz < 0 \<or> sz > int (length (md_durable d)) then (Some ErrInvalidTear, d)
      else (None, d\<lparr>md_durable := take (nat sz) (md_durable d)\<rparr>))"

definition md_Crash :: "int \<Rightarrow> MemoryDevice \<Rightarrow> error + MemoryDevice" where
  "md_Crash tornBytes d =
     (if tornBytes < 0 \<or> tornBytes > int (length (md_pending d)) then Inl ErrInvalidTear
      else Inr (NewMemoryDevice (md_durable d @ take (nat tornBytes) (md_pending d))))"

definition memory_device :: "MemoryDevice Device" where
  "memory_device = \<lparr>dAppend = md_Append, dSync = md_Sync, dDurableBytes = md_DurableBytes,
     dTruncateDurable = md_TruncateDurable\<rparr>"

subsection \<open>storage/wal/wal.go: the log\<close>

record 'd Log =
  lDevice :: 'd
  lNextSeq :: u64

definition wal_Open :: "'d Device \<Rightarrow> 'd \<Rightarrow> error + ('d Log \<times> Record list)" where
  "wal_Open D device0 =
     (let (img, device1) = dDurableBytes D device0;
          (records, validBytes, err) = Recover img in
      case err of
        Some e \<Rightarrow> Inl e
      | None \<Rightarrow>
          let (img2, device2) = dDurableBytes D device1;
              (err2, device3) = (if validBytes \<noteq> length img2
                then dTruncateDurable D (int validBytes) device2 else (None, device2)) in
          (case err2 of
             Some e \<Rightarrow> Inl e
           | None \<Rightarrow>
               let nextSeq = (if length records > 0 then rSequence (last records) + 1 else 1) in
               Inr (\<lparr>lDevice = device3, lNextSeq = nextSeq\<rparr>, records)))"

fun wal_Append :: "'d Device \<Rightarrow> error option \<Rightarrow> StorageEntry list \<Rightarrow> 'd Log \<Rightarrow> error option \<times> 'd Log" where
  "wal_Append D ctxErr [] l = (None, l)"
| "wal_Append D ctxErr (entry # entries) l =
     (case ctxErr of
        Some e \<Rightarrow> (Some e, l)
      | None \<Rightarrow>
          (case dAppend D (Encode \<lparr>rSequence = lNextSeq l, rEntry = entry\<rparr>) (lDevice l) of
             (Some e, d) \<Rightarrow> (Some e, l\<lparr>lDevice := d\<rparr>)
           | (None, d) \<Rightarrow>
               wal_Append D ctxErr entries (l\<lparr>lDevice := d, lNextSeq := lNextSeq l + 1\<rparr>)))"

definition wal_Sync :: "'d Device \<Rightarrow> error option \<Rightarrow> 'd Log \<Rightarrow> error option \<times> 'd Log" where
  "wal_Sync D ctxErr l =
     (case ctxErr of
        Some e \<Rightarrow> (Some e, l)
      | None \<Rightarrow> (let (err, d) = dSync D (lDevice l) in (err, l\<lparr>lDevice := d\<rparr>)))"

subsection \<open>The record codec\<close>

lemma length_encode_body [simp]: "length (encode_body r) = 108"
  by (simp add: encode_body_def wal_magic_def)

lemma length_Encode [simp]: "length (Encode r) = 112"
  by (simp add: Encode_def)

lemma length_wal_magic [simp]: "length wal_magic = 8"
  by (simp add: wal_magic_def)

lemma go_slice_Encode: "j \<le> 108 \<Longrightarrow> go_slice i j (Encode r) = go_slice i j (encode_body r)"
  by (simp add: Encode_def)

lemma Decode_Encode: "Decode (Encode r) = Inr r"
proof -
  have "go_slice 0 108 (Encode r) = encode_body r"
    by (simp add: go_slice_Encode)
  moreover have "go_slice 108 112 (Encode r) = PutUint32 (Checksum (encode_body r))"
    by (simp add: Encode_def)
  ultimately show ?thesis
    by (simp add: Decode_def RecordSize_def go_slice_Encode) (simp add: encode_body_def)
qed

lemma Decode_corrupt_byte:
  assumes ok: "Decode src = Inr r" and i: "i < length src" and b: "b \<noteq> src ! i"
  shows "\<exists>e. Decode (src[i := b]) = Inl e"
proof -
  have len: "length src = 112"
    and crc: "Checksum (go_slice 0 108 src) = Uint32 (go_slice 108 112 src)"
    using ok by (auto simp: Decode_def RecordSize_def split: if_splits)
  let ?src = "src[i := b]"
  have "Checksum (go_slice 0 108 ?src) \<noteq> Uint32 (go_slice 108 112 ?src)"
  proof (cases "i < 108")
    case True
    have "go_slice 0 108 src ! i = src ! i" using True by (simp add: go_slice_def)
    then have "Checksum ((go_slice 0 108 src)[i := b]) \<noteq> Checksum (go_slice 0 108 src)"
      using True b len by (intro Checksum_single_byte) auto
    then show ?thesis
      using True crc by (simp add: go_slice_list_update_inside go_slice_list_update_outside)
  next
    case False
    have "go_slice 108 112 src ! (i - 108) = src ! i" using False i len by (simp add: go_slice_def)
    moreover have "i - 108 < length (go_slice 108 112 src)" using False i len by simp
    ultimately have "(go_slice 108 112 src)[i - 108 := b] \<noteq> go_slice 108 112 src"
      using b by (metis nth_list_update_eq)
    then have "Uint32 ((go_slice 108 112 src)[i - 108 := b]) \<noteq> Uint32 (go_slice 108 112 src)"
      using len by (subst Uint32_inj) auto
    then show ?thesis
      using False crc i len by (simp add: go_slice_list_update_inside go_slice_list_update_outside)
  qed
  then show ?thesis by (auto simp: Decode_def)
qed

subsection \<open>Recovery\<close>

definition sequenced :: "Record list \<Rightarrow> bool" where
  "sequenced rs \<longleftrightarrow> (\<forall>k < length rs. rSequence (rs ! k) = of_nat (k + 1))"

definition log_image :: "Record list \<Rightarrow> bytes" where
  "log_image rs = concat (map Encode rs)"

lemma log_image_simps [simp]:
  "log_image [] = []" "log_image (r # rs) = Encode r @ log_image rs"
  "log_image (rs @ rs') = log_image rs @ log_image rs'"
  by (simp_all add: log_image_def)

lemma length_log_image [simp]: "length (log_image rs) = 112 * length rs"
  by (induction rs) auto

lemma sequenced_snoc:
  "sequenced (rs @ [r]) \<longleftrightarrow> sequenced rs \<and> rSequence r = of_nat (length rs + 1)"
  by (auto simp: sequenced_def nth_append less_Suc_eq)

lemma log_image_block:
  "k < length rs \<Longrightarrow> go_slice (k * 112) ((k + 1) * 112) (log_image rs @ torn) = Encode (rs ! k)"
proof (induction rs arbitrary: k)
  case (Cons r rs)
  then show ?case by (cases k) (simp_all add: algebra_simps)
qed simp

lemma recover_loop_ok:
  assumes "\<And>k. k < left \<Longrightarrow> Decode (go_slice ((i + k) * 112) ((i + k + 1) * 112) img) = Inr (f k)"
    and "\<And>k. k < left \<Longrightarrow> rSequence (f k) = of_nat (i + k + 1)"
  shows "recover_loop img i left acc = (acc @ map f [0..<left], (i + left) * 112, None)"
  using assms
proof (induction left arbitrary: i acc f)
  case (Suc left)
  have "recover_loop img (i + 1) left (acc @ [f 0]) =
      ((acc @ [f 0]) @ map (\<lambda>k. f (Suc k)) [0..<left], ((i + 1) + left) * 112, None)"
    using Suc.prems(1) [of "Suc k" for k] Suc.prems(2) [of "Suc k" for k]
    by (intro Suc.IH) (simp_all add: algebra_simps)
  moreover have "map f [0..<Suc left] = f 0 # map (\<lambda>k. f (Suc k)) [0..<left]"
    by (simp add: upt_conv_Cons map_Suc_upt [symmetric] del: upt_Suc)
  ultimately show ?case
    using Suc.prems(1) [of 0] Suc.prems(2) [of 0] by (simp add: RecordSize_def del: upt_Suc)
qed (simp add: RecordSize_def)

lemma Recover_log_image:
  assumes "sequenced rs" and "length torn < 112"
  shows "Recover (log_image rs @ torn) = (rs, length rs * 112, None)"
proof -
  have "length (log_image rs @ torn) div 112 = length rs" using assms(2) by simp
  moreover have "recover_loop (log_image rs @ torn) 0 (length rs) [] =
      ([] @ map ((!) rs) [0..<length rs], (0 + length rs) * 112, None)"
    using assms(1) log_image_block [of _ rs torn]
    by (intro recover_loop_ok) (simp_all add: Decode_Encode sequenced_def)
  ultimately show ?thesis by (simp add: Recover_def RecordSize_def map_nth)
qed

lemma log_image_prefix:
  "\<exists>torn. take k (log_image rs) = log_image (take (k div 112) rs) @ torn \<and> length torn < 112"
proof (induction rs arbitrary: k)
  case (Cons r rs)
  show ?case
  proof (cases "k < 112")
    case True
    then show ?thesis by (auto intro!: exI [of _ "take k (Encode r)"])
  next
    case False
    then have "k div 112 = Suc ((k - 112) div 112)" by (simp add: le_div_geq)
    with Cons.IH [of "k - 112"] False show ?thesis by simp
  qed
qed simp

lemma recover_loop_error:
  assumes "i \<le> j" and "j < i + left"
    and "Decode (go_slice (j * 112) ((j + 1) * 112) img) = Inl e"
  shows "\<exists>v e. recover_loop img i left acc = ([], v, Some e)"
  using assms
proof (induction left arbitrary: i acc)
  case (Suc left)
  show ?case
  proof (cases "i = j")
    case True
    then show ?thesis using Suc.prems by (simp add: RecordSize_def algebra_simps)
  next
    case False
    then have "\<exists>v e. recover_loop img (i + 1) left acc' = ([], v, Some e)" for acc'
      using Suc.prems by (intro Suc.IH) auto
    then show ?thesis by (auto split: sum.splits)
  qed
qed simp

subsection \<open>The device contract and the log on top of it\<close>

locale wal_device =
  fixes D :: "'d Device" and durable :: "'d \<Rightarrow> bytes" and pending :: "'d \<Rightarrow> bytes"
  assumes append_ok: "dAppend D p d = (None, d') \<Longrightarrow>
      durable d' = durable d \<and> pending d' = pending d @ p"
    and sync_ok: "dSync D d = (None, d') \<Longrightarrow>
      durable d' = durable d @ pending d \<and> pending d' = []"
    and durable_bytes: "pending d = [] \<Longrightarrow> dDurableBytes D d = (bs, d') \<Longrightarrow>
      bs = durable d \<and> durable d' = durable d \<and> pending d' = []"
    and truncate_ok: "pending d = [] \<Longrightarrow> dTruncateDurable D n d = (None, d') \<Longrightarrow>
      durable d' = take (nat n) (durable d) \<and> pending d' = []"
begin

definition log_inv :: "'d Log \<Rightarrow> Record list \<Rightarrow> bool" where
  "log_inv l rs \<longleftrightarrow> durable (lDevice l) = log_image rs \<and> pending (lDevice l) = [] \<and>
     sequenced rs \<and> lNextSeq l = of_nat (length rs + 1)"

lemma append_sync_log_inv:
  assumes "log_inv l rs"
    and "wal_Append D None [e] l = (None, l1)" and "wal_Sync D None l1 = (None, l2)"
  shows "log_inv l2 (rs @ [\<lparr>rSequence = lNextSeq l, rEntry = e\<rparr>])"
  using assms append_ok sync_ok
  by (fastforce simp: log_inv_def wal_Sync_def sequenced_snoc Let_def
      split: prod.splits option.splits)

text \<open>What survives of an append whose sync never ran: any prefix of the new record.\<close>

lemma append_unsynced:
  assumes "log_inv l rs" and "wal_Append D None [e] l = (None, l1)"
  shows "durable (lDevice l1) = log_image rs \<and>
    pending (lDevice l1) = Encode \<lparr>rSequence = lNextSeq l, rEntry = e\<rparr>"
  using assms append_ok by (fastforce simp: log_inv_def split: prod.splits option.splits)

lemma Open_log_inv:
  assumes "pending d = []" and "durable d = log_image rs @ torn" and "length torn < 112"
    and "sequenced rs" and "wal_Open D d = Inr (l, recs)"
  shows "recs = rs \<and> log_inv l rs"
proof -
  obtain bs1 d1 where d1: "dDurableBytes D d = (bs1, d1)" by fastforce
  then have d1': "bs1 = log_image rs @ torn" "durable d1 = log_image rs @ torn" "pending d1 = []"
    using durable_bytes assms(1,2) by auto
  obtain bs2 d2 where d2: "dDurableBytes D d1 = (bs2, d2)" by fastforce
  then have d2': "bs2 = log_image rs @ torn" "durable d2 = log_image rs @ torn" "pending d2 = []"
    using durable_bytes d1' by auto
  have rec: "Recover (log_image rs @ torn) = (rs, length rs * 112, None)"
    using assms by (intro Recover_log_image)
  have nxt: "rSequence (last rs) + 1 = of_nat (length rs + 1)" if "rs \<noteq> []"
  proof -
    have "rSequence (rs ! (length rs - 1)) = of_nat (length rs - 1 + 1)"
      using assms(4) that unfolding sequenced_def by (metis diff_less length_greater_0_conv less_one)
    moreover have "length rs - 1 + 1 = length rs" using that by (cases rs) auto
    ultimately show ?thesis using that by (simp add: last_conv_nth)
  qed
  show ?thesis
  proof (cases "torn = []")
    case True
    then show ?thesis
      using assms(4,5) d1 d1' d2 d2' rec nxt by (auto simp: wal_Open_def log_inv_def)
  next
    case False
    with assms(5) d1 d1' d2 d2' rec obtain d3 where
      d3: "dTruncateDurable D (int (length rs * 112)) d2 = (None, d3)"
      "recs = rs" "l = \<lparr>lDevice = d3,
        lNextSeq = (if length rs > 0 then rSequence (last rs) + 1 else 1)\<rparr>"
      by (auto simp: wal_Open_def split: option.splits prod.splits)
    then have "durable d3 = log_image rs" "pending d3 = []"
      using truncate_ok [OF d2'(3) d3(1)] d2'(2) by (simp_all add: nat_mult_distrib)
    with d3 assms(4) nxt show ?thesis by (auto simp: log_inv_def)
  qed
qed

end

locale reliable_device = wal_device +
  assumes append_total: "\<exists>d'. dAppend D p d = (None, d')"
    and sync_total: "\<exists>d'. dSync D d = (None, d')"
    and truncate_total: "pending d = [] \<Longrightarrow> 0 \<le> n \<Longrightarrow> n \<le> int (length (durable d)) \<Longrightarrow>
      \<exists>d'. dTruncateDurable D n d = (None, d')"
begin

lemma Open_total:
  assumes "pending d = []" and "durable d = log_image rs @ torn" and "length torn < 112"
    and "sequenced rs"
  shows "\<exists>l. wal_Open D d = Inr (l, rs) \<and> log_inv l rs"
proof -
  obtain bs1 d1 where d1: "dDurableBytes D d = (bs1, d1)" by fastforce
  then have d1': "bs1 = log_image rs @ torn" "durable d1 = log_image rs @ torn" "pending d1 = []"
    using durable_bytes assms(1,2) by auto
  obtain bs2 d2 where d2: "dDurableBytes D d1 = (bs2, d2)" by fastforce
  then have d2': "bs2 = log_image rs @ torn" "durable d2 = log_image rs @ torn" "pending d2 = []"
    using durable_bytes d1' by auto
  have rec: "Recover (log_image rs @ torn) = (rs, length rs * 112, None)"
    using assms by (intro Recover_log_image)
  obtain d3 where d3: "dTruncateDurable D (int (length rs * 112)) d2 = (None, d3)"
    using truncate_total [OF d2'(3), of "int (length rs * 112)"] d2'(2) by auto
  obtain l where "wal_Open D d = Inr (l, rs)"
    using d1 d1' d2 d2' d3 rec by (cases "torn = []") (simp_all add: wal_Open_def Let_def)
  moreover from this have "log_inv l rs" using assms Open_log_inv by blast
  ultimately show ?thesis by blast
qed

lemma append_sync_total:
  assumes "log_inv l rs"
  shows "\<exists>l1 l2. wal_Append D None [e] l = (None, l1) \<and> wal_Sync D None l1 = (None, l2) \<and>
    log_inv l2 (rs @ [\<lparr>rSequence = lNextSeq l, rEntry = e\<rparr>])"
proof -
  obtain d1 where "dAppend D (Encode \<lparr>rSequence = lNextSeq l, rEntry = e\<rparr>) (lDevice l) = (None, d1)"
    using append_total by blast
  then obtain l1 where l1: "wal_Append D None [e] l = (None, l1)" by simp
  obtain l2 where l2: "wal_Sync D None l1 = (None, l2)"
    using sync_total [of "lDevice l1"] by (auto simp: wal_Sync_def)
  from l1 l2 append_sync_log_inv [OF assms l1 l2] show ?thesis by blast
qed

end

interpretation md: reliable_device memory_device md_durable md_pending
  by unfold_locales
    (auto simp: memory_device_def md_Append_def md_Sync_def md_DurableBytes_def
      md_TruncateDurable_def split: if_splits)

subsection \<open>Properties\<close>

text \<open>
  C7: Every log record survives the byte encoding: decoding the 112 bytes \<open>Encode\<close> writes gives
  back the record with its sequence number and all eleven entry fields.
\<close>

theorem wal_record_roundtrip: "Decode (Encode r) = Inr r \<and> length (Encode r) = RecordSize"
  by (simp add: Decode_Encode RecordSize_def)

lemma sequenced_take: "sequenced rs \<Longrightarrow> sequenced (take k rs)"
  by (simp add: sequenced_def)

text \<open>
  C8: Torn tails lose nothing that was complete. If a crash leaves any prefix of a log image,
  of \<open>k\<close> bytes, recovery succeeds, returns exactly the records wholly inside the prefix and
  reports their byte length, so the caller truncates the torn bytes and nothing else.
\<close>

theorem Recover_torn_prefix:
  assumes "sequenced rs"
  shows "Recover (take k (log_image rs)) =
    (take (k div RecordSize) rs, length (take (k div RecordSize) rs) * RecordSize, None)"
proof -
  obtain torn where "take k (log_image rs) = log_image (take (k div 112) rs) @ torn"
    "length torn < 112" using log_image_prefix by blast
  then show ?thesis
    using Recover_log_image [OF sequenced_take [OF assms]] by (simp add: RecordSize_def)
qed

definition sample_records :: "Record list" where
  "sample_records =
     [\<lparr>rSequence = 1, rEntry = zero_StorageEntry\<lparr>wIndex := 1, wTerm := 1\<rparr>\<rparr>,
      \<lparr>rSequence = 2, rEntry = zero_StorageEntry\<lparr>wTerm := 1, wCommand := 2\<rparr>\<rparr>]"

lemma sample_records_facts: "sequenced sample_records" "length sample_records = 2"
  by (auto simp: sequenced_def sample_records_def less_Suc_eq)

theorem Recover_torn_prefix_witness:
  "Recover (take 200 (log_image sample_records)) = (take 1 sample_records, 112, None)"
  using Recover_torn_prefix [of sample_records 200] by (simp add: RecordSize_def sample_records_facts)

text \<open>
  C9: Silent corruption is detected. If any single byte of the durable log image is replaced by
  a different byte, recovery refuses the image with an error and returns no records.
\<close>

theorem Recover_detects_corruption:
  assumes "sequenced rs" and "i < length (log_image rs)" and "b \<noteq> log_image rs ! i"
  shows "\<exists>v e. Recover ((log_image rs)[i := b]) = ([], v, Some e)"
proof -
  let ?k = "i div 112" and ?img = "(log_image rs)[i := b]"
  have k: "?k < length rs" using assms(2) by (simp add: div_less_iff_less_mult mult.commute)
  have i: "?k * 112 \<le> i" "i < (?k + 1) * 112" by (simp_all add: dividend_less_times_div)
  let ?block = "go_slice (?k * 112) ((?k + 1) * 112) (log_image rs)"
  have blk: "?block = Encode (rs ! ?k)" using log_image_block [OF k, of "[]"] by simp
  have "?block ! (i - ?k * 112) = log_image rs ! i"
    using i assms(2) by (simp add: go_slice_def)
  then have "\<exists>e. Decode (?block[i - ?k * 112 := b]) = Inl e"
    using assms(3) i blk by (intro Decode_corrupt_byte [where r = "rs ! ?k"]) (auto simp: Decode_Encode)
  moreover have "go_slice (?k * 112) ((?k + 1) * 112) ?img = ?block[i - ?k * 112 := b]"
    using i assms(2) by (intro go_slice_list_update_inside) auto
  ultimately obtain e where "Decode (go_slice (?k * 112) ((?k + 1) * 112) ?img) = Inl e" by auto
  then show ?thesis
    using k by (simp add: Recover_def RecordSize_def recover_loop_error [of 0 ?k "length rs"])
qed

theorem Recover_detects_corruption_witness:
  "\<exists>v e. Recover ((log_image sample_records)[130 := log_image sample_records ! 130 + 1])
     = ([], v, Some e)"
  using Recover_detects_corruption
    [of sample_records 130 "log_image sample_records ! 130 + 1"]
  by (simp add: sample_records_facts)

end
