(* ===== verification/Raft_Wal.thy ===== *)
theory Raft_Wal
  imports Wal Raft_Types
begin

text \<open>
  \<^verbatim>\<open>storage/raftwal/store.go\<close>: the Raft log and hard state kept as records of the write-ahead
  log. The operations append one record, sync, and update the in-memory copy; \<open>Open\<close> replays the
  records. The central lemma group relates the two: an operation changes the in-memory state
  exactly as replaying its record does, so reopening the device yields the state before the
  crash (\<open>coherent\<close>).
\<close>

subsection \<open>The store\<close>

definition hardStateIndex :: u64 where "hardStateIndex = 0"
definition compactIndex :: u64 where "compactIndex = NOT 0"
definition resetIndex :: u64 where "resetIndex = NOT 0 - 1"

record RaftwalState =
  rwHard :: HardState
  rwData :: "Entry list"
  rwBase :: u64

record 'd RaftwalStore = RaftwalState +
  rwLog :: "'d Log"

definition toStorage :: "u64 \<Rightarrow> Entry \<Rightarrow> StorageEntry" where
  "toStorage index entry = \<lparr>wIndex = index, wTerm = eTerm entry, wCommand = eCommand entry,
     wKind = eKind entry, wOldVoters = eOldVoters entry, wNewVoters = eNewVoters entry,
     wOperation = eOperation entry, wClientID = eClientID entry, wRequestID = eRequestID entry,
     wKey = eKey entry, wValue = eValue entry\<rparr>"

definition fromStorage :: "StorageEntry \<Rightarrow> Entry" where
  "fromStorage e = \<lparr>eTerm = wTerm e, eCommand = wCommand e, eKind = wKind e,
     eOldVoters = wOldVoters e, eNewVoters = wNewVoters e, eOperation = wOperation e,
     eClientID = wClientID e, eRequestID = wRequestID e, eKey = wKey e, eValue = wValue e\<rparr>"

definition replayEntry :: "StorageEntry \<Rightarrow> RaftwalState \<Rightarrow> error + RaftwalState" where
  "replayEntry e s =
     (if wIndex e = resetIndex then
        (if wTerm e < rwBase s then Inl (ErrResetRegression (wTerm e))
         else Inr (s\<lparr>rwBase := wTerm e, rwData := [zero_Entry\<lparr>eTerm := wCommand e\<rparr>]\<rparr>))
      else if wIndex e = compactIndex then
        (if wTerm e < rwBase s \<or> wTerm e > rwBase s + of_nat (length (rwData s)) - 1
         then Inl (ErrInvalidCompaction (wTerm e))
         else Inr (s\<lparr>rwData := drop (unat (wTerm e - rwBase s)) (rwData s), rwBase := wTerm e\<rparr>))
      else if wIndex e = hardStateIndex then
        (if wTerm e < hTerm (rwHard s) \<or> wOldVoters e < hCommit (rwHard s) \<or>
            wTerm e = hTerm (rwHard s) \<and> hVotedFor (rwHard s) \<noteq> 0 \<and>
            ucast (wCommand e) \<noteq> hVotedFor (rwHard s)
         then Inl ErrHardStateRegression
         else Inr (s\<lparr>rwHard := \<lparr>hTerm = wTerm e, hVotedFor = ucast (wCommand e),
                        hCommit = wOldVoters e\<rparr>\<rparr>))
      else if wIndex e \<le> rwBase s then Inr s
      else
        let off = wIndex e - rwBase s in
        if off > of_nat (length (rwData s)) then Inl (ErrLogIndexGap (wIndex e))
        else Inr (s\<lparr>rwData := (if off < of_nat (length (rwData s))
                     then take (unat off) (rwData s) else rwData s) @ [fromStorage e]\<rparr>))"

fun replay :: "Record list \<Rightarrow> RaftwalState \<Rightarrow> error + RaftwalState" where
  "replay [] s = Inr s"
| "replay (r # rs) s =
     (case replayEntry (rEntry r) s of Inl e \<Rightarrow> Inl e | Inr s' \<Rightarrow> replay rs s')"

definition empty_state :: RaftwalState where
  "empty_state = \<lparr>rwHard = zero_HardState, rwData = [zero_Entry], rwBase = 0\<rparr>"

definition raftwal_Open :: "'d Device \<Rightarrow> 'd \<Rightarrow> error + 'd RaftwalStore" where
  "raftwal_Open D device =
     (case wal_Open D device of
        Inl e \<Rightarrow> Inl e
      | Inr (log, records) \<Rightarrow>
          (case replay records empty_state of
             Inl e \<Rightarrow> Inl e
           | Inr s \<Rightarrow> Inr (RaftwalState.extend s \<lparr>rwLog = log\<rparr>)))"

definition rw_append :: "'d Device \<Rightarrow> StorageEntry \<Rightarrow> 'd RaftwalStore \<Rightarrow> error option \<times> 'd RaftwalStore" where
  "rw_append D entry s =
     (case wal_Append D None [entry] (rwLog s) of
        (Some e, l) \<Rightarrow> (Some e, s\<lparr>rwLog := l\<rparr>)
      | (None, l) \<Rightarrow> (let (err, l') = wal_Sync D None l in (err, s\<lparr>rwLog := l'\<rparr>)))"

definition rw_SaveHardState ::
  "'d Device \<Rightarrow> HardState \<Rightarrow> 'd RaftwalStore \<Rightarrow> error option \<times> 'd RaftwalStore" where
  "rw_SaveHardState D h s =
     (if hTerm h < hTerm (rwHard s) \<or> hCommit h < hCommit (rwHard s) \<or>
         hTerm h = hTerm (rwHard s) \<and> hVotedFor (rwHard s) \<noteq> 0 \<and>
         hVotedFor h \<noteq> hVotedFor (rwHard s)
      then (Some ErrHardStateRegression, s)
      else case rw_append D (zero_StorageEntry\<lparr>wIndex := hardStateIndex, wTerm := hTerm h,
          wCommand := ucast (hVotedFor h), wOldVoters := hCommit h\<rparr>) s of
        (Some e, s') \<Rightarrow> (Some e, s')
      | (None, s') \<Rightarrow> (None, s'\<lparr>rwHard := h\<rparr>))"

definition rw_Append ::
  "'d Device \<Rightarrow> u64 \<Rightarrow> Entry \<Rightarrow> 'd RaftwalStore \<Rightarrow> error option \<times> 'd RaftwalStore" where
  "rw_Append D index entry s =
     (if index \<le> rwBase s \<or> index > rwBase s + of_nat (length (rwData s))
      then (Some (ErrInvalidLogIndex index), s)
      else case rw_append D (toStorage index entry) s of
        (Some e, s') \<Rightarrow> (Some e, s')
      | (None, s') \<Rightarrow>
          let off = index - rwBase s' in
          (None, s'\<lparr>rwData := (if off < of_nat (length (rwData s'))
             then take (unat off) (rwData s') else rwData s') @ [entry]\<rparr>))"

definition rw_State :: "'d RaftwalStore \<Rightarrow> HardState \<times> Entry list" where
  "rw_State s = (rwHard s, rwData s)"

definition rw_StateWithBase :: "'d RaftwalStore \<Rightarrow> HardState \<times> u64 \<times> Entry list" where
  "rw_StateWithBase s = (rwHard s, rwBase s, rwData s)"

definition rw_Term :: "u64 \<Rightarrow> 'd RaftwalStore \<Rightarrow> u64 \<times> bool" where
  "rw_Term index s =
     (if index < rwBase s \<or> index > rwBase s + of_nat (length (rwData s)) - 1 then (0, False)
      else (eTerm (rwData s ! unat (index - rwBase s)), True))"

definition rw_ResetBase ::
  "'d Device \<Rightarrow> u64 \<Rightarrow> u64 \<Rightarrow> 'd RaftwalStore \<Rightarrow> error option \<times> 'd RaftwalStore" where
  "rw_ResetBase D index term s =
     (if index < rwBase s then (Some (ErrResetRegression index), s)
      else case rw_append D
          (zero_StorageEntry\<lparr>wIndex := resetIndex, wTerm := index, wCommand := term\<rparr>) s of
        (Some e, s') \<Rightarrow> (Some e, s')
      | (None, s') \<Rightarrow>
          (None, s'\<lparr>rwBase := index, rwData := [zero_Entry\<lparr>eTerm := term\<rparr>]\<rparr>))"

definition rw_CompactLog ::
  "'d Device \<Rightarrow> u64 \<Rightarrow> 'd RaftwalStore \<Rightarrow> error option \<times> 'd RaftwalStore" where
  "rw_CompactLog D index s =
     (if index \<le> rwBase s \<or> index > rwBase s + of_nat (length (rwData s)) - 1
      then (Some (ErrInvalidCompaction index), s)
      else
        let off = unat (index - rwBase s) in
        case rw_append D (zero_StorageEntry\<lparr>wIndex := compactIndex, wTerm := index,
            wCommand := eTerm (rwData s ! off)\<rparr>) s of
          (Some e, s') \<Rightarrow> (Some e, s')
        | (None, s') \<Rightarrow> (None, s'\<lparr>rwData := drop off (rwData s'), rwBase := index\<rparr>))"

definition raftwal_ops :: "'d Device \<Rightarrow> 'd RaftwalStore StableStore" where
  "raftwal_ops D = \<lparr>SaveHardState = rw_SaveHardState D, AppendEntry = rw_Append D,
     asSnapshotStore = None\<rparr>"

subsection \<open>Operations as values\<close>

datatype StoreOp =
    OpHard HardState
  | OpAppend u64 Entry
  | OpCompact u64
  | OpReset u64 u64

fun runOp :: "'d Device \<Rightarrow> StoreOp \<Rightarrow> 'd RaftwalStore \<Rightarrow> error option \<times> 'd RaftwalStore" where
  "runOp D (OpHard h) s = rw_SaveHardState D h s"
| "runOp D (OpAppend i e) s = rw_Append D i e s"
| "runOp D (OpCompact i) s = rw_CompactLog D i s"
| "runOp D (OpReset i t) s = rw_ResetBase D i t s"

fun opRecord :: "StoreOp \<Rightarrow> ('a) RaftwalState_scheme \<Rightarrow> StorageEntry" where
  "opRecord (OpHard h) s = zero_StorageEntry\<lparr>wIndex := hardStateIndex, wTerm := hTerm h,
     wCommand := ucast (hVotedFor h), wOldVoters := hCommit h\<rparr>"
| "opRecord (OpAppend i e) s = toStorage i e"
| "opRecord (OpCompact i) s = zero_StorageEntry\<lparr>wIndex := compactIndex, wTerm := i,
     wCommand := eTerm (rwData s ! unat (i - rwBase s))\<rparr>"
| "opRecord (OpReset i t) s = zero_StorageEntry\<lparr>wIndex := resetIndex, wTerm := i, wCommand := t\<rparr>"

fun rejects :: "StoreOp \<Rightarrow> ('a) RaftwalState_scheme \<Rightarrow> error option" where
  "rejects (OpHard h) s =
     (if hTerm h < hTerm (rwHard s) \<or> hCommit h < hCommit (rwHard s) \<or>
         hTerm h = hTerm (rwHard s) \<and> hVotedFor (rwHard s) \<noteq> 0 \<and>
         hVotedFor h \<noteq> hVotedFor (rwHard s) then Some ErrHardStateRegression else None)"
| "rejects (OpAppend i e) s =
     (if i \<le> rwBase s \<or> i > rwBase s + of_nat (length (rwData s))
      then Some (ErrInvalidLogIndex i) else None)"
| "rejects (OpCompact i) s =
     (if i \<le> rwBase s \<or> i > rwBase s + of_nat (length (rwData s)) - 1
      then Some (ErrInvalidCompaction i) else None)"
| "rejects (OpReset i t) s = (if i < rwBase s then Some (ErrResetRegression i) else None)"

text \<open>
  The specification of an accepted operation over natural-number indexes: the log is the
  sentinel at the base followed by the entries; an append overwrites the suffix from its index.
\<close>

fun specOp :: "StoreOp \<Rightarrow> RaftwalState \<Rightarrow> RaftwalState" where
  "specOp (OpHard h) s = s\<lparr>rwHard := h\<rparr>"
| "specOp (OpAppend i e) s = s\<lparr>rwData := take (unat i - unat (rwBase s)) (rwData s) @ [e]\<rparr>"
| "specOp (OpCompact i) s = s\<lparr>rwData := drop (unat i - unat (rwBase s)) (rwData s), rwBase := i\<rparr>"
| "specOp (OpReset i t) s = s\<lparr>rwData := [zero_Entry\<lparr>eTerm := t\<rparr>], rwBase := i\<rparr>"

text \<open>
  Two indexes at the top of the \<open>uint64\<close> range are record tags, so a store is well formed when
  its last index stays below them; \<open>opFits\<close> asks that the operation leaves room.
\<close>

definition state_ok :: "('a) RaftwalState_scheme \<Rightarrow> bool" where
  "state_ok s \<longleftrightarrow> rwData s \<noteq> [] \<and> unat (rwBase s) + length (rwData s) < 2 ^ 64 - 2"

fun opFits :: "StoreOp \<Rightarrow> ('a) RaftwalState_scheme \<Rightarrow> bool" where
  "opFits (OpAppend i e) s \<longleftrightarrow> unat (rwBase s) + length (rwData s) + 1 < 2 ^ 64 - 2"
| "opFits (OpReset i t) s \<longleftrightarrow> unat i + 1 < 2 ^ 64 - 2"
| "opFits _ s \<longleftrightarrow> True"

lemmas tag_defs = hardStateIndex_def compactIndex_def resetIndex_def

lemma unat_tags [simp]:
  "unat compactIndex = 18446744073709551615" "unat resetIndex = 18446744073709551614"
  "unat hardStateIndex = 0"
  by (simp_all add: tag_defs unsigned_minus_1_eq_mask mask_eq_exp_minus_1)

lemma ucast_u32_u64 [simp]: "ucast (ucast (x :: u32) :: u64) = x"
  by (rule bit_word_eqI) (simp add: bit_simps)

lemma from_toStorage [simp]: "fromStorage (toStorage i e) = e"
  by (simp add: fromStorage_def toStorage_def)

lemma state_ok_last:
  assumes "state_ok s"
  shows "unat (rwBase s + of_nat (length (rwData s))) = unat (rwBase s) + length (rwData s)"
    and "unat (rwBase s + of_nat (length (rwData s)) - 1) = unat (rwBase s) + length (rwData s) - 1"
    and "unat (of_nat (length (rwData s)) :: u64) = length (rwData s)"
proof -
  have lt: "length (rwData s) < 2 ^ 64" using assms by (simp add: state_ok_def)
  then show len: "unat (of_nat (length (rwData s)) :: u64) = length (rwData s)"
    by (rule unat_of_nat_u64)
  show sum: "unat (rwBase s + of_nat (length (rwData s))) = unat (rwBase s) + length (rwData s)"
    using assms len by (simp add: state_ok_def unat_word_ariths)
  have "0 < length (rwData s)" using assms by (simp add: state_ok_def)
  then show "unat (rwBase s + of_nat (length (rwData s)) - 1) =
      unat (rwBase s) + length (rwData s) - 1"
    using sum by (subst unat_minus_one_u64) simp_all
qed

lemma tags_distinct [simp]:
  "compactIndex \<noteq> resetIndex" "resetIndex \<noteq> compactIndex" "hardStateIndex \<noteq> resetIndex"
  "hardStateIndex \<noteq> compactIndex"
  by (simp_all add: word_eq_unat)

lemma replay_opRecord_hard:
  "rejects (OpHard h) s = None \<Longrightarrow>
    replayEntry (opRecord (OpHard h) s) (RaftwalState.truncate s) =
      Inr (specOp (OpHard h) (RaftwalState.truncate s))"
  by (cases h) (auto simp: replayEntry_def zero_StorageEntry_def RaftwalState.defs split: if_splits)

lemma replay_opRecord_append:
  assumes "state_ok s" and "rejects (OpAppend i e) s = None"
  shows "replayEntry (opRecord (OpAppend i e) s) (RaftwalState.truncate s) =
      Inr (specOp (OpAppend i e) (RaftwalState.truncate s))"
proof -
  have i: "unat (rwBase s) < unat i" "unat i \<le> unat (rwBase s) + length (rwData s)"
    using assms state_ok_last [OF assms(1)] by (auto simp: u64_cmp split: if_splits)
  then have off: "unat (i - rwBase s) = unat i - unat (rwBase s)" by (simp add: unat_minus_u64)
  have tags: "i \<noteq> resetIndex" "i \<noteq> compactIndex" "i \<noteq> hardStateIndex"
    using i assms(1) by (auto simp: word_eq_unat state_ok_def)
  show ?thesis
    using i off tags state_ok_last(3) [OF assms(1)]
    by (auto simp: replayEntry_def toStorage_def RaftwalState.defs u64_cmp Let_def fromStorage_def)
qed

lemma replay_opRecord_compact:
  assumes "state_ok s" and "rejects (OpCompact i) s = None"
  shows "replayEntry (opRecord (OpCompact i) s) (RaftwalState.truncate s) =
      Inr (specOp (OpCompact i) (RaftwalState.truncate s))"
  using assms state_ok_last [OF assms(1)]
  by (auto simp: replayEntry_def zero_StorageEntry_def RaftwalState.defs u64_cmp unat_minus_u64
      split: if_splits)

lemma replay_opRecord_reset:
  "rejects (OpReset i t) s = None \<Longrightarrow>
    replayEntry (opRecord (OpReset i t) s) (RaftwalState.truncate s) =
      Inr (specOp (OpReset i t) (RaftwalState.truncate s))"
  by (auto simp: replayEntry_def zero_StorageEntry_def RaftwalState.defs split: if_splits)

lemma replay_opRecord:
  assumes "state_ok s" and "rejects op s = None"
  shows "replayEntry (opRecord op s) (RaftwalState.truncate s) =
      Inr (specOp op (RaftwalState.truncate s))"
  using assms replay_opRecord_hard replay_opRecord_append replay_opRecord_compact
    replay_opRecord_reset by (cases op) blast+

lemma replay_snoc:
  "replay (rs @ [r]) s = (case replay rs s of Inl e \<Rightarrow> Inl e | Inr s' \<Rightarrow> replayEntry (rEntry r) s')"
  by (induction rs arbitrary: s) (auto split: sum.splits)

lemma runOp_rejected: "rejects op s = Some e \<Longrightarrow> runOp D op s = (Some e, s)"
  by (cases op)
    (auto simp: rw_SaveHardState_def rw_Append_def rw_CompactLog_def rw_ResetBase_def split: if_splits)

lemma rw_append_state:
  "rw_append D e s = (err, s') \<Longrightarrow> RaftwalState.truncate s' = RaftwalState.truncate s"
  by (auto simp: rw_append_def RaftwalState.defs split: prod.splits option.splits)

subsection \<open>Coherence of the store with its log\<close>

lemma state_ok_specOp:
  assumes "state_ok s" and "rejects op s = None" and "opFits op s"
  shows "state_ok (specOp op (RaftwalState.truncate s))"
proof (cases op)
  case (OpAppend i e)
  then show ?thesis using assms by (auto simp: state_ok_def RaftwalState.defs)
next
  case (OpCompact i)
  then have "unat (rwBase s) < unat i" "unat i \<le> unat (rwBase s) + length (rwData s) - 1"
    using assms state_ok_last [OF assms(1)] by (auto simp: u64_cmp split: if_splits)
  then show ?thesis using OpCompact assms(1) by (auto simp: state_ok_def RaftwalState.defs)
qed (use assms in \<open>auto simp: state_ok_def RaftwalState.defs\<close>)

lemma state_ok_truncate [simp]: "state_ok (RaftwalState.truncate s) = state_ok s"
  by (simp add: state_ok_def RaftwalState.defs)

lemma runOp_accepted:
  assumes "state_ok s" and "rejects op s = None"
  shows "runOp D op s =
    (case rw_append D (opRecord op s) s of
       (Some e, s') \<Rightarrow> (Some e, s')
     | (None, s') \<Rightarrow> (None, RaftwalState.extend (specOp op (RaftwalState.truncate s)) (RaftwalState.more s')))"
proof -
  obtain err s' where s': "rw_append D (opRecord op s) s = (err, s')" by fastforce
  have tr: "rwHard s' = rwHard s" "rwData s' = rwData s" "rwBase s' = rwBase s"
    using rw_append_state [OF s'] by (simp_all add: RaftwalState.defs)
  show ?thesis
  proof (cases op)
    case (OpAppend i e)
    have "unat (rwBase s) < unat i" "unat i \<le> unat (rwBase s) + length (rwData s)"
      using assms OpAppend state_ok_last [OF assms(1)] by (auto simp: u64_cmp split: if_splits)
    then show ?thesis
      using OpAppend assms s' tr state_ok_last(3) [OF assms(1)]
      by (cases s') (auto simp: rw_Append_def RaftwalState.defs u64_cmp unat_minus_u64 Let_def
          split: option.splits if_splits)
  next
    case (OpCompact i)
    then show ?thesis
      using assms s' tr state_ok_last [OF assms(1)]
      by (cases s') (auto simp: rw_CompactLog_def RaftwalState.defs u64_cmp unat_minus_u64 Let_def
          split: option.splits if_splits)
  next
    case (OpHard h)
    then show ?thesis
      using assms s' tr by (cases s')
        (auto simp: rw_SaveHardState_def RaftwalState.defs split: option.splits if_splits)
  next
    case (OpReset i t)
    then show ?thesis
      using assms s' tr by (cases s')
        (auto simp: rw_ResetBase_def RaftwalState.defs split: option.splits if_splits)
  qed
qed

context wal_device
begin

definition coherent :: "'d RaftwalStore \<Rightarrow> Record list \<Rightarrow> bool" where
  "coherent s rs \<longleftrightarrow> log_inv (rwLog s) rs \<and> state_ok s \<and>
     replay rs empty_state = Inr (RaftwalState.truncate s)"

lemma rw_append_log_inv:
  assumes "log_inv (rwLog s) rs" and "rw_append D e s = (None, s')"
  shows "log_inv (rwLog s') (rs @ [\<lparr>rSequence = lNextSeq (rwLog s), rEntry = e\<rparr>])"
proof -
  obtain l1 where l1: "wal_Append D None [e] (rwLog s) = (None, l1)"
    using assms(2) by (auto simp: rw_append_def split: prod.splits option.splits)
  then have "wal_Sync D None l1 = (None, rwLog s')"
    using assms(2) by (auto simp: rw_append_def Let_def split: prod.splits)
  then show ?thesis by (rule append_sync_log_inv [OF assms(1) l1])
qed

lemma coherent_record:
  assumes "coherent s rs" and "rejects op s = None"
  shows "replay (rs @ [\<lparr>rSequence = q, rEntry = opRecord op s\<rparr>]) empty_state =
    Inr (specOp op (RaftwalState.truncate s))"
  using assms by (simp add: coherent_def replay_snoc replay_opRecord)

lemma runOp_coherent:
  assumes "coherent s rs" and "opFits op s" and "runOp D op s = (None, s')"
  shows "coherent s' (rs @ [\<lparr>rSequence = lNextSeq (rwLog s), rEntry = opRecord op s\<rparr>])"
    and "RaftwalState.truncate s' = specOp op (RaftwalState.truncate s)"
proof -
  have ok: "state_ok s" "log_inv (rwLog s) rs" using assms(1) by (simp_all add: coherent_def)
  have rej: "rejects op s = None"
    using assms(3) runOp_rejected [of op s _ D] by (cases "rejects op s") auto
  obtain s1 where s1: "rw_append D (opRecord op s) s = (None, s1)"
    and s': "s' = RaftwalState.extend (specOp op (RaftwalState.truncate s)) (RaftwalState.more s1)"
    using assms(3) runOp_accepted [OF ok(1) rej, of D] by (auto split: prod.splits option.splits)
  have log: "rwLog s' = rwLog s1" using s' by (cases s1) (simp add: RaftwalState.defs)
  show tr: "RaftwalState.truncate s' = specOp op (RaftwalState.truncate s)"
    using s' by (simp add: RaftwalState.defs)
  have "state_ok s'"
    using state_ok_specOp [OF ok(1) rej assms(2)] state_ok_truncate [of s'] by (simp add: tr)
  then show "coherent s' (rs @ [\<lparr>rSequence = lNextSeq (rwLog s), rEntry = opRecord op s\<rparr>])"
    using rw_append_log_inv [OF ok(2) s1] coherent_record [OF assms(1) rej]
    by (simp add: coherent_def tr log)
qed

lemma Open_coherent:
  assumes "pending d = []" and "durable d = log_image rs @ torn" and "length torn < 112"
    and "sequenced rs" and "replay rs empty_state = Inr st" and "state_ok st"
    and "raftwal_Open D d = Inr s"
  shows "RaftwalState.truncate s = st \<and> coherent s rs"
proof -
  obtain l recs where o: "wal_Open D d = Inr (l, recs)"
    using assms(7) by (auto simp: raftwal_Open_def split: sum.splits)
  have l: "recs = rs" "log_inv l rs" using Open_log_inv [OF assms(1-4) o] by simp_all
  then have s: "s = RaftwalState.extend st \<lparr>rwLog = l\<rparr>"
    using o assms(5,7) by (simp add: raftwal_Open_def)
  then have "RaftwalState.truncate s = st" "rwLog s = l" by (simp_all add: RaftwalState.defs)
  with l assms(5,6) state_ok_truncate [of s] show ?thesis by (simp add: coherent_def)
qed

end

context reliable_device
begin

lemma raftwal_Open_total:
  assumes "pending d = []" and "durable d = log_image rs @ torn" and "length torn < 112"
    and "sequenced rs" and "replay rs empty_state = Inr st" and "state_ok st"
  shows "\<exists>s. raftwal_Open D d = Inr s \<and> RaftwalState.truncate s = st \<and> coherent s rs"
proof -
  obtain l where "wal_Open D d = Inr (l, rs)" using Open_total [OF assms(1-4)] by blast
  then obtain s where s: "raftwal_Open D d = Inr s"
    using assms(5) by (simp add: raftwal_Open_def)
  then show ?thesis using Open_coherent [OF assms s] by blast
qed

lemma runOp_total:
  assumes "coherent s rs" and "rejects op s = None"
  shows "\<exists>s'. runOp D op s = (None, s')"
proof -
  have ok: "state_ok s" "log_inv (rwLog s) rs" using assms(1) by (simp_all add: coherent_def)
  obtain l1 l2 where "wal_Append D None [opRecord op s] (rwLog s) = (None, l1)"
    "wal_Sync D None l1 = (None, l2)"
    using append_sync_total [OF ok(2)] by blast
  then have "\<exists>s1. rw_append D (opRecord op s) s = (None, s1)"
    by (simp add: rw_append_def)
  then show ?thesis using runOp_accepted [OF ok(1) assms(2), of D] by auto
qed

end

subsection \<open>Executions of the store on the in-memory device\<close>

text \<open>
  \<open>rw_reach s\<close>: \<open>s\<close> is a store some execution produces: open an empty device, run operations
  (accepted or rejected), and at any moment crash and reopen, either between two operations or
  after the append of an operation's record and before its sync, keeping any prefix of the
  unsynced bytes.
\<close>

inductive rw_reach :: "MemoryDevice RaftwalStore \<Rightarrow> bool" where
  rw_start: "raftwal_Open memory_device (NewMemoryDevice []) = Inr s \<Longrightarrow> rw_reach s"
| rw_op: "rw_reach s \<Longrightarrow> opFits op s \<Longrightarrow> runOp memory_device op s = (err, s') \<Longrightarrow> rw_reach s'"
| rw_crash: "rw_reach s \<Longrightarrow> md_Crash k (lDevice (rwLog s)) = Inr d \<Longrightarrow>
    raftwal_Open memory_device d = Inr s' \<Longrightarrow> rw_reach s'"
| rw_crash_op: "rw_reach s \<Longrightarrow> opFits op s \<Longrightarrow> rejects op s = None \<Longrightarrow>
    wal_Append memory_device None [opRecord op s] (rwLog s) = (None, l) \<Longrightarrow>
    md_Crash k (lDevice l) = Inr d \<Longrightarrow> raftwal_Open memory_device d = Inr s' \<Longrightarrow> rw_reach s'"

lemma replay_empty_ok: "replay [] empty_state = Inr empty_state" "state_ok empty_state"
  by (simp_all add: state_ok_def empty_state_def)

lemma crash_quiet:
  assumes "md.coherent s rs" and "md_Crash k (lDevice (rwLog s)) = Inr d"
  shows "\<exists>s'. raftwal_Open memory_device d = Inr s' \<and>
    RaftwalState.truncate s' = RaftwalState.truncate s \<and> md.coherent s' rs"
proof -
  have inv: "md.log_inv (rwLog s) rs" "state_ok s"
    "replay rs empty_state = Inr (RaftwalState.truncate s)"
    using assms(1) by (simp_all add: md.coherent_def)
  have "md_pending d = []" "md_durable d = log_image rs @ []" "sequenced rs"
    using assms(2) inv(1)
    by (auto simp: md_Crash_def NewMemoryDevice_def md.log_inv_def split: if_splits)
  then show ?thesis
    using inv md.raftwal_Open_total [of d rs "[]" "RaftwalState.truncate s"] by simp
qed

lemma crash_in_op:
  assumes "md.coherent s rs" and "opFits op s" and "rejects op s = None"
    and "wal_Append memory_device None [opRecord op s] (rwLog s) = (None, l)"
    and "md_Crash k (lDevice l) = Inr d"
  shows "\<exists>s' rs'. raftwal_Open memory_device d = Inr s' \<and> md.coherent s' rs' \<and>
    RaftwalState.truncate s' = (if k < 112 then RaftwalState.truncate s
      else specOp op (RaftwalState.truncate s))"
proof -
  let ?r = "\<lparr>rSequence = lNextSeq (rwLog s), rEntry = opRecord op s\<rparr>"
  have inv: "md.log_inv (rwLog s) rs" "state_ok s"
    "replay rs empty_state = Inr (RaftwalState.truncate s)"
    using assms(1) by (simp_all add: md.coherent_def)
  have l: "md_durable (lDevice l) = log_image rs" "md_pending (lDevice l) = Encode ?r"
    using md.append_unsynced [OF inv(1) assms(4)] by simp_all
  have seqs: "sequenced rs" "sequenced (rs @ [?r])"
    using inv(1) by (simp_all add: md.log_inv_def sequenced_snoc)
  have d: "md_pending d = []" "md_durable d = log_image rs @ take (nat k) (Encode ?r)" "k \<le> 112"
    using assms(5) l by (auto simp: md_Crash_def NewMemoryDevice_def split: if_splits)
  show ?thesis
  proof (cases "k < 112")
    case True
    then have "length (take (nat k) (Encode ?r)) < 112" by simp
    then show ?thesis
      using True inv md.raftwal_Open_total [OF d(1,2) _ seqs(1) inv(3)] by auto
  next
    case False
    then have "md_durable d = log_image (rs @ [?r]) @ []" using d(2,3) by simp
    then show ?thesis
      using False state_ok_specOp [OF inv(2) assms(3,2)]
        md.raftwal_Open_total [OF d(1) _ _ seqs(2) md.coherent_record [OF assms(1,3)]] by auto
  qed
qed

lemma rw_reach_coherent: "rw_reach s \<Longrightarrow> \<exists>rs. md.coherent s rs"
proof (induction rule: rw_reach.induct)
  case (rw_start s)
  then show ?case
    using md.Open_coherent [of "NewMemoryDevice []" "[]" "[]" empty_state s] replay_empty_ok
    by (simp add: NewMemoryDevice_def sequenced_def) blast
next
  case (rw_op s op err s')
  then obtain rs where rs: "md.coherent s rs" by blast
  show ?case
  proof (cases "rejects op s")
    case None
    then have "err = None" using md.runOp_total [OF rs None] rw_op.hyps(3) by auto
    then show ?thesis using md.runOp_coherent(1) [OF rs rw_op.hyps(2)] rw_op.hyps(3) by blast
  next
    case (Some e)
    then show ?thesis using runOp_rejected [OF Some, of memory_device] rw_op.hyps(3) rs by auto
  qed
next
  case (rw_crash s k d s')
  then show ?case using crash_quiet by (metis sum.inject(2))
next
  case (rw_crash_op s op l k d s')
  then show ?case using crash_in_op by (metis sum.inject(2))
qed

subsection \<open>The store as Raft's stable store\<close>

lemma rw_append_hard [simp]: "rw_append D e s = (err, s') \<Longrightarrow> rwHard s' = rwHard s"
  using rw_append_state [of D e s err s'] by (simp add: RaftwalState.defs)

lemma accepted_hard_le:
  assumes "rejects (OpHard h) s = None"
  shows "hard_le (rwHard s) h"
proof -
  have "hTerm (rwHard s) < hTerm h \<or> hTerm (rwHard s) = hTerm h" and "hCommit (rwHard s) \<le> hCommit h"
    using assms by (auto simp: not_less order.order_iff_strict split: if_splits)
  then show ?thesis using assms by (auto simp: hard_le_def split: if_splits)
qed

lemma rw_SaveHardState_cases:
  assumes "rw_SaveHardState D h s = (r, s')"
  shows "(r = None \<and> rejects (OpHard h) s = None \<and> rwHard s' = h) \<or> (r \<noteq> None \<and> rwHard s' = rwHard s)"
proof (cases "rejects (OpHard h) s")
  case (Some e)
  then show ?thesis using assms runOp_rejected [OF Some, of D] by simp
next
  case None
  obtain err s1 where s1: "rw_append D (opRecord (OpHard h) s) s = (err, s1)" by fastforce
  then have "rw_SaveHardState D h s = (case err of Some e \<Rightarrow> (Some e, s1) | None \<Rightarrow> (None, s1\<lparr>rwHard := h\<rparr>))"
    using None by (auto simp: rw_SaveHardState_def split: if_splits)
  then show ?thesis using assms None rw_append_hard [OF s1] by (cases err) auto
qed

interpretation raftwal: hard_store "raftwal_ops D" rwHard for D
proof unfold_locales
  fix h s s'
  show "SaveHardState (raftwal_ops D) h s = (None, s') \<Longrightarrow> rwHard s' = h \<and> hard_le (rwHard s) h"
    using rw_SaveHardState_cases [of D h s None s'] accepted_hard_le [of h s]
    by (auto simp: raftwal_ops_def simp del: rejects.simps)
  show "SaveHardState (raftwal_ops D) h s = (Some e, s') \<Longrightarrow> rwHard s' = rwHard s" for e
    using rw_SaveHardState_cases [of D h s "Some e" s'] by (simp add: raftwal_ops_def)
  show "AppendEntry (raftwal_ops D) i en s = (r, s') \<Longrightarrow> rwHard s' = rwHard s" for i en r
    by (auto simp: raftwal_ops_def rw_Append_def Let_def split: if_splits prod.splits option.splits)
qed (simp_all add: raftwal_ops_def)

text \<open>
  For the hard state alone no bound on the log is needed: whatever a reopened store replays, its
  hard state is the one last saved.
\<close>

definition rw_hard_ok :: "MemoryDevice RaftwalStore \<Rightarrow> bool" where
  "rw_hard_ok s \<longleftrightarrow> (\<exists>rs. md.log_inv (rwLog s) rs \<and>
     (\<forall>st. replay rs empty_state = Inr st \<longrightarrow> rwHard st = rwHard s))"

text \<open>
  The store between two operations, or inside one: the record of an accepted operation is appended and not yet
  synced. A crash then keeps any prefix of the record.
\<close>

definition rw_inside_op :: "StoreOp \<Rightarrow> MemoryDevice RaftwalStore \<Rightarrow> MemoryDevice RaftwalStore \<Rightarrow> bool" where
  "rw_inside_op op s s1 \<longleftrightarrow> rejects op s = None \<and>
     (\<exists>l. wal_Append memory_device None [opRecord op s] (rwLog s) = (None, l) \<and> s1 = s\<lparr>rwLog := l\<rparr>)"

definition rw_inside :: "MemoryDevice RaftwalStore \<Rightarrow> MemoryDevice RaftwalStore \<Rightarrow> bool" where
  "rw_inside s s1 \<longleftrightarrow> s1 = s \<or> (\<exists>op. rw_inside_op op s s1)"

definition rw_crash :: "MemoryDevice RaftwalStore \<Rightarrow> MemoryDevice RaftwalStore \<Rightarrow> bool" where
  "rw_crash s s' \<longleftrightarrow> (\<exists>s1 k d. rw_inside s s1 \<and> md_Crash k (lDevice (rwLog s1)) = Inr d \<and>
     raftwal_Open memory_device d = Inr s')"

lemma rw_append_memory:
  assumes "md.log_inv (rwLog s) rs"
  shows "\<exists>s'. rw_append memory_device e s = (None, s') \<and>
    md.log_inv (rwLog s') (rs @ [\<lparr>rSequence = lNextSeq (rwLog s), rEntry = e\<rparr>])"
proof -
  obtain l1 l2 where "wal_Append memory_device None [e] (rwLog s) = (None, l1)"
    "wal_Sync memory_device None l1 = (None, l2)"
    using md.append_sync_total [OF assms] by blast
  then have "\<exists>s'. rw_append memory_device e s = (None, s')" by (simp add: rw_append_def)
  then show ?thesis using md.rw_append_log_inv [OF assms] by blast
qed

lemma replayEntry_keeps_hard:
  "replayEntry e st = Inr st' \<Longrightarrow> wIndex e \<noteq> hardStateIndex \<Longrightarrow> rwHard st' = rwHard st"
  by (auto simp: replayEntry_def Let_def split: if_splits)

lemma replayEntry_hard:
  assumes "replayEntry (opRecord (OpHard h) s) st = Inr st'"
  shows "rwHard st' = h"
proof (cases h)
  case (fields t v c)
  then show ?thesis using assms by (auto simp: replayEntry_def zero_StorageEntry_def split: if_splits)
qed

lemma rw_hard_ok_record:
  assumes ok: "rw_hard_ok s" and s': "rw_append memory_device e s = (err, s')"
    and hard: "\<And>st st'. replayEntry e st = Inr st' \<Longrightarrow> rwHard st = rwHard s \<Longrightarrow> rwHard st' = h"
  shows "err = None \<and> rw_hard_ok (s'\<lparr>rwHard := h, rwData := dt, rwBase := b\<rparr>)"
proof -
  obtain rs where rs: "md.log_inv (rwLog s) rs"
    "\<forall>st. replay rs empty_state = Inr st \<longrightarrow> rwHard st = rwHard s"
    using ok by (auto simp: rw_hard_ok_def)
  let ?rs = "rs @ [\<lparr>rSequence = lNextSeq (rwLog s), rEntry = e\<rparr>]"
  have "err = None \<and> md.log_inv (rwLog s') ?rs" using rw_append_memory [OF rs(1), of e] s' by auto
  moreover have "rwHard st = h" if "replay ?rs empty_state = Inr st" for st
    using that rs(2) hard by (auto simp: replay_snoc split: sum.splits)
  ultimately show ?thesis by (auto simp: rw_hard_ok_def)
qed

lemma rw_hard_ok_SaveHardState:
  assumes "rw_hard_ok s" and "rw_SaveHardState memory_device h s = (r, s')"
  shows "rw_hard_ok s'"
proof (cases "rejects (OpHard h) s")
  case (Some e)
  then show ?thesis using assms runOp_rejected [OF Some, of memory_device] by simp
next
  case None
  obtain err s1 where s1: "rw_append memory_device (opRecord (OpHard h) s) s = (err, s1)" by fastforce
  have "err = None \<and> rw_hard_ok (s1\<lparr>rwHard := h, rwData := rwData s1, rwBase := rwBase s1\<rparr>)"
    by (rule rw_hard_ok_record [OF assms(1) s1]) (rule replayEntry_hard)
  moreover have "s' = s1\<lparr>rwHard := h\<rparr>"
    using assms(2) None s1 calculation by (auto simp: rw_SaveHardState_def split: if_splits)
  ultimately show ?thesis by (cases s1) simp
qed

lemma rw_hard_ok_Append:
  assumes "rw_hard_ok s" and "rw_Append memory_device i e s = (r, s')"
  shows "rw_hard_ok s'"
proof (cases "rejects (OpAppend i e) s")
  case (Some e')
  then show ?thesis using assms runOp_rejected [OF Some, of memory_device] by simp
next
  case None
  then have i: "i \<noteq> 0" by (auto split: if_splits)
  obtain err s1 where s1: "rw_append memory_device (toStorage i e) s = (err, s1)" by fastforce
  have h: "rwHard st' = rwHard s" if "replayEntry (toStorage i e) st = Inr st'" "rwHard st = rwHard s"
    for st st'
    using replayEntry_keeps_hard [OF that(1)] that(2) i
    by (simp add: toStorage_def hardStateIndex_def)
  have "err = None \<and> rw_hard_ok (s1\<lparr>rwHard := rwHard s, rwData := dt, rwBase := rwBase s1\<rparr>)" for dt
    by (rule rw_hard_ok_record [OF assms(1) s1]) (rule h)
  moreover have "\<exists>dt. s' = s1\<lparr>rwData := dt\<rparr>"
    using assms(2) None s1 calculation by (auto simp: rw_Append_def Let_def split: if_splits)
  moreover have "rwHard s1 = rwHard s" using s1 by simp
  ultimately show ?thesis by (cases s1) auto
qed

lemma rw_hard_ok_fence:
  assumes ok: "rw_hard_ok w" and w': "rw_append memory_device e w = (err, w')" and e: "wIndex e \<noteq> hardStateIndex"
  shows "err = None \<and> rw_hard_ok (w'\<lparr>rwData := dt, rwBase := b\<rparr>)"
proof -
  have "rwHard st' = rwHard w" if "replayEntry e st = Inr st'" "rwHard st = rwHard w" for st st'
    using replayEntry_keeps_hard [OF that(1) e] that(2) by simp
  then have "err = None \<and> rw_hard_ok (w'\<lparr>rwHard := rwHard w, rwData := dt, rwBase := b\<rparr>)"
    by (rule rw_hard_ok_record [OF ok w'])
  then show ?thesis using rw_append_hard [OF w'] by (cases w') simp
qed

lemma rw_hard_ok_CompactLog:
  assumes "rw_hard_ok w" and "rw_CompactLog memory_device i w = (err, w')"
  shows "rw_hard_ok w'"
proof (cases "rejects (OpCompact i) w")
  case (Some e)
  then show ?thesis using assms runOp_rejected [OF Some, of memory_device] by simp
next
  case None
  obtain e1 w1 where w1: "rw_append memory_device (opRecord (OpCompact i) w) w = (e1, w1)" by fastforce
  have "wIndex (opRecord (OpCompact i) w) \<noteq> hardStateIndex" by (simp add: tag_defs)
  note f = rw_hard_ok_fence [OF assms(1) w1 this]
  then have "w' = w1\<lparr>rwData := drop (unat (i - rwBase w)) (rwData w1), rwBase := i\<rparr>"
    using assms(2) None w1 by (auto simp: rw_CompactLog_def Let_def split: if_splits)
  then show ?thesis using f by simp
qed

lemma rw_hard_ok_ResetBase:
  assumes "rw_hard_ok w" and "rw_ResetBase memory_device i t w = (err, w')"
  shows "rw_hard_ok w'"
proof (cases "rejects (OpReset i t) w")
  case (Some e)
  then show ?thesis using assms runOp_rejected [OF Some, of memory_device] by simp
next
  case None
  obtain e1 w1 where w1: "rw_append memory_device (opRecord (OpReset i t) w) w = (e1, w1)" by fastforce
  have "wIndex (opRecord (OpReset i t) w) \<noteq> hardStateIndex" by (simp add: tag_defs)
  note f = rw_hard_ok_fence [OF assms(1) w1 this]
  then have "w' = w1\<lparr>rwData := [zero_Entry\<lparr>eTerm := t\<rparr>], rwBase := i\<rparr>"
    using assms(2) None w1 by (auto simp: rw_ResetBase_def split: if_splits)
  then show ?thesis using f by simp
qed

text \<open>Opening a log that ends in a torn record: the hard state is the one its complete records replay to.\<close>

lemma reopen_hard:
  assumes "md_pending d = []" and "md_durable d = log_image rs @ torn" and "length torn < 112" and "sequenced rs"
    and "\<And>st. replay rs empty_state = Inr st \<Longrightarrow> rwHard st = h" and "raftwal_Open memory_device d = Inr s'"
  shows "rw_hard_ok s' \<and> rwHard s' = h"
proof -
  obtain l recs st where o: "wal_Open memory_device d = Inr (l, recs)"
      "replay recs empty_state = Inr st" "s' = RaftwalState.extend st \<lparr>rwLog = l\<rparr>"
    using assms(6) by (auto simp: raftwal_Open_def split: sum.splits)
  have l: "recs = rs" "md.log_inv l rs" using md.Open_log_inv [OF assms(1-4) o(1)] by simp_all
  have "rwHard s' = h" "rwLog s' = l" "rwHard s' = rwHard st"
    using o assms(5) l(1) by (auto simp: RaftwalState.defs)
  with l o(2) show ?thesis by (auto simp: rw_hard_ok_def)
qed

lemma replayEntry_op_hard:
  assumes "rejects op s = None" and "replayEntry (opRecord op s) st = Inr st'" and "rwHard st = rwHard s"
  shows "rwHard st' = (case op of OpHard h \<Rightarrow> h | _ \<Rightarrow> rwHard s)"
proof (cases op)
  case (OpHard h)
  then show ?thesis using replayEntry_hard [of h s st st'] assms(2) by simp
next
  case (OpAppend i e)
  then have "i \<noteq> 0" using assms(1) by (auto split: if_splits)
  then show ?thesis
    using replayEntry_keeps_hard [OF assms(2)] assms(3) OpAppend by (simp add: toStorage_def hardStateIndex_def)
qed (use replayEntry_keeps_hard [OF assms(2)] assms(3) in \<open>simp_all add: tag_defs\<close>)

lemma rw_hard_ok_crash:
  assumes "rw_hard_ok s" and "rw_crash s s'"
  shows "rw_hard_ok s' \<and> hard_le (rwHard s) (rwHard s')"
proof -
  obtain rs where rs: "md.log_inv (rwLog s) rs"
    "\<And>st. replay rs empty_state = Inr st \<Longrightarrow> rwHard st = rwHard s"
    using assms(1) by (auto simp: rw_hard_ok_def)
  obtain s1 k d where d: "rw_inside s s1" "md_Crash k (lDevice (rwLog s1)) = Inr d" "raftwal_Open memory_device d = Inr s'"
    using assms(2) by (auto simp: rw_crash_def)
  have seq: "sequenced rs" using rs(1) by (simp add: md.log_inv_def)
  show ?thesis
  proof (cases "s1 = s")
    case True
    then have "md_pending d = []" "md_durable d = log_image rs @ []"
      using d(2) rs(1) by (auto simp: md_Crash_def NewMemoryDevice_def md.log_inv_def split: if_splits)
    from reopen_hard [OF this _ seq rs(2) d(3)] show ?thesis by simp
  next
    case False
    then obtain op l where op: "rejects op s = None" "wal_Append memory_device None [opRecord op s] (rwLog s) = (None, l)"
        "rwLog s1 = l" using d(1) by (auto simp: rw_inside_def rw_inside_op_def)
    let ?r = "\<lparr>rSequence = lNextSeq (rwLog s), rEntry = opRecord op s\<rparr>"
    have l: "md_durable (lDevice l) = log_image rs" "md_pending (lDevice l) = Encode ?r"
      using md.append_unsynced [OF rs(1) op(2)] by simp_all
    have dev: "md_pending d = []" "md_durable d = log_image rs @ take (nat k) (Encode ?r)" "k \<le> 112"
      using d(2) l op(3) by (auto simp: md_Crash_def NewMemoryDevice_def split: if_splits)
    show ?thesis
    proof (cases "k < 112")
      case True
      then have "length (take (nat k) (Encode ?r)) < 112" by simp
      from reopen_hard [OF dev(1,2) this seq rs(2) d(3)] show ?thesis by simp
    next
      case False
      let ?h = "case op of OpHard h \<Rightarrow> h | _ \<Rightarrow> rwHard s"
      have whole: "md_durable d = log_image (rs @ [?r]) @ []" using False dev(2,3) by simp
      have seq': "sequenced (rs @ [?r])" using rs(1) by (simp add: md.log_inv_def sequenced_snoc)
      have "rwHard st = ?h" if "replay (rs @ [?r]) empty_state = Inr st" for st
        using that rs(2) replayEntry_op_hard [OF op(1)] by (auto simp: replay_snoc split: sum.splits)
      from reopen_hard [OF dev(1) whole _ seq' this d(3)] have "rw_hard_ok s'" "rwHard s' = ?h" by simp_all
      moreover have "hard_le (rwHard s) ?h" using accepted_hard_le op(1) by (cases op) (auto simp del: rejects.simps)
      ultimately show ?thesis by simp
    qed
  qed
qed

interpretation raftwal_md: durable_store "raftwal_ops memory_device" rwHard rw_hard_ok rw_crash
proof unfold_locales
  fix s s' :: "MemoryDevice RaftwalStore"
  show "rw_hard_ok s \<Longrightarrow> SaveHardState (raftwal_ops memory_device) h s = (r, s') \<Longrightarrow> rw_hard_ok s'" for h r
    by (auto simp: raftwal_ops_def dest: rw_hard_ok_SaveHardState)
  show "rw_hard_ok s \<Longrightarrow> AppendEntry (raftwal_ops memory_device) i e s = (r, s') \<Longrightarrow> rw_hard_ok s'" for i e r
    by (auto simp: raftwal_ops_def dest: rw_hard_ok_Append)
  show "rw_hard_ok s \<Longrightarrow> rw_crash s s' \<Longrightarrow> rw_hard_ok s' \<and> hard_le (rwHard s) (rwHard s')"
    by (rule rw_hard_ok_crash)
qed (simp_all add: raftwal_ops_def)

subsection \<open>Properties\<close>

text \<open>
  C10: The store implements its specification. In every reachable store an operation is rejected
  exactly when its guard fails, and then changes nothing; otherwise it succeeds and its effect on
  hard state, log and base is \<open>specOp\<close>: replace the hard state, overwrite the log suffix, drop
  the compacted prefix, or install a new base.
\<close>

theorem raftwal_op_refines_spec:
  assumes "rw_reach s" and "opFits op s"
  shows "case rejects op s of
      Some e \<Rightarrow> runOp memory_device op s = (Some e, s)
    | None \<Rightarrow> \<exists>s'. runOp memory_device op s = (None, s') \<and>
        RaftwalState.truncate s' = specOp op (RaftwalState.truncate s)"
proof (cases "rejects op s")
  case None
  obtain rs where rs: "md.coherent s rs" using rw_reach_coherent [OF assms(1)] by blast
  then obtain s' where "runOp memory_device op s = (None, s')"
    using md.runOp_total [OF rs None] by blast
  then show ?thesis using None md.runOp_coherent(2) [OF rs assms(2)] by auto
qed (simp add: runOp_rejected)

definition fresh_store :: "MemoryDevice RaftwalStore" where
  "fresh_store = RaftwalState.extend empty_state
     \<lparr>rwLog = \<lparr>lDevice = NewMemoryDevice [], lNextSeq = 1\<rparr>\<rparr>"

lemma fresh_store_reach: "rw_reach fresh_store"
  by (rule rw_start)
    (simp add: raftwal_Open_def wal_Open_def memory_device_def md_DurableBytes_def Recover_def
      NewMemoryDevice_def fresh_store_def RecordSize_def)

lemma fresh_store_simps [simp]:
  "rwHard fresh_store = zero_HardState" "rwData fresh_store = [zero_Entry]"
  "rwBase fresh_store = 0" "RaftwalState.truncate fresh_store = empty_state"
  by (simp_all add: fresh_store_def empty_state_def RaftwalState.defs)

theorem raftwal_op_refines_spec_witness:
  "\<exists>s'. runOp memory_device (OpAppend 1 (zero_Entry\<lparr>eTerm := 1\<rparr>)) fresh_store = (None, s') \<and>
     rwData s' = [zero_Entry, zero_Entry\<lparr>eTerm := 1\<rparr>]"
proof -
  obtain s' where "runOp memory_device (OpAppend 1 (zero_Entry\<lparr>eTerm := 1\<rparr>)) fresh_store = (None, s')"
    "RaftwalState.truncate s' = specOp (OpAppend 1 (zero_Entry\<lparr>eTerm := 1\<rparr>)) empty_state"
    using raftwal_op_refines_spec [OF fresh_store_reach, of "OpAppend 1 (zero_Entry\<lparr>eTerm := 1\<rparr>)"]
    by auto
  then show ?thesis by (auto simp: RaftwalState.defs empty_state_def)
qed

text \<open>
  C11: What the store acknowledged is durable. Crash any reachable store between operations and
  reopen the device: the open succeeds and hard state, log and base are those before the crash.
\<close>

theorem raftwal_durable:
  assumes "rw_reach s" and "md_Crash k (lDevice (rwLog s)) = Inr d"
  shows "\<exists>s'. raftwal_Open memory_device d = Inr s' \<and> rw_StateWithBase s' = rw_StateWithBase s"
proof -
  obtain rs where "md.coherent s rs" using rw_reach_coherent [OF assms(1)] by blast
  then obtain s' where "raftwal_Open memory_device d = Inr s'"
    "RaftwalState.truncate s' = RaftwalState.truncate s" using crash_quiet assms(2) by blast
  then show ?thesis by (auto simp: rw_StateWithBase_def RaftwalState.defs)
qed

theorem raftwal_durable_witness:
  "\<exists>s d s'. rw_reach s \<and> hTerm (rwHard s) = 5 \<and> hVotedFor (rwHard s) = 2 \<and>
     md_Crash 0 (lDevice (rwLog s)) = Inr d \<and> raftwal_Open memory_device d = Inr s' \<and>
     rwHard s' = \<lparr>hTerm = 5, hVotedFor = 2, hCommit = 0\<rparr>"
proof -
  let ?op = "OpHard \<lparr>hTerm = 5, hVotedFor = 2, hCommit = 0\<rparr>"
  obtain rs where rs: "md.coherent fresh_store rs" using rw_reach_coherent [OF fresh_store_reach] ..
  then obtain s where s: "runOp memory_device ?op fresh_store = (None, s)"
    using md.runOp_total [OF rs, of ?op] by (auto simp: zero_HardState_def)
  have st: "RaftwalState.truncate s = specOp ?op empty_state"
    using md.runOp_coherent(2) [OF rs _ s] by simp
  have r: "rw_reach s" by (rule rw_op [OF fresh_store_reach _ s]) simp
  obtain d where d: "md_Crash 0 (lDevice (rwLog s)) = Inr d" by (simp add: md_Crash_def)
  from raftwal_durable [OF r d] st r d show ?thesis
    by (auto simp: RaftwalState.defs empty_state_def rw_StateWithBase_def)
qed

text \<open>
  C12: Operations are atomic across a crash. If the process dies after an accepted operation has
  written its record but before the sync returned, and any number of the unsynced bytes reached
  the disk, reopening succeeds with either the state before the operation or the state after it.
\<close>

theorem raftwal_crash_atomic:
  assumes "rw_reach s" and "opFits op s" and "rejects op s = None"
    and "wal_Append memory_device None [opRecord op s] (rwLog s) = (None, l)"
    and "md_Crash k (lDevice l) = Inr d"
  shows "\<exists>s'. raftwal_Open memory_device d = Inr s' \<and>
    RaftwalState.truncate s' \<in> {RaftwalState.truncate s, specOp op (RaftwalState.truncate s)}"
proof -
  obtain rs where "md.coherent s rs" using rw_reach_coherent [OF assms(1)] by blast
  from crash_in_op [OF this assms(2-5)] show ?thesis by auto
qed

theorem raftwal_crash_atomic_witness:
  "\<exists>l d s'. wal_Append memory_device None [opRecord (OpReset 9 4) fresh_store] (rwLog fresh_store)
       = (None, l) \<and> md_Crash 50 (lDevice l) = Inr d \<and> raftwal_Open memory_device d = Inr s' \<and>
     rwBase s' \<in> {0, 9}"
proof -
  obtain l where l: "wal_Append memory_device None [opRecord (OpReset 9 4) fresh_store]
      (rwLog fresh_store) = (None, l)" and "length (md_pending (lDevice l)) = 112"
    by (simp add: memory_device_def md_Append_def fresh_store_def RaftwalState.defs
        NewMemoryDevice_def)
  then obtain d where d: "md_Crash 50 (lDevice l) = Inr d" by (simp add: md_Crash_def)
  from raftwal_crash_atomic [OF fresh_store_reach _ _ l d] l d show ?thesis
    by (fastforce simp: RaftwalState.defs empty_state_def)
qed

end
