(* ===== verification/Raft_Quiet.thy ===== *)
theory Raft_Quiet
  imports Raft_Node
begin

text \<open>
  The operations of \<^verbatim>\<open>raft/node.go\<close> that leave the election state alone: term, vote, vote mask,
  hard state in the store, and granted vote responses do not change, and the role changes at most
  to follower (\<open>quiet\<close>). Proved for an arbitrary store that satisfies \<open>hard_store\<close>.
\<close>

definition grants :: "Message list \<Rightarrow> Message set" where
  "grants ms = {m \<in> set ms. mType m = MsgRequestVoteResponse \<and> \<not> mReject m}"

lemma grants_simps [simp]:
  "grants [] = {}"
  "grants (m # ms) = (if mType m = MsgRequestVoteResponse \<and> \<not> mReject m then insert m (grants ms)
     else grants ms)"
  "grants (ms @ ms') = grants ms \<union> grants ms'"
  by (auto simp: grants_def)

named_theorems quiet_ops \<open>operations that leave the election state alone\<close>

context hard_store
begin

abbreviation hard :: "'s Node \<Rightarrow> HardState" where
  "hard n \<equiv> hard_of (nStore n)"

definition synced :: "'s Node \<Rightarrow> bool" where
  "synced n \<longleftrightarrow> nTerm n = hTerm (hard n) \<and> nVotedFor n = hVotedFor (hard n)"

definition quiet :: "'s Node \<Rightarrow> 's Node \<Rightarrow> bool" where
  "quiet n n' \<longleftrightarrow> nID n' = nID n \<and> nTerm n' = nTerm n \<and> nVotedFor n' = nVotedFor n \<and>
     nVoteMask n' = nVoteMask n \<and> hTerm (hard n') = hTerm (hard n) \<and>
     hVotedFor (hard n') = hVotedFor (hard n) \<and> hCommit (hard n) \<le> hCommit (hard n') \<and>
     (nState n' = nState n \<or> nState n' = Follower) \<and>
     grants (nOutbound n') \<subseteq> grants (nOutbound n) \<and> store_run S (nStore n) (nStore n')"

lemma quiet_refl [simp]: "quiet n n"
  by (simp add: quiet_def)

lemma quiet_trans [trans]: "quiet a b \<Longrightarrow> quiet b c \<Longrightarrow> quiet a c"
  by (auto simp: quiet_def intro: store_run_trans)

lemma quiet_synced: "quiet n n' \<Longrightarrow> synced n \<Longrightarrow> synced n'"
  by (simp add: quiet_def synced_def)

lemma quiet_foldM:
  assumes "foldM f xs n = Some n'" and "\<And>x n n'. f x n = Some n' \<Longrightarrow> quiet n n'"
  shows "quiet n n'"
  using foldM_invariant [OF assms(1), of "quiet n"] assms(2) quiet_trans by auto

lemma quiet_for_u64:
  assumes "for_u64 i hi f n = Some n'" and "\<And>x n n'. f x n = Some n' \<Longrightarrow> quiet n n'"
  shows "quiet n n'"
  using for_u64_invariant [OF assms(1), of "quiet n"] assms(2) quiet_trans by auto

lemma send_quiet [quiet_ops]:
  "send m n = Some n' \<Longrightarrow> mType m \<noteq> MsgRequestVoteResponse \<or> mReject m \<Longrightarrow> quiet n n'"
  by (auto simp: send_def quiet_def split: if_splits)

lemma failStorage_quiet [quiet_ops]: "quiet n (failStorage n)" "quiet n (failStorageWith e n)"
  by (simp_all add: quiet_def failStorage_def failStorageWith_def)

lemma quiet_update [simp]:
  "quiet n (n\<lparr>nNext := x\<rparr>)" "quiet n (n\<lparr>nMatch := x\<rparr>)" "quiet n (n\<lparr>nPendingConfig := i\<rparr>)"
  "quiet n (n\<lparr>nElapsed := i\<rparr>)" "quiet n (n\<lparr>nLog := l\<rparr>)" "quiet n (n\<lparr>nCommit := i\<rparr>)"
  by (simp_all add: quiet_def)

lemma appendToContext_quiet [quiet_ops]:
  assumes "appendToContext p c n = Some n'"
  shows "quiet n n'"
proof -
  obtain n1 m where "send m n1 = Some n'" "mType m \<noteq> MsgRequestVoteResponse" "quiet n n1"
  proof (cases "nNext n p \<le> nBaseIndex n")
    case True
    then show ?thesis using assms that by (fastforce simp: appendToContext_def)
  next
    case False
    show ?thesis
      using assms False that
      by (fastforce simp: appendToContext_def Let_def bind_eq_Some_conv zero_Message_def
          split: if_splits)
  qed
  then show ?thesis using send_quiet quiet_trans by blast
qed

lemma appendTo_quiet [quiet_ops]: "appendTo p n = Some n' \<Longrightarrow> quiet n n'"
  by (simp add: appendTo_def appendToContext_quiet)

lemma broadcastAppend_quiet [quiet_ops]: "broadcastAppend n = Some n' \<Longrightarrow> quiet n n'"
  unfolding broadcastAppend_def
  by (erule quiet_foldM) (auto simp: bind_eq_Some_conv appendTo_quiet split: if_splits)

lemma ensurePeer_quiet [quiet_ops]: "ensurePeer msk i n = Some n' \<Longrightarrow> quiet n n'"
  by (auto simp: ensurePeer_def bind_eq_Some_conv quiet_def split: if_splits)

lemma ensurePeers_quiet [quiet_ops]: "ensurePeers msk n = Some n' \<Longrightarrow> quiet n n'"
  unfolding ensurePeers_def by (erule quiet_foldM) (rule ensurePeer_quiet)

lemma applyConfigurationEntry_quiet [quiet_ops]:
  assumes "applyConfigurationEntry entry n = Some n'"
  shows "quiet n n'"
proof (cases "eKind entry = EntryJointConfig")
  case True
  then have "quiet (n\<lparr>nVotersOld := eOldVoters entry, nVotersNew := eNewVoters entry\<rparr>) n'"
    using assms by (auto simp: applyConfigurationEntry_def dest: ensurePeers_quiet)
  then show ?thesis by (simp add: quiet_def)
next
  case False
  then show ?thesis using assms
    by (auto simp: applyConfigurationEntry_def Let_def bind_eq_Some_conv quiet_def split: if_splits)
qed

lemma applyCommittedConfiguration_quiet [quiet_ops]:
  "applyCommittedConfiguration i n = Some n' \<Longrightarrow> quiet n n'"
  using quiet_trans [OF applyConfigurationEntry_quiet quiet_update(3)]
  by (auto simp: applyCommittedConfiguration_def bind_eq_Some_conv applyConfigurationEntry_quiet)

lemma applyCommittedConfigurations_quiet [quiet_ops]:
  "applyCommittedConfigurations lo hi n = Some n' \<Longrightarrow> quiet n n'"
  unfolding applyCommittedConfigurations_def
  by (erule quiet_for_u64) (rule applyCommittedConfiguration_quiet)

lemma rebuildPendingConfig_quiet [quiet_ops]: "rebuildPendingConfig n = Some n' \<Longrightarrow> quiet n n'"
proof -
  assume a: "rebuildPendingConfig n = Some n'"
  have "quiet (n\<lparr>nPendingConfig := 0\<rparr>) n'"
    using a unfolding rebuildPendingConfig_def
    by (rule quiet_for_u64) (auto simp: bind_eq_Some_conv quiet_def dest!: ensurePeers_quiet
        split: if_splits)
  then show ?thesis by (simp add: quiet_def)
qed

lemma persistHardState_cases:
  assumes "persistHardState S h n = (b, n')"
  obtains (saved) st where "b" "n' = n\<lparr>nStore := st\<rparr>" "hard_of st = h" "hard_le (hard n) h"
      "store_run S (nStore n) st"
  | (failed) "\<not> b" "quiet n n'" "nFaulted n'" "nState n' = Follower"
proof (cases "SaveHardState S h (nStore n)")
  case (Pair e st)
  note run = store_run_one(1) [OF Pair]
  show ?thesis
  proof (cases e)
    case None
    then show ?thesis using Pair assms save_ok [of h "nStore n" st] saved run
      by (auto simp: persistHardState_def)
  next
    case (Some err)
    then have "hard_of st = hard n" using Pair save_err by simp
    then show ?thesis using Some Pair assms failed run
      by (auto simp: persistHardState_def quiet_def failStorageWith_def failStorage_def)
  qed
qed

lemma persist_commit_quiet [quiet_ops]:
  assumes "persistHardState S \<lparr>hTerm = nTerm n, hVotedFor = nVotedFor n, hCommit = c\<rparr> n = (b, n')"
    and "synced n"
  shows "quiet n n'"
  using assms(1)
proof (cases rule: persistHardState_cases)
  case (saved st)
  then show ?thesis using assms(2) by (simp add: quiet_def synced_def hard_le_def)
qed

lemma quiet_store:
  "hard_of st = hard n \<Longrightarrow> store_run S (nStore n) st \<Longrightarrow> quiet n (n\<lparr>nStore := st\<rparr>)"
  by (simp add: quiet_def)

lemma append_store_quiet:
  "AppendEntry S i e (nStore n) = (r, st) \<Longrightarrow> quiet n (n\<lparr>nStore := st\<rparr>)"
  by (simp add: quiet_store append_hard store_run_one(2))

lemma appendLocal_quiet [quiet_ops]:
  assumes "appendLocal S e n = Some (b, n')" and "synced n"
  shows "quiet n n'"
proof -
  obtain r st where st: "AppendEntry S (lastIndex n + 1) e (nStore n) = (r, st)" by fastforce
  have q1: "quiet n (n\<lparr>nStore := st\<rparr>)" using st by (rule append_store_quiet)
  show ?thesis
  proof (cases r)
    case (Some err)
    then show ?thesis using assms(1) st quiet_trans [OF q1 failStorage_quiet(2)]
      by (auto simp: appendLocal_def)
  next
    case None
    let ?n1 = "n\<lparr>nStore := st, nLog := nLog n @ [e]\<rparr>"
    let ?n2 = "?n1\<lparr>nCommit := lastIndex ?n1\<rparr>"
    have q2: "quiet n ?n1" "quiet n ?n2" using q1 by (simp_all add: quiet_def)
    obtain ok n3 where n3: "persistHardState S
        \<lparr>hTerm = nTerm ?n2, hVotedFor = nVotedFor ?n2, hCommit = nCommit ?n2\<rparr> ?n2 = (ok, n3)"
      by fastforce
    have "quiet ?n2 n3"
      using persist_commit_quiet [OF n3] quiet_synced [OF q2(2) assms(2)] by blast
    then have q3: "quiet n n3" using q2(2) quiet_trans by blast
    have q4: "quiet n n4" if "applyCommittedConfigurations lo hi n3 = Some n4" for lo hi n4
      using quiet_trans [OF q3 applyCommittedConfigurations_quiet [OF that]] .
    have q5: "quiet n (n3\<lparr>nCommit := c\<rparr>)" for c
      using quiet_trans [OF q3 quiet_update(6)] .
    show ?thesis
      using assms(1) st None n3 q2 q4 q5
      by (auto simp: appendLocal_def Let_def bind_eq_Some_conv split: if_splits)
  qed
qed

lemma quiet_fold_updates:
  assumes "\<And>x n. quiet n (f x n)"
  shows "quiet n (fold f xs n)"
proof (induction xs arbitrary: n)
  case (Cons x xs)
  then show ?case using quiet_trans [OF assms Cons.IH] by simp
qed simp

lemma becomeLeader_quiet:
  assumes "becomeLeader S n = Some n'" and "synced n"
  shows "quiet (n\<lparr>nState := Leader\<rparr>) n'"
proof -
  let ?n1 = "n\<lparr>nState := Leader, nLeader := nID n, nElapsed := 0\<rparr>"
  have q1: "quiet (n\<lparr>nState := Leader\<rparr>) ?n1" and s1: "synced ?n1"
    using assms(2) by (simp_all add: quiet_def synced_def)
  obtain ok n2 where n2: "appendLocal S (zero_Entry\<lparr>eTerm := nTerm ?n1, eKind := EntryNoop\<rparr>) ?n1
      = Some (ok, n2)"
    using assms(1) by (auto simp: becomeLeader_def Let_def bind_eq_Some_conv)
  have q2: "quiet (n\<lparr>nState := Leader\<rparr>) n2"
    using quiet_trans [OF q1 appendLocal_quiet [OF n2 s1]] .
  have q3: "quiet n2 (fold (\<lambda>p n. n\<lparr>nNext := (nNext n)(p := hi), nMatch := (nMatch n)(p := 0)\<rparr>) ps n2)"
    for hi ps by (rule quiet_fold_updates) (simp add: quiet_def)
  show ?thesis
    using assms(1) n2 q2 quiet_trans [OF quiet_trans [OF q2 q3] broadcastAppend_quiet]
    by (auto simp: becomeLeader_def Let_def split: if_splits)
qed

lemma onAppendEntry_quiet [quiet_ops]:
  assumes "onAppendEntry S m n = Some r"
  shows "quiet n (case r of Inl n' \<Rightarrow> n' | Inr n' \<Rightarrow> n')"
proof -
  let ?at = "mLogIndex m + 1"
  obtain n1 where n1: "(case offset n ?at of
              None \<Rightarrow> Some n
            | Some off \<Rightarrow> do {
                e \<leftarrow> go_index (nLog n) (unat off);
                if eTerm e \<noteq> eTerm (mEntry m)
                then rebuildPendingConfig (n\<lparr>nLog := take (unat off) (nLog n)\<rparr>)
                else Some n }) = Some n1"
    using assms by (auto simp: onAppendEntry_def Let_def bind_eq_Some_conv)
  have q1: "quiet n n1"
    using n1 quiet_trans [OF quiet_update(5) rebuildPendingConfig_quiet]
    by (auto simp: bind_eq_Some_conv split: option.splits if_splits)
  obtain e st where st: "AppendEntry S ?at (mEntry m) (nStore n1) = (e, st)" by fastforce
  have q2: "quiet n (n1\<lparr>nStore := st\<rparr>)" using quiet_trans [OF q1 append_store_quiet [OF st]] .
  then have q3: "quiet n (n1\<lparr>nStore := st, nLog := l\<rparr>)" "quiet n (n1\<lparr>nStore := st, nLog := l, nPendingConfig := i\<rparr>)"
    for l i by (simp_all add: quiet_def)
  have q4: "quiet n n'" if "ensurePeers msk (n1\<lparr>nStore := st, nLog := l, nPendingConfig := i\<rparr>) = Some n'"
    for msk l i n' using quiet_trans [OF q3(2) ensurePeers_quiet [OF that]] .
  show ?thesis
    using assms n1 st q1 q3 q4 quiet_trans [OF q2 failStorage_quiet(2)]
    by (auto simp: onAppendEntry_def Let_def split: if_splits option.splits)
qed

lemma onAppendCommit_quiet [quiet_ops]:
  assumes "onAppendCommit S m n = Some r" and "synced n"
  shows "quiet n (case r of Inl n' \<Rightarrow> n' | Inr n' \<Rightarrow> n')"
proof -
  let ?c = "min (mCommit m) (if mHasEntry m then mLogIndex m + 1 else mLogIndex m)"
  obtain ok n1 where n1: "persistHardState S
      \<lparr>hTerm = nTerm n, hVotedFor = nVotedFor n, hCommit = ?c\<rparr> n = (ok, n1)" by fastforce
  have q1: "quiet n n1" using persist_commit_quiet [OF n1 assms(2)] .
  have q2: "quiet n n2" if "applyCommittedConfigurations lo hi (n1\<lparr>nCommit := i\<rparr>) = Some n2" for lo hi i n2
    using quiet_trans [OF quiet_trans [OF q1 quiet_update(6)] applyCommittedConfigurations_quiet [OF that]] .
  show ?thesis
    using assms(1) n1 q1 q2 by (auto simp: onAppendCommit_def Let_def split: if_splits)
qed

lemma appendReply_quiet [quiet_ops]: "appendReply m b i n = Some n' \<Longrightarrow> quiet n n'"
  by (auto simp: appendReply_def dest: send_quiet)

lemma onAppend_quiet [quiet_ops]:
  assumes "onAppend S m n = Some n'" and "synced n"
  shows "quiet n n'"
proof -
  let ?n1 = "n\<lparr>nState := Follower, nLeader := mFrom m, nElapsed := 0\<rparr>"
  have q1: "quiet n ?n1" by (simp add: quiet_def)
  obtain prevTerm present where t: "termAt n (mLogIndex m) = Some (prevTerm, present)"
    using assms(1) by (auto simp: onAppend_def bind_eq_Some_conv)
  let ?reject = "(mTerm m < nTerm n \<or> \<not> present \<or> prevTerm \<noteq> mLogTerm m) \<or>
       mHasEntry m \<and> mLogIndex m + 1 = lastIndex n + 1 \<and> \<not> validNewEntry n (mEntry m)"
  show ?thesis
  proof (cases ?reject)
    case True
    then show ?thesis using assms(1) t appendReply_quiet by (simp add: onAppend_def)
  next
    case False
    then obtain r1 where r1: "(if mHasEntry m then onAppendEntry S m ?n1 else Some (Inr ?n1)) = Some r1"
      and cont: "(case r1 of
         Inl n2 \<Rightarrow> Some n2
       | Inr n2 \<Rightarrow> do {
           r2 \<leftarrow> onAppendCommit S m n2;
           case r2 of
             Inl n3 \<Rightarrow> Some n3
           | Inr n3 \<Rightarrow>
               appendReply m False (if mHasEntry m then mLogIndex m + 1 else mLogIndex m) n3 }) = Some n'"
      using assms(1) t by (auto simp: onAppend_def Let_def bind_eq_Some_conv)
    have q2: "quiet n (case r1 of Inl n' \<Rightarrow> n' | Inr n' \<Rightarrow> n')"
      using r1 q1 quiet_trans [OF q1 onAppendEntry_quiet] by (auto split: if_splits)
    have q3: "quiet n (case r2 of Inl n' \<Rightarrow> n' | Inr n' \<Rightarrow> n')"
      if "r1 = Inr n2" "onAppendCommit S m n2 = Some r2" for n2 r2
    proof -
      have "quiet n n2" using q2 that(1) by simp
      then show ?thesis
        using onAppendCommit_quiet [OF that(2)] quiet_synced [OF _ assms(2)] quiet_trans by blast
    qed
    show ?thesis
    proof (cases r1)
      case (Inr n2)
      then obtain r2 where r2: "onAppendCommit S m n2 = Some r2"
        and cont2: "(case r2 of Inl n3 \<Rightarrow> Some n3 | Inr n3 \<Rightarrow>
               appendReply m False (if mHasEntry m then mLogIndex m + 1 else mLogIndex m) n3) = Some n'"
        using cont by (auto simp: bind_eq_Some_conv)
      then show ?thesis
        using q3 [OF Inr r2] quiet_trans appendReply_quiet by (fastforce split: sum.splits)
    qed (use q2 cont in auto)
  qed
qed

lemma advanceCommit_quiet [quiet_ops]:
  assumes "advanceCommit S n = Some r" and "synced n"
  shows "quiet n (case r of Inl n' \<Rightarrow> n' | Inr n' \<Rightarrow> n')"
proof -
  obtain found where f: "commitScan n (lastIndex n) = Some found"
    using assms(1) by (auto simp: advanceCommit_def bind_eq_Some_conv)
  show ?thesis
  proof (cases found)
    case None
    then show ?thesis using f assms(1) by (auto simp: advanceCommit_def)
  next
    case (Some index)
    obtain ok n1 where n1: "persistHardState S
        \<lparr>hTerm = nTerm n, hVotedFor = nVotedFor n, hCommit = index\<rparr> n = (ok, n1)" by fastforce
    have q1: "quiet n n1" using persist_commit_quiet [OF n1 assms(2)] .
    have q2: "quiet n n2" if "applyCommittedConfigurations lo hi (n1\<lparr>nCommit := i\<rparr>) = Some n2" for lo hi i n2
      using quiet_trans [OF quiet_trans [OF q1 quiet_update(6)] applyCommittedConfigurations_quiet [OF that]] .
    show ?thesis
      using assms(1) f Some n1 q1 q2 quiet_trans [OF q2 broadcastAppend_quiet]
      by (auto simp: advanceCommit_def Let_def bind_eq_Some_conv split: if_splits)
  qed
qed

lemma readAck_quiet [quiet_ops]:
  assumes "readAck m n = Some n'"
  shows "quiet n n'"
proof -
  have q: "quiet n (n\<lparr>nReadAckMask := a\<rparr>)" "quiet n (n\<lparr>nReadAckMask := a, nReadIndex := i, nReadReady := b\<rparr>)"
    for a i b by (simp_all add: quiet_def)
  show ?thesis
  proof (cases "nState n = Leader \<and> mTerm m = nTerm n \<and> \<not> mReject m \<and> mContext m \<noteq> 0 \<and>
         mContext m = nReadContext n")
    case True
    then show ?thesis
      using assms q by (auto simp: readAck_def bind_eq_Some_conv Let_def split: if_splits)
  next
    case False
    then show ?thesis using assms by (auto simp: readAck_def)
  qed
qed

lemma onAppendResponse_quiet [quiet_ops]:
  assumes "onAppendResponse S m n0 = Some n'" and "synced n0"
  shows "quiet n0 n'"
proof -
  obtain n where n: "readAck m n0 = Some n" using assms(1) by (auto simp: onAppendResponse_def bind_eq_Some_conv)
  have q1: "quiet n0 n" using n by (rule readAck_quiet)
  let ?n1 = "n\<lparr>nMatch := (nMatch n)(mFrom m := mMatch m), nNext := (nNext n)(mFrom m := mMatch m + 1)\<rparr>"
  have q2: "quiet n0 ?n1" using q1 by (simp add: quiet_def)
  have q3: "quiet n0 (case r of Inl n' \<Rightarrow> n' | Inr n' \<Rightarrow> n')" if "advanceCommit S ?n1 = Some r" for r
    using quiet_trans [OF q2 advanceCommit_quiet [OF that quiet_synced [OF q2 assms(2)]]] .
  have q4: "quiet n0 n'" if "advanceCommit S ?n1 = Some (Inr n2)" "appendTo p n2 = Some n'" for p n2 n'
    using quiet_trans [OF _ appendTo_quiet [OF that(2)], of n0] q3 [OF that(1)] by simp
  have q5: "quiet n0 n'" if "appendTo p (n\<lparr>nNext := x\<rparr>) = Some n'" for p x n'
    using quiet_trans [OF quiet_trans [OF q1 quiet_update(1)] appendTo_quiet [OF that]] .
  show ?thesis
  proof (cases "nState n \<noteq> Leader \<or> mTerm m \<noteq> nTerm n \<or> mMatch m \<ge> lastIndex n + 1")
    case True
    then show ?thesis using assms(1) n q1 by (simp add: onAppendResponse_def)
  next
    case False
    show ?thesis
    proof (cases "mReject m")
      case True
      then show ?thesis
        using assms(1) n False q5 quiet_trans [OF q1 appendTo_quiet]
        by (auto simp: onAppendResponse_def split: if_splits)
    next
      case acc: False
      then obtain r where r: "advanceCommit S ?n1 = Some r"
        and cont: "(case r of Inl n2 \<Rightarrow> Some n2 | Inr n2 \<Rightarrow> if nState n2 \<noteq> Leader then Some n2
           else if nNext n2 (mFrom m) < lastIndex n2 + 1 then appendTo (mFrom m) n2 else Some n2) = Some n'"
        using assms(1) n False by (auto simp: onAppendResponse_def Let_def bind_eq_Some_conv)
      then show ?thesis
        using q3 [OF r] q4 by (auto split: sum.splits if_splits)
    qed
  qed
qed

lemma installSnapshot_quiet [quiet_ops]:
  assumes "installSnapshot S m n = Some r"
  shows "quiet n (case r of Inl n' \<Rightarrow> n' | Inr n' \<Rightarrow> n')"
proof (cases "asSnapshotStore S")
  case None
  then show ?thesis using assms failStorage_quiet(1) by (auto simp: installSnapshot_def)
next
  case (Some SS)
  define sn where "sn = \<lparr>sLastIndex = mSnapshotIndex m, sLastTerm = mSnapshotTerm m,
                sState = mSnapshot m, sOldVoters = mSnapshotOld m, sNewVoters = mSnapshotNew m\<rparr>"
  obtain e st where st: "SaveSnapshot SS sn (nStore n) = (e, st)" by fastforce
  obtain e' st' where st': "CompactLog SS (sLastIndex sn) st = (e', st')" by fastforce
  have h: "hard_of st = hard n" "hard_of st' = hard n"
      "store_run S (nStore n) st" "store_run S (nStore n) st'"
    using snapshot_hard [OF Some st] compact_hard [OF Some st'] store_run_one(3) [OF Some st]
      run_compact [OF _ Some st'] by simp_all
  then have q: "quiet n (failStorageWith x (n\<lparr>nStore := st\<rparr>))" "quiet n (failStorageWith x (n\<lparr>nStore := st'\<rparr>))"
    "quiet n (n\<lparr>nStore := st', nLog := l, nBaseIndex := i, nBaseTerm := t, nSnapshot := sn,
      nVotersOld := v, nVotersNew := w, nCommit := c, nApplied := a\<rparr>)" for x l i t v w c a
    by (simp_all add: quiet_def failStorageWith_def failStorage_def)
  show ?thesis
    using assms Some st st' q
    by (auto simp: installSnapshot_def sn_def [symmetric] Let_def bind_eq_Some_conv
        split: option.splits)
qed

lemma onInstallSnapshot_quiet [quiet_ops]:
  assumes "onInstallSnapshot S m n = Some n'"
  shows "quiet n n'"
proof -
  let ?reject = "mTerm m < nTerm n \<or> mSnapshotIndex m < nBaseIndex n \<or> mSnapshotOld m = 0 \<or>
       mSnapshotIndex m = nBaseIndex n \<and> mSnapshotTerm m \<noteq> nBaseTerm n"
  obtain r where r: "(if \<not> ?reject \<and> mSnapshotIndex m > nBaseIndex n then installSnapshot S m n
           else Some (Inr n)) = Some r"
    using assms by (auto simp: onInstallSnapshot_def Let_def bind_eq_Some_conv)
  have q: "quiet n (case r of Inl n' \<Rightarrow> n' | Inr n' \<Rightarrow> n')"
    using r by (auto split: if_splits dest!: installSnapshot_quiet)
  show ?thesis
  proof (cases r)
    case (Inl n1)
    then show ?thesis using q r assms by (simp add: onInstallSnapshot_def Let_def)
  next
    case (Inr n1)
    let ?n2 = "if \<not> ?reject then n1\<lparr>nState := Follower, nLeader := mFrom m, nElapsed := 0\<rparr> else n1"
    have "quiet n ?n2" using q Inr by (simp add: quiet_def)
    moreover obtain m' where "send m' ?n2 = Some n'" "mType m' \<noteq> MsgRequestVoteResponse"
      using Inr r assms that by (fastforce simp: onInstallSnapshot_def Let_def)
    ultimately show ?thesis using send_quiet quiet_trans by blast
  qed
qed

lemma onInstallSnapshotResponse_quiet [quiet_ops]:
  assumes "onInstallSnapshotResponse m n = Some n'"
  shows "quiet n n'"
proof -
  have "quiet n n'" if "appendTo p (n\<lparr>nMatch := x, nNext := y\<rparr>) = Some n'" for p x y
    using appendTo_quiet [OF that] by (simp add: quiet_def)
  moreover have "quiet n (n\<lparr>nMatch := x, nNext := y\<rparr>)" for x y by (simp add: quiet_def)
  ultimately show ?thesis
    using assms appendTo_quiet
    by (fastforce simp: onInstallSnapshotResponse_def Let_def bind_eq_Some_conv split: if_splits)
qed

lemma onPreVote_quiet [quiet_ops]: "onPreVote m n = Some n' \<Longrightarrow> quiet n n'"
  by (auto simp: onPreVote_def Let_def bind_eq_Some_conv dest!: send_quiet)

lemma Compact_quiet [quiet_ops]:
  assumes "Compact S i bs n = Some (b, n')"
  shows "quiet n n'"
proof (cases "asSnapshotStore S")
  case None
  then show ?thesis using assms failStorage_quiet(1)
    by (auto simp: Compact_def bind_eq_Some_conv split: if_splits)
next
  case (Some SS)
  obtain t ok where t: "i \<le> nBaseIndex n \<or> i > nApplied n \<or> termAt n i = Some (t, ok)"
    using assms by (auto simp: Compact_def bind_eq_Some_conv split: if_splits)
  define sn where "sn = \<lparr>sLastIndex = i, sLastTerm = t, sState = bs,
                sOldVoters = nVotersOld n, sNewVoters = nVotersNew n\<rparr>"
  obtain e st where st: "SaveSnapshot SS sn (nStore n) = (e, st)" by fastforce
  obtain e' st' where st': "CompactLog SS i st = (e', st')" by fastforce
  have h: "hard_of st = hard n" "hard_of st' = hard n"
      "store_run S (nStore n) st" "store_run S (nStore n) st'"
    using snapshot_hard [OF Some st] compact_hard [OF Some st'] store_run_one(3) [OF Some st]
      run_compact [OF _ Some st'] by simp_all
  then have q: "quiet n (failStorageWith x (n\<lparr>nStore := st\<rparr>))" "quiet n (failStorageWith x (n\<lparr>nStore := st'\<rparr>))"
    "quiet n (n\<lparr>nStore := st', nLog := l, nBaseIndex := i, nBaseTerm := t, nSnapshot := sn\<rparr>)"
    "quiet n (n\<lparr>nStore := st', nBaseIndex := i, nBaseTerm := t, nSnapshot := sn\<rparr>)" for x l
    by (simp_all add: quiet_def failStorageWith_def failStorage_def)
  show ?thesis
    using assms Some t st st' q
    by (auto simp: Compact_def sn_def [symmetric] Let_def bind_eq_Some_conv
        split: option.splits if_splits)
qed

lemma StartReadIndex_quiet [quiet_ops]:
  assumes "StartReadIndex c n = Some (b, n')"
  shows "quiet n n'"
proof -
  have "quiet n n3" if "foldM (\<lambda>p n. appendToContext p c n) ps n2 = Some n3" "quiet n n2" for n2 n3 ps
    using quiet_trans [OF that(2) quiet_foldM [OF that(1)]] appendToContext_quiet by blast
  moreover have "quiet n (n\<lparr>nReadContext := c, nReadAckMask := a, nReadReady := r, nReadIndex := i\<rparr>)"
    "quiet n (n\<lparr>nReadContext := c, nReadAckMask := a, nReadReady := r\<rparr>)" for a r i
    by (simp_all add: quiet_def)
  ultimately show ?thesis
    using assms by (auto simp: StartReadIndex_def Let_def bind_eq_Some_conv split: if_splits)
qed

lemma TransferLeadership_quiet [quiet_ops]:
  assumes "TransferLeadership p n = Some (b, n')"
  shows "quiet n n'"
proof -
  have "quiet n n'" if "send (zero_Message\<lparr>mType := MsgTimeoutNow, mFrom := i, mTo := p, mTerm := t\<rparr>) n = Some n'"
    for i t using that by (rule send_quiet) simp
  then show ?thesis using assms appendTo_quiet
    by (auto simp: TransferLeadership_def bind_eq_Some_conv split: if_splits)
qed

lemma proposeEntry_quiet [quiet_ops]:
  assumes "proposeEntry S e n = Some (b, n')" and "synced n"
  shows "quiet n n'"
proof -
  obtain ok n1 where n1: "appendLocal S e n = Some (ok, n1)"
    using assms(1) by (auto simp: proposeEntry_def bind_eq_Some_conv)
  have "quiet n n1" using appendLocal_quiet [OF n1 assms(2)] .
  then show ?thesis using assms(1) n1 quiet_trans [OF _ broadcastAppend_quiet]
    by (auto simp: proposeEntry_def split: if_splits)
qed

lemma Propose_quiet [quiet_ops]: "Propose S c n = Some (b, n') \<Longrightarrow> synced n \<Longrightarrow> quiet n n'"
  by (auto simp: Propose_def dest: proposeEntry_quiet split: if_splits)

lemma ProposeRequest_quiet [quiet_ops]:
  "ProposeRequest S op cid rid k v n = Some (b, n') \<Longrightarrow> synced n \<Longrightarrow> quiet n n'"
  by (auto simp: ProposeRequest_def dest: proposeEntry_quiet split: if_splits)

lemma config_broadcast_quiet:
  "quiet n n2 \<Longrightarrow> broadcastAppend (n2\<lparr>nPendingConfig := i\<rparr>) = Some n' \<Longrightarrow> quiet n n'"
  using quiet_trans [OF quiet_trans [OF _ quiet_update(3)] broadcastAppend_quiet] by blast

lemma ProposeJoint_quiet [quiet_ops]:
  assumes "ProposeJoint S vs n = Some (b, n')" and "synced n"
  shows "quiet n n'"
proof -
  obtain newMask ok where v: "voterMask vs = Some (newMask, ok)"
    using assms(1) by (auto simp: ProposeJoint_def bind_eq_Some_conv)
  show ?thesis
  proof (cases "\<not> ok \<or> nState n \<noteq> Leader \<or> nFaulted n \<or> nVotersNew n \<noteq> 0 \<or> nPendingConfig n \<noteq> 0")
    case True
    then show ?thesis using assms(1) v by (auto simp: ProposeJoint_def)
  next
    case False
    then obtain n1 ok' n2 where n1: "ensurePeers newMask n = Some n1"
      and n2: "appendLocal S (zero_Entry\<lparr>eTerm := nTerm n1, eKind := EntryJointConfig,
         eOldVoters := nVotersOld n1, eNewVoters := newMask\<rparr>) n1 = Some (ok', n2)"
      and cont: "(if \<not> ok' then Some (False, n2)
         else map_option (Pair True) (broadcastAppend (n2\<lparr>nPendingConfig := lastIndex n2\<rparr>))) = Some (b, n')"
      using assms(1) v by (auto simp: ProposeJoint_def bind_eq_Some_conv)
    have "quiet n n1" using ensurePeers_quiet [OF n1] .
    then have "quiet n n2"
      using appendLocal_quiet [OF n2] quiet_synced [OF _ assms(2)] quiet_trans by blast
    then show ?thesis using cont config_broadcast_quiet by (auto split: if_splits)
  qed
qed

lemma ProposeFinal_quiet [quiet_ops]:
  assumes "ProposeFinal S n = Some (b, n')" and "synced n"
  shows "quiet n n'"
  using assms config_broadcast_quiet [OF appendLocal_quiet [OF _ assms(2)]]
    appendLocal_quiet [OF _ assms(2)]
  by (auto simp: ProposeFinal_def bind_eq_Some_conv split: if_splits)

lemma ApplyEntries_quiet [quiet_ops]:
  "ApplyEntries dst n = Some (es, n') \<Longrightarrow> quiet n n'"
proof (induction dst n rule: ApplyEntries.induct)
  case (1 dst n)
  have q: "quiet n (n\<lparr>nApplied := i\<rparr>)" for i by (simp add: quiet_def)
  show ?case
    using "1.prems" "1.IH" quiet_trans [OF q] unfolding ApplyEntries.simps [of dst n]
    by (fastforce simp: Let_def bind_eq_Some_conv split: if_splits)
qed

lemma Drain_quiet [quiet_ops]: "quiet n (snd (Drain dst n))"
  by (simp add: Drain_def quiet_def)

end

end
