(* ===== verification/Raft_Vote.thy ===== *)
theory Raft_Vote
  imports Raft_Quiet
begin

text \<open>
  What the remaining operations of \<^verbatim>\<open>raft/node.go\<close> do to the election state: stepping down,
  voting, and standing for election, and from them what \<open>Step\<close> and \<open>Tick\<close> do (\<open>outcome\<close>).
  Proved for an arbitrary store that satisfies \<open>hard_store\<close>.
\<close>

subsection \<open>Votes\<close>

text \<open>
  The history \<open>H\<close> collects every vote \<open>(term, voter, candidate)\<close> a store has ever held, the voter
  given by its bit position. \<open>node_inv\<close> ties a node to it: the vote in the store is recorded, a
  candidate's or leader's vote mask counts only recorded votes for it, and every granted vote
  response the node has queued is recorded.
\<close>

type_synonym votes = "(u64 \<times> nat \<times> u32) set"

lemma effectiveVoters_cong:
  "nLog n' = nLog n \<Longrightarrow> nCommit n' = nCommit n \<Longrightarrow> nBaseIndex n' = nBaseIndex n \<Longrightarrow>
   nVotersOld n' = nVotersOld n \<Longrightarrow> nVotersNew n' = nVotersNew n \<Longrightarrow>
   effectiveVoters n' = effectiveVoters n"
  by (simp add: effectiveVoters_def entryAt_def offset_def lastIndex_def cong: if_cong)

lemma quorumMask_Some:
  "quorumMask n msk = Some b \<Longrightarrow>
    \<exists>V W. effectiveVoters n = Some (V, W) \<and> b = joint_quorum V W msk"
  by (auto simp: quorumMask_def bind_eq_Some_conv joint_quorum_def)

lemma send_eq: "send m n = Some n' \<Longrightarrow> n' = n\<lparr>nOutbound := nOutbound n @ [m]\<rparr>"
  by (auto simp: send_def split: if_splits)

lemma foldM_sends:
  assumes "foldM f ps n = Some n'"
    and "\<And>p n n'. f p n = Some n' \<Longrightarrow> \<exists>m. send m n = Some n' \<and> mType m \<noteq> MsgRequestVoteResponse"
  shows "\<exists>ms. n' = n\<lparr>nOutbound := nOutbound n @ ms\<rparr> \<and> grants ms = {}"
  using assms(1)
proof (rule foldM_invariant [where P = "\<lambda>n'. \<exists>ms. n' = n\<lparr>nOutbound := nOutbound n @ ms\<rparr> \<and> grants ms = {}"])
  fix p n1 n2
  assume "f p n1 = Some n2" and "\<exists>ms. n1 = n\<lparr>nOutbound := nOutbound n @ ms\<rparr> \<and> grants ms = {}"
  then obtain m ms where "send m n1 = Some n2" "mType m \<noteq> MsgRequestVoteResponse"
      "n1 = n\<lparr>nOutbound := nOutbound n @ ms\<rparr>" "grants ms = {}"
    using assms(2) by blast
  then show "\<exists>ms. n2 = n\<lparr>nOutbound := nOutbound n @ ms\<rparr> \<and> grants ms = {}"
    by (intro exI [of _ "ms @ [m]"]) (auto dest: send_eq)
qed (auto intro: exI [of _ "[]"])

definition recordVote :: "('s \<Rightarrow> HardState) \<Rightarrow> votes \<Rightarrow> 's Node \<Rightarrow> votes" where
  "recordVote hard_of H n = (let h = hard_of (nStore n) in
     if hVotedFor h = 0 then H else insert (hTerm h, idx (nID n), hVotedFor h) H)"

context hard_store
begin

abbreviation record_vote :: "votes \<Rightarrow> 's Node \<Rightarrow> votes" where
  "record_vote \<equiv> recordVote hard_of"

lemma record_vote_def: "record_vote H n = (if hVotedFor (hard n) = 0 then H
     else insert (hTerm (hard n), idx (nID n), hVotedFor (hard n)) H)"
  by (simp add: recordVote_def Let_def)

definition node_inv :: "votes \<Rightarrow> 's Node \<Rightarrow> bool" where
  "node_inv H n \<longleftrightarrow> synced n \<and>
     (hVotedFor (hard n) \<noteq> 0 \<longrightarrow> (hTerm (hard n), idx (nID n), hVotedFor (hard n)) \<in> H) \<and>
     (nState n \<noteq> Follower \<longrightarrow> (\<forall>k. bit (nVoteMask n) k \<longrightarrow> (nTerm n, k, nID n) \<in> H)) \<and>
     (\<forall>m \<in> grants (nOutbound n). mFrom m = nID n \<and> (mTerm m, idx (nID n), mTo m) \<in> H)"

definition won :: "'s Node \<Rightarrow> 's Node \<Rightarrow> bool" where
  "won n n' \<longleftrightarrow> (\<exists>V W. effectiveVoters n = Some (V, W) \<and> joint_quorum V W (nVoteMask n'))"

definition outcome :: "votes \<Rightarrow> 's Node \<Rightarrow> 's Node \<Rightarrow> bool" where
  "outcome H n n' \<longleftrightarrow> node_inv (record_vote H n') n' \<and> hard_le (hard n) (hard n') \<and>
     nID n' = nID n \<and> store_run S (nStore n) (nStore n') \<and>
     (nState n' = Leader \<longrightarrow> nState n = Leader \<and> nTerm n' = nTerm n \<or> won n n')"

lemma node_inv_mono: "node_inv H n \<Longrightarrow> H \<subseteq> H' \<Longrightarrow> node_inv H' n"
  unfolding node_inv_def by blast

lemma record_vote_mono: "H \<subseteq> record_vote H n"
  by (auto simp: record_vote_def)

lemma record_vote_quiet: "quiet n n' \<Longrightarrow> record_vote H n' = record_vote H n"
  by (simp add: record_vote_def quiet_def)

lemma node_inv_quiet:
  assumes "node_inv H n" and "quiet n n'"
  shows "node_inv H n'"
proof -
  have "nState n \<noteq> Follower" if "nState n' \<noteq> Follower" using assms(2) that by (auto simp: quiet_def)
  moreover have "grants (nOutbound n') \<subseteq> grants (nOutbound n)" using assms(2) by (simp add: quiet_def)
  moreover have "synced n'" using assms quiet_synced node_inv_def by blast
  ultimately show ?thesis using assms unfolding node_inv_def quiet_def by (simp add: subset_iff)
qed

lemma outcome_quiet: "node_inv H n \<Longrightarrow> quiet n n' \<Longrightarrow> outcome H n n'"
  using node_inv_mono [OF node_inv_quiet record_vote_mono]
  by (auto simp: outcome_def quiet_def hard_le_def)

lemma outcome_after_quiet:
  assumes "outcome H n n1" and "quiet n1 n2"
  shows "outcome H n n2"
proof -
  have "node_inv (record_vote H n2) n2"
    using assms node_inv_quiet record_vote_quiet by (metis outcome_def)
  moreover have "hard_le (hard n1) (hard n2)" using assms(2) by (simp add: quiet_def hard_le_def)
  ultimately show ?thesis
    using assms hard_le_trans store_run_trans
    by (auto simp: outcome_def quiet_def won_def)
qed

lemma node_inv_promote:
  "node_inv H n \<Longrightarrow> nState n \<noteq> Follower \<Longrightarrow> node_inv H (n\<lparr>nState := x\<rparr>)"
  by (auto simp: node_inv_def synced_def)

lemma record_vote_state [simp]: "record_vote H (n\<lparr>nState := x\<rparr>) = record_vote H n"
  by (simp add: record_vote_def)

lemma startElection_outcome:
  assumes "startElection S n = Some n'" and inv: "node_inv H n" and "nState n \<noteq> Leader"
  shows "outcome H n n'"
proof -
  let ?h = "\<lparr>hTerm = nTerm n + 1, hVotedFor = nID n, hCommit = nCommit n\<rparr>"
  obtain ok n1 where n1: "persistHardState S ?h n = (ok, n1)" by fastforce
  then show ?thesis
  proof (cases rule: persistHardState_cases)
    case failed
    then show ?thesis using assms n1 outcome_quiet by (simp add: startElection_def Let_def)
  next
    case (saved st)
    let ?n2 = "\<lambda>b. n1\<lparr>nState := Candidate, nTerm := nTerm n + 1, nVotedFor := nID n1, nElapsed := 0,
         nVoteMask := b, nPreVoteMask := 0\<rparr>"
    obtain b n3 q where b: "nodeBit (nID n1) = Some b"
      and n3: "foldM (\<lambda>p n. do {
           t \<leftarrow> termAtMust n (lastIndex (?n2 b));
           send (zero_Message\<lparr>mType := MsgRequestVote, mFrom := nID n, mTo := p, mTerm := nTerm n,
             mLogIndex := lastIndex (?n2 b), mLogTerm := t\<rparr>) n }) (nPeers (?n2 b)) (?n2 b) = Some n3"
      and q: "quorumMask n3 (nVoteMask n3) = Some q"
      and n': "(if q then becomeLeader S n3 else Some n3) = Some n'"
      using assms(1) saved(1) unfolding startElection_def Let_def n1
      by (simp add: bind_eq_Some_conv) blast
    have "\<exists>ms. n3 = (?n2 b)\<lparr>nOutbound := nOutbound (?n2 b) @ ms\<rparr> \<and> grants ms = {}"
      using n3 by (rule foldM_sends) (fastforce simp: bind_eq_Some_conv)
    then obtain ms where ms: "n3 = (?n2 b)\<lparr>nOutbound := nOutbound n @ ms\<rparr>" "grants ms = {}"
      using saved(2) by auto
    have b': "valid_id (nID n)" "bits_of b = {idx (nID n)}" using b saved(2) by (auto simp: nodeBit_bits)
    then have id0: "nID n \<noteq> 0" by (auto simp: valid_id_def)
    have n3_eq: "nID n3 = nID n" "nTerm n3 = nTerm n + 1" "nVotedFor n3 = nID n" "hard n3 = ?h"
      "nVoteMask n3 = b" "grants (nOutbound n3) = grants (nOutbound n)" "nState n3 = Candidate"
      using ms saved by simp_all
    have rec: "record_vote H n3 = insert (nTerm n + 1, idx (nID n), nID n) H"
      using n3_eq id0 by (simp add: record_vote_def)
    have bit_b: "bit b k \<longleftrightarrow> k = idx (nID n)" for k using b'(2) by (simp add: set_eq_iff)
    have inv3: "node_inv (record_vote H n3) n3"
      using inv unfolding node_inv_def synced_def rec n3_eq by (simp add: bit_b)
    have o3: "outcome H n n3"
      using inv3 n3_eq saved(2,4,5) ms(1) by (simp add: outcome_def)
    have eff: "effectiveVoters n3 = effectiveVoters n"
      using ms saved by (intro effectiveVoters_cong) auto
    show ?thesis
    proof (cases q)
      case False
      then show ?thesis using o3 n' by simp
    next
      case True
      have "synced n3" using inv3 by (simp add: node_inv_def)
      then have lead: "quiet (n3\<lparr>nState := Leader\<rparr>) n'" using becomeLeader_quiet True n' by simp
      have "won n (n3\<lparr>nState := Leader\<rparr>)"
        using quorumMask_Some [OF q] True eff by (auto simp: won_def)
      then have "outcome H n (n3\<lparr>nState := Leader\<rparr>)"
        using o3 node_inv_promote [OF inv3, of Leader] n3_eq(7) by (simp add: outcome_def)
      then show ?thesis using lead outcome_after_quiet by blast
    qed
  qed
qed

lemma outcome_cong_before:
  assumes "outcome H n1 n'" and "nStore n1 = nStore n" and "nID n1 = nID n" and "nState n1 = nState n"
    and "nTerm n1 = nTerm n" and "effectiveVoters n1 = effectiveVoters n"
  shows "outcome H n n'"
  using assms by (simp add: outcome_def won_def)

lemma startPreVote_outcome:
  assumes "startPreVote S n = Some n'" and inv: "node_inv H n" and "nState n \<noteq> Leader"
  shows "outcome H n n'"
proof -
  let ?n1 = "\<lambda>b. n\<lparr>nElapsed := 0, nPreVoteTerm := nTerm n + 1, nLeader := 0, nPreVoteMask := b\<rparr>"
  obtain b n2 q where n2: "foldM (\<lambda>p n. do {
         t \<leftarrow> termAtMust n (lastIndex (?n1 b));
         send (zero_Message\<lparr>mType := MsgPreVote, mFrom := nID n, mTo := p, mTerm := nPreVoteTerm n,
           mLogIndex := lastIndex (?n1 b), mLogTerm := t\<rparr>) n }) (nPeers (?n1 b)) (?n1 b) = Some n2"
    and n': "(if q then startElection S n2 else Some n2) = Some n'"
    using assms(1) by (auto simp: startPreVote_def Let_def bind_eq_Some_conv)
  obtain ms where ms: "n2 = (?n1 b)\<lparr>nOutbound := nOutbound n @ ms\<rparr>" "grants ms = {}"
    using foldM_sends [OF n2] by (fastforce simp: bind_eq_Some_conv)
  have q2: "quiet n n2" using ms by (simp add: quiet_def)
  have eff: "effectiveVoters n2 = effectiveVoters n" using ms by (intro effectiveVoters_cong) auto
  show ?thesis
  proof (cases q)
    case False
    then show ?thesis using n' q2 inv outcome_quiet by simp
  next
    case True
    then have "outcome H n2 n'"
      using n' assms(3) ms node_inv_quiet [OF inv q2] by (intro startElection_outcome) auto
    then show ?thesis by (rule outcome_cong_before) (use ms eff in auto)
  qed
qed

lemma Tick_outcome:
  assumes "Tick S n = Some n'" and "node_inv H n"
  shows "outcome H n n'"
proof -
  let ?n1 = "n\<lparr>nElapsed := nElapsed n + 1\<rparr>"
  have inv1: "node_inv H ?n1" using node_inv_quiet [OF assms(2) quiet_update(4)] .
  have eff: "effectiveVoters ?n1 = effectiveVoters n" by (rule effectiveVoters_cong) auto
  have pre: "outcome H n n'" if "startPreVote S ?n1 = Some n'" "nState n \<noteq> Leader"
  proof -
    have "outcome H ?n1 n'" using startPreVote_outcome [OF that(1) inv1] that(2) by simp
    then show ?thesis by (rule outcome_cong_before) (simp_all add: eff)
  qed
  have bc: "outcome H n n'" if "broadcastAppend (?n1\<lparr>nElapsed := 0\<rparr>) = Some n'"
    using broadcastAppend_quiet [OF that] assms(2) by (intro outcome_quiet) (auto simp: quiet_def)
  have same: "outcome H n n" "outcome H n ?n1"
    using outcome_quiet [OF assms(2)] quiet_update(4) by simp_all
  show ?thesis
  proof (cases "nFaulted n")
    case True
    then show ?thesis using assms(1) same by (simp add: Tick_def)
  next
    case False
    then show ?thesis
      using assms(1) pre bc same by (cases "nState n = Leader") (auto simp: Tick_def Let_def split: if_splits)
  qed
qed

text \<open>A vote response that reaches a node must be recorded: it was granted by its sender.\<close>

definition msg_ok :: "votes \<Rightarrow> Message \<Rightarrow> bool" where
  "msg_ok H m \<longleftrightarrow> (m \<in> grants [m] \<longrightarrow> (mTerm m, idx (mFrom m), mTo m) \<in> H)"

lemma stepDown_cases:
  assumes "stepDown S m n = (b, n1)"
  obtains (same) "b" "n1 = n"
  | (failed) "\<not> b" "quiet n n1" "nState n1 = Follower" "effectiveVoters n1 = effectiveVoters n"
  | (bumped) st where "b" "hard_of st = \<lparr>hTerm = mTerm m, hVotedFor = 0, hCommit = nCommit n\<rparr>"
      "hard_le (hard n) (hard_of st)" "store_run S (nStore n) st"
      "n1 = n\<lparr>nStore := st, nState := Follower, nTerm := mTerm m, nVotedFor := 0,
             nLeader := 0, nReadReady := False\<rparr>"
proof (cases "\<not> (mType m = MsgPreVote \<or> mType m = MsgPreVoteResponse) \<and> mTerm m > nTerm n")
  case False
  then show ?thesis using assms same by (auto simp: stepDown_def)
next
  case True
  let ?h = "\<lparr>hTerm = mTerm m, hVotedFor = 0, hCommit = nCommit n\<rparr>"
  obtain ok n0 where n0: "persistHardState S ?h n = (ok, n0)" by fastforce
  then have eff0: "effectiveVoters n0 = effectiveVoters n"
    by (intro effectiveVoters_cong)
      (auto simp: persistHardState_def failStorageWith_def failStorage_def split: prod.splits option.splits)
  from n0 show ?thesis
  proof (cases rule: persistHardState_cases)
    case (saved st)
    then show ?thesis using True assms n0 bumped by (simp add: stepDown_def)
  next
    case f: failed
    then show ?thesis using True assms n0 failed eff0 by (simp add: stepDown_def)
  qed
qed

lemma stepDown_inv:
  assumes "stepDown S m n = (b, n1)" and inv: "node_inv H n"
  shows "node_inv H n1 \<and> hard_le (hard n) (hard n1) \<and> nID n1 = nID n \<and>
    store_run S (nStore n) (nStore n1) \<and>
    effectiveVoters n1 = effectiveVoters n \<and>
    (nState n1 = Leader \<longrightarrow> nState n = Leader \<and> nTerm n1 = nTerm n) \<and>
    (\<not> b \<longrightarrow> quiet n n1)"
  using assms(1)
proof (cases rule: stepDown_cases)
  case same
  then show ?thesis using inv by simp
next
  case failed
  then show ?thesis using node_inv_quiet [OF inv failed(2)] by (auto simp: quiet_def hard_le_def)
next
  case (bumped st)
  have "effectiveVoters n1 = effectiveVoters n"
    using bumped(5) by (intro effectiveVoters_cong) simp_all
  moreover have "node_inv H n1"
    using inv bumped by (simp add: node_inv_def synced_def)
  ultimately show ?thesis using bumped by simp
qed

lemma onVote_outcome:
  assumes "onVote S m n = Some n'" and inv: "node_inv H n"
  shows "outcome H n n'"
proof -
  obtain utd v where v: "upToDate m n = Some utd" "isVoter n (mFrom m) = Some v"
    using assms(1) by (auto simp: onVote_def bind_eq_Some_conv)
  let ?grant = "v \<and> mTerm m = nTerm n \<and> (nVotedFor n = 0 \<or> nVotedFor n = mFrom m) \<and> utd"
  let ?h = "\<lparr>hTerm = nTerm n, hVotedFor = mFrom m, hCommit = nCommit n\<rparr>"
  show ?thesis
  proof (cases ?grant)
    case False
    then have "quiet n n'" using assms(1) v by (auto simp: onVote_def Let_def dest!: send_quiet)
    then show ?thesis using inv outcome_quiet by blast
  next
    case True
    obtain ok n1 where n1: "persistHardState S ?h n = (ok, n1)" by fastforce
    from n1 show ?thesis
    proof (cases rule: persistHardState_cases)
      case failed
      then show ?thesis using True assms n1 v outcome_quiet by (simp add: onVote_def Let_def)
    next
      case (saved st)
      let ?n2 = "n\<lparr>nStore := st, nVotedFor := mFrom m, nElapsed := 0\<rparr>"
      let ?r = "zero_Message\<lparr>mType := MsgRequestVoteResponse, mFrom := nID n, mTo := mFrom m,
        mTerm := nTerm n, mReject := False\<rparr>"
      have n': "n' = ?n2\<lparr>nOutbound := nOutbound n @ [?r]\<rparr>"
        using True assms(1) n1 v saved by (auto simp: onVote_def Let_def dest!: send_eq)
      have "mFrom m \<noteq> 0"
        using v(2) by (auto simp: isVoter_def bind_eq_Some_conv nodeBit_bits valid_id_def)
      then have rec: "record_vote H n' = insert (nTerm n, idx (nID n), mFrom m) H"
        using n' saved by (simp add: record_vote_def)
      have f: "nID n' = nID n" "nTerm n' = nTerm n" "nVotedFor n' = mFrom m" "hard n' = ?h"
        "nState n' = nState n" "nVoteMask n' = nVoteMask n" "nOutbound n' = nOutbound n @ [?r]"
        using n' saved by simp_all
      have "node_inv (record_vote H n') n'"
        using inv unfolding node_inv_def synced_def rec f by (auto simp: zero_Message_def)
      then show ?thesis using f saved n' by (simp add: outcome_def)
    qed
  qed
qed

lemma onVoteResponse_outcome:
  assumes "onVoteResponse S m n = Some n'" and inv: "node_inv H n" and ok: "msg_ok H m"
    and to: "mTo m = nID n" and type: "mType m = MsgRequestVoteResponse"
  shows "outcome H n n'"
proof (cases "nState n = Candidate")
  case False
  then show ?thesis using assms(1) inv outcome_quiet by (auto simp: onVoteResponse_def)
next
  case cand: True
  then obtain v where v: "isVoter n (mFrom m) = Some v"
    using assms(1) by (auto simp: onVoteResponse_def bind_eq_Some_conv)
  show ?thesis
  proof (cases "v \<and> mTerm m = nTerm n \<and> \<not> mReject m")
    case False
    then have "n' = n" using assms(1) v cand by (auto simp: onVoteResponse_def)
    then show ?thesis using inv outcome_quiet by simp
  next
    case True
    then obtain b q where b: "nodeBit (mFrom m) = Some b"
      and q: "quorumMask (n\<lparr>nVoteMask := nVoteMask n OR b\<rparr>) (nVoteMask n OR b) = Some q"
      and n': "(if q then becomeLeader S (n\<lparr>nVoteMask := nVoteMask n OR b\<rparr>)
                else Some (n\<lparr>nVoteMask := nVoteMask n OR b\<rparr>)) = Some n'"
      using assms(1) v cand by (auto simp: onVoteResponse_def Let_def bind_eq_Some_conv)
    let ?n1 = "n\<lparr>nVoteMask := nVoteMask n OR b\<rparr>"
    have "(mTerm m, idx (mFrom m), mTo m) \<in> H"
      using ok type True by (auto simp: msg_ok_def)
    then have new: "(nTerm n, idx (mFrom m), nID n) \<in> H" using True to by simp
    have "bit b k \<longleftrightarrow> k = idx (mFrom m)" for k
      using b by (simp add: nodeBit_bits set_eq_iff)
    then have inv1: "node_inv H ?n1"
      using inv new cand by (auto simp: node_inv_def synced_def bit_or_iff)
    have inv1': "node_inv (record_vote H ?n1) ?n1" using node_inv_mono [OF inv1 record_vote_mono] .
    have o1: "outcome H n ?n1" using inv1' cand by (simp add: outcome_def)
    show ?thesis
    proof (cases q)
      case False
      then show ?thesis using n' o1 by simp
    next
      case True
      have "synced ?n1" using inv1 by (simp add: node_inv_def)
      then have lead: "quiet (?n1\<lparr>nState := Leader\<rparr>) n'" using becomeLeader_quiet True n' by auto
      have "effectiveVoters ?n1 = effectiveVoters n" by (rule effectiveVoters_cong) auto
      then have "won n (?n1\<lparr>nState := Leader\<rparr>)"
        using quorumMask_Some [OF q] True by (auto simp: won_def)
      then have "outcome H n (?n1\<lparr>nState := Leader\<rparr>)"
        using o1 node_inv_promote [OF inv1', of Leader] cand by (simp add: outcome_def)
      then show ?thesis using lead outcome_after_quiet by blast
    qed
  qed
qed

lemma onPreVoteResponse_outcome:
  assumes "onPreVoteResponse S m n = Some n'" and inv: "node_inv H n"
  shows "outcome H n n'"
proof (cases "nState n = Leader")
  case True
  then show ?thesis using assms outcome_quiet by (auto simp: onPreVoteResponse_def)
next
  case nl: False
  then obtain v where v: "isVoter n (mFrom m) = Some v"
    using assms(1) by (auto simp: onPreVoteResponse_def bind_eq_Some_conv)
  show ?thesis
  proof (cases "v \<and> mTerm m = nTerm n + 1 \<and> mTerm m = nPreVoteTerm n \<and> \<not> mReject m")
    case False
    then have "n' = n" using assms(1) v nl by (auto simp: onPreVoteResponse_def split: if_splits)
    then show ?thesis using inv outcome_quiet by simp
  next
    case True
    then obtain b q where n': "(if q then startElection S (n\<lparr>nPreVoteMask := b\<rparr>)
        else Some (n\<lparr>nPreVoteMask := b\<rparr>)) = Some n'"
      using assms(1) v nl by (auto simp: onPreVoteResponse_def Let_def bind_eq_Some_conv)
    let ?n1 = "n\<lparr>nPreVoteMask := b\<rparr>"
    have q1: "quiet n ?n1" by (simp add: quiet_def)
    have "effectiveVoters ?n1 = effectiveVoters n" by (rule effectiveVoters_cong) auto
    moreover have "outcome H ?n1 n'" if q
      using startElection_outcome [OF _ node_inv_quiet [OF inv q1]] n' that nl by simp
    ultimately have "outcome H n n'" if q using that by (auto intro!: outcome_cong_before [of H ?n1])
    then show ?thesis using n' outcome_quiet [OF inv q1] by (auto split: if_splits)
  qed
qed

lemma handler_outcome:
  assumes "node_inv H n" and "msg_ok H m" and "mTo m = nID n"
    and "(if mType m = MsgPreVote then onPreVote m n
          else if mType m = MsgPreVoteResponse then onPreVoteResponse S m n
          else if mType m = MsgRequestVote then onVote S m n
          else if mType m = MsgRequestVoteResponse then onVoteResponse S m n
          else if mType m = MsgAppend then onAppend S m n
          else if mType m = MsgAppendResponse then onAppendResponse S m n
          else if mType m = MsgInstallSnapshot then onInstallSnapshot S m n
          else if mType m = MsgInstallSnapshotResponse then onInstallSnapshotResponse m n
          else if mType m = MsgTimeoutNow then
            (if nState n = Follower \<and> mTerm m = nTerm n \<and> mFrom m = nLeader n
             then startElection S n else Some n)
          else Some n) = Some n'"
  shows "outcome H n n'"
proof -
  have sy: "synced n" using assms(1) by (simp add: node_inv_def)
  have q: "quiet n n' \<Longrightarrow> outcome H n n'" using outcome_quiet [OF assms(1)] .
  show ?thesis
    using assms(4) q [OF onPreVote_quiet] onPreVoteResponse_outcome [OF _ assms(1)]
      onVote_outcome [OF _ assms(1)] onVoteResponse_outcome [OF _ assms(1-3)]
      q [OF onAppend_quiet [OF _ sy]] q [OF onAppendResponse_quiet [OF _ sy]]
      q [OF onInstallSnapshot_quiet] q [OF onInstallSnapshotResponse_quiet]
      startElection_outcome [OF _ assms(1)] outcome_quiet [OF assms(1) quiet_refl]
    by (simp split: if_splits)
qed

lemma Step_outcome:
  assumes "Step S m n = Some n'" and inv: "node_inv H n" and "msg_ok H m" and "mTo m = nID n"
  shows "outcome H n n'"
proof (cases "nFaulted n")
  case True
  then show ?thesis using assms outcome_quiet by (simp add: Step_def)
next
  case nf: False
  obtain b n1 where n1: "stepDown S m n = (b, n1)" by fastforce
  note sd = stepDown_inv [OF n1 inv]
  show ?thesis
  proof (cases b)
    case False
    then show ?thesis using assms(1) nf n1 sd outcome_quiet [OF inv] by (simp add: Step_def)
  next
    case True
    have "outcome H n1 n'"
      using sd assms(1,3,4) nf n1 True by (intro handler_outcome) (auto simp: Step_def)
    then show ?thesis
      using sd hard_le_trans store_run_trans by (auto simp: outcome_def won_def)
  qed
qed

lemma restoreConfigurationEntry_quiet:
  assumes "restoreConfigurationEntry i acc = Some acc'"
    and "quiet n (case acc of Inl n' \<Rightarrow> n' | Inr (_, _, _, n') \<Rightarrow> n')"
  shows "quiet n (case acc' of Inl n' \<Rightarrow> n' | Inr (_, _, _, n') \<Rightarrow> n')"
proof (cases acc)
  case (Inl n1)
  then show ?thesis using assms by (auto simp: restoreConfigurationEntry_def)
next
  case (Inr t)
  obtain oldVoters newVoters pending n1 where t: "t = (oldVoters, newVoters, pending, n1)"
    by (cases t) auto
  have q: "quiet n n1" using assms(2) Inr t by simp
  have e: "quiet n n2" if "ensurePeers msk n1 = Some n2" for msk n2
    using quiet_trans [OF q ensurePeers_quiet [OF that]] .
  show ?thesis
    using assms(1) Inr t q e
    by (auto simp: restoreConfigurationEntry_def bind_eq_Some_conv Let_def
        split: option.splits prod.splits)
qed

lemma finishRecovery_quiet:
  assumes "finishRecovery n = Some n'"
  shows "quiet n n'"
proof (cases "nCommit n > lastIndex n")
  case True
  then show ?thesis using assms failStorage_quiet by (auto simp: finishRecovery_def)
next
  case False
  have loop: "quiet n (case r of Inl n' \<Rightarrow> n' | Inr (_, _, _, n') \<Rightarrow> n')"
    if "for_u64 (nBaseIndex n + 1) (lastIndex n) restoreConfigurationEntry
           (Inr (nVotersOld n, nVotersNew n, 0, n)) = Some r" for r
    using that by (rule for_u64_invariant) (auto intro: restoreConfigurationEntry_quiet)
  have "quiet n n1" if st: "restoreConfigurationState n = Some (b, n1)" for b n1
  proof -
    obtain r where r: "for_u64 (nBaseIndex n + 1) (lastIndex n) restoreConfigurationEntry
           (Inr (nVotersOld n, nVotersNew n, 0, n)) = Some r"
      using st by (auto simp: restoreConfigurationState_def bind_eq_Some_conv)
    have q: "quiet n2 (n2\<lparr>nVotersOld := a, nVotersNew := b, nPendingConfig := c\<rparr>)" for n2 a b c
      by (simp add: quiet_def)
    show ?thesis
      using st r loop [OF r] quiet_trans [OF _ q]
      by (auto simp: restoreConfigurationState_def split: sum.splits)
  qed
  then show ?thesis
    using assms False quiet_trans [OF _ failStorage_quiet(1)]
    by (auto simp: finishRecovery_def bind_eq_Some_conv)
qed

text \<open>A node built from nothing or from its store is an idle follower that knows its hard state.\<close>

definition idle :: "u32 \<Rightarrow> 's \<Rightarrow> HardState \<Rightarrow> 's Node \<Rightarrow> bool" where
  "idle i st h n \<longleftrightarrow> nID n = i \<and> valid_id i \<and> nState n = Follower \<and> nTerm n = hTerm h \<and>
     nVotedFor n = hVotedFor h \<and> grants (nOutbound n) = {} \<and> nStore n = st"

end

lemma NewNodeWithStore_fields:
  assumes "NewNodeWithStore i ps t st = Some n"
  shows "nID n = i" "valid_id i" "nState n = Follower" "nTerm n = 0" "nVotedFor n = 0"
    "nOutbound n = []" "nStore n = st"
  using assms by (auto simp: NewNodeWithStore_def bind_eq_Some_conv nodeBit_bits)

context hard_store
begin

lemma idle_inv:
  assumes "idle i st (hard_of st) n"
    and "hVotedFor (hard_of st) \<noteq> 0 \<Longrightarrow> (hTerm (hard_of st), idx i, hVotedFor (hard_of st)) \<in> H"
  shows "node_inv H n"
  using assms by (simp add: idle_def node_inv_def synced_def)

lemma ensurePeers_store: "ensurePeers msk n = Some n' \<Longrightarrow> nStore n' = nStore n"
  unfolding ensurePeers_def
  by (erule foldM_invariant [where P = "\<lambda>n'. nStore n' = nStore n"])
    (auto simp: ensurePeer_def bind_eq_Some_conv split: if_splits)

lemma restoreConfigurationEntry_store:
  assumes "restoreConfigurationEntry i acc = Some acc'"
  shows "nStore (case acc' of Inl n' \<Rightarrow> n' | Inr (_, _, _, n') \<Rightarrow> n') =
    nStore (case acc of Inl n' \<Rightarrow> n' | Inr (_, _, _, n') \<Rightarrow> n')"
proof (cases acc)
  case (Inr t)
  obtain oldVoters newVoters pending n1 where t: "t = (oldVoters, newVoters, pending, n1)"
    by (cases t) auto
  have "acc' = Inl n1 \<or> (\<exists>msk n2 b c d. ensurePeers msk n1 = Some n2 \<and> acc' = Inr (b, c, d, n2))"
    using assms Inr t
    by (fastforce simp: restoreConfigurationEntry_def bind_eq_Some_conv split: option.splits)
  then show ?thesis using Inr t by (auto dest: ensurePeers_store)
qed (use assms in \<open>auto simp: restoreConfigurationEntry_def\<close>)

lemma finishRecovery_store:
  assumes "finishRecovery n = Some n'"
  shows "nStore n' = nStore n"
proof -
  have "nStore n1 = nStore n" if st: "restoreConfigurationState n = Some (b, n1)" for b n1
  proof -
    obtain r where r: "for_u64 (nBaseIndex n + 1) (lastIndex n) restoreConfigurationEntry
           (Inr (nVotersOld n, nVotersNew n, 0, n)) = Some r"
      using st by (auto simp: restoreConfigurationState_def bind_eq_Some_conv)
    have "nStore (case r of Inl n' \<Rightarrow> n' | Inr (_, _, _, n') \<Rightarrow> n') = nStore n"
      using r by (rule for_u64_invariant) (simp_all add: restoreConfigurationEntry_store)
    then show ?thesis using st r by (auto simp: restoreConfigurationState_def split: sum.splits)
  qed
  then show ?thesis
    using assms by (auto simp: finishRecovery_def bind_eq_Some_conv failStorage_def split: if_splits)
qed

lemma NewRecoveredNode_idle:
  assumes "NewRecoveredNode i ps t st h log = Some n"
  shows "idle i st h n"
proof -
  obtain n0 where n0: "NewNodeWithStore i ps t st = Some n0"
    using assms by (auto simp: NewRecoveredNode_def bind_eq_Some_conv)
  obtain l where f: "finishRecovery (n0\<lparr>nTerm := hTerm h, nVotedFor := hVotedFor h,
      nCommit := hCommit h, nLog := l\<rparr>) = Some n"
  proof (cases "log = []")
    case True
    moreover have "nLog n0 \<noteq> []"
      using n0 by (auto simp: NewNodeWithStore_def bind_eq_Some_conv)
    ultimately show ?thesis
      using assms n0 that [of "nLog n0"] by (simp add: NewRecoveredNode_def)
  next
    case False
    then show ?thesis using assms n0 that [of log] by (simp add: NewRecoveredNode_def Let_def)
  qed
  from finishRecovery_quiet [OF f] finishRecovery_store [OF f] NewNodeWithStore_fields [OF n0]
  show ?thesis by (auto simp: idle_def quiet_def)
qed

lemma NewRecoveredNodeWithSnapshot_idle:
  assumes "NewRecoveredNodeWithSnapshot i ps t st h sn log = Some n"
  shows "idle i st h n"
proof -
  obtain n0 where n0: "NewNodeWithStore i ps t st = Some n0"
    using assms by (auto simp: NewRecoveredNodeWithSnapshot_def bind_eq_Some_conv)
  let ?n1 = "n0\<lparr>nTerm := hTerm h, nVotedFor := hVotedFor h,
       nBaseIndex := sLastIndex sn, nBaseTerm := sLastTerm sn, nSnapshot := sn,
       nVotersOld := sOldVoters sn, nVotersNew := sNewVoters sn\<rparr>"
  have id1: "idle i st h ?n1" using NewNodeWithStore_fields [OF n0] by (simp add: idle_def)
  have keep: "idle i st h b" if "idle i st h a" "quiet a b" "nStore b = nStore a" for a b
    using that by (auto simp: idle_def quiet_def)
  show ?thesis
  proof (cases "sOldVoters sn = 0")
    case True
    then have "n = failStorage ?n1"
      using assms n0 by (auto simp: NewRecoveredNodeWithSnapshot_def Let_def)
    then show ?thesis using id1 by (simp add: idle_def failStorage_def)
  next
    case False
    then obtain n2 where n2: "ensurePeers (sOldVoters sn OR sNewVoters sn) ?n1 = Some n2"
      and f: "finishRecovery (n2\<lparr>nLog := zero_Entry\<lparr>eTerm := sLastTerm sn\<rparr> # log,
         nCommit := max (hCommit h) (sLastIndex sn), nApplied := sLastIndex sn\<rparr>) = Some n"
      using assms n0 by (auto simp: NewRecoveredNodeWithSnapshot_def Let_def bind_eq_Some_conv)
    have "idle i st h n2" using keep [OF id1 ensurePeers_quiet [OF n2] ensurePeers_store [OF n2]] .
    then have "idle i st h (n2\<lparr>nLog := zero_Entry\<lparr>eTerm := sLastTerm sn\<rparr> # log,
         nCommit := max (hCommit h) (sLastIndex sn), nApplied := sLastIndex sn\<rparr>)"
      by (simp add: idle_def)
    then show ?thesis using keep finishRecovery_quiet [OF f] finishRecovery_store [OF f] by blast
  qed
qed

end

end
