(* ===== verification/Raft_Safety.thy ===== *)
theory Raft_Safety
  imports Raft_Vote Raft_Wal
begin

text \<open>
  A cluster of nodes that run \<^verbatim>\<open>raft/node.go\<close> over a network that may lose, duplicate, delay and
  reorder messages and over stores that survive crashes. The network is the set of all messages
  ever sent; delivering one does not remove it. A crash may hit a node after any number of the
  store operations of an operation in progress. Two ghost components record history: the votes
  the stores ever held and, for every election won, the term, the winner and the voters the
  winner counted.
\<close>

record 's Cluster =
  cNodes :: "u32 \<Rightarrow> 's Node option"
  cNet :: "Message set"
  cVotes :: votes
  cElected :: "(u64 \<times> u32 \<times> u64 \<times> u64) set"

definition observe :: "('s \<Rightarrow> HardState) \<Rightarrow> u32 \<Rightarrow> 's Node \<Rightarrow> 's Node \<Rightarrow> 's Cluster \<Rightarrow> 's Cluster" where
  "observe hard_of i n n' c = c\<lparr>cNodes := (cNodes c)(i \<mapsto> n'),
     cVotes := recordVote hard_of (cVotes c) n',
     cElected := cElected c \<union> {(nTerm n', i, cfg) |cfg. nState n' = Leader \<and>
       \<not> (nState n = Leader \<and> nTerm n' = nTerm n) \<and> effectiveVoters n = Some cfg}\<rparr>"

text \<open>The operations a process calls on its node besides delivering messages.\<close>

inductive node_call :: "'s StableStore \<Rightarrow> 's Node \<Rightarrow> 's Node \<Rightarrow> bool" for S where
  "Tick S n = Some n' \<Longrightarrow> node_call S n n'"
| "Propose S v n = Some (b, n') \<Longrightarrow> node_call S n n'"
| "ProposeRequest S op cid rid k v n = Some (b, n') \<Longrightarrow> node_call S n n'"
| "ProposeJoint S vs n = Some (b, n') \<Longrightarrow> node_call S n n'"
| "ProposeFinal S n = Some (b, n') \<Longrightarrow> node_call S n n'"
| "StartReadIndex x n = Some (b, n') \<Longrightarrow> node_call S n n'"
| "TransferLeadership p n = Some (b, n') \<Longrightarrow> node_call S n n'"
| "Compact S ix bs n = Some (b, n') \<Longrightarrow> node_call S n n'"
| "ApplyEntries dst n = Some (es, n') \<Longrightarrow> node_call S n n'"

inductive cluster_step :: "'s StableStore \<Rightarrow> ('s \<Rightarrow> HardState) \<Rightarrow> ('s \<Rightarrow> 's \<Rightarrow> bool) \<Rightarrow>
    's Cluster \<Rightarrow> 's Cluster \<Rightarrow> bool" for S hard_of crash where
  deliver: "cNodes c i = Some n \<Longrightarrow> m \<in> cNet c \<Longrightarrow> mTo m = i \<Longrightarrow> Step S m n = Some n' \<Longrightarrow>
    cluster_step S hard_of crash c (observe hard_of i n n' c)"
| call: "cNodes c i = Some n \<Longrightarrow> node_call S n n' \<Longrightarrow>
    cluster_step S hard_of crash c (observe hard_of i n n' c)"
| drain: "cNodes c i = Some n \<Longrightarrow> Drain [] n = (ms, n') \<Longrightarrow>
    cluster_step S hard_of crash c (c\<lparr>cNodes := (cNodes c)(i \<mapsto> n'), cNet := cNet c \<union> set ms\<rparr>)"
| restart: "cNodes c i = Some n \<Longrightarrow> store_run S (nStore n) st \<Longrightarrow> crash st st' \<Longrightarrow>
    NewRecoveredNode i ps t st' (hard_of st') log = Some n' \<or>
    NewRecoveredNodeWithSnapshot i ps t st' (hard_of st') sn log = Some n' \<Longrightarrow>
    cluster_step S hard_of crash c (observe hard_of i n n' c)"

definition cluster_init :: "('s \<Rightarrow> HardState) \<Rightarrow> ('s \<Rightarrow> bool) \<Rightarrow> 's Cluster \<Rightarrow> bool" where
  "cluster_init hard_of store_ok c \<longleftrightarrow> cNet c = {} \<and> cVotes c = {} \<and> cElected c = {} \<and>
     (\<forall>i n. cNodes c i = Some n \<longrightarrow> hard_of (nStore n) = zero_HardState \<and> store_ok (nStore n) \<and>
        (\<exists>ps t. NewNodeWithStore i ps t (nStore n) = Some n))"

inductive cluster_reach :: "'s StableStore \<Rightarrow> ('s \<Rightarrow> HardState) \<Rightarrow> ('s \<Rightarrow> bool) \<Rightarrow>
    ('s \<Rightarrow> 's \<Rightarrow> bool) \<Rightarrow> 's Cluster \<Rightarrow> bool" for S hard_of store_ok crash where
  reach_init: "cluster_init hard_of store_ok c \<Longrightarrow> cluster_reach S hard_of store_ok crash c"
| reach_step: "cluster_reach S hard_of store_ok crash c \<Longrightarrow> cluster_step S hard_of crash c c' \<Longrightarrow>
    cluster_reach S hard_of store_ok crash c'"

context durable_store
begin

definition cluster_inv :: "'s Cluster \<Rightarrow> bool" where
  "cluster_inv c \<longleftrightarrow>
     (\<forall>i n. cNodes c i = Some n \<longrightarrow> nID n = i \<and> valid_id i \<and> store_ok (nStore n) \<and>
        node_inv (cVotes c) n \<and>
        (nState n = Leader \<longrightarrow> (\<exists>cfg. (nTerm n, i, cfg) \<in> cElected c))) \<and>
     (\<forall>m \<in> cNet c. msg_ok (cVotes c) m) \<and>
     (\<forall>t k x. (t, k, x) \<in> cVotes c \<longrightarrow> x \<noteq> 0 \<and> (\<exists>i n. cNodes c i = Some n \<and> idx i = k \<and>
        (t < hTerm (hard n) \<or> t = hTerm (hard n) \<and> hVotedFor (hard n) = x))) \<and>
     (\<forall>t k x y. (t, k, x) \<in> cVotes c \<longrightarrow> (t, k, y) \<in> cVotes c \<longrightarrow> x = y) \<and>
     (\<forall>t i V W. (t, i, V, W) \<in> cElected c \<longrightarrow>
        (\<exists>msk. joint_quorum V W msk \<and> (\<forall>k. bit msk k \<longrightarrow> (t, k, i) \<in> cVotes c)))"

lemma node_call_outcome:
  assumes "node_call S n n'" and inv: "node_inv H n"
  shows "outcome H n n'"
proof -
  have "synced n" using inv by (simp add: node_inv_def)
  with assms(1) have "quiet n n' \<or> Tick S n = Some n'"
    by cases (blast intro: Propose_quiet ProposeRequest_quiet ProposeJoint_quiet
        ProposeFinal_quiet StartReadIndex_quiet TransferLeadership_quiet Compact_quiet
        ApplyEntries_quiet)+
  then show ?thesis using outcome_quiet [OF inv] Tick_outcome [OF _ inv] by blast
qed

lemma msg_ok_mono: "msg_ok H m \<Longrightarrow> H \<subseteq> H' \<Longrightarrow> msg_ok H' m"
  by (auto simp: msg_ok_def)

lemma vote_recorded:
  assumes inv: "cluster_inv c" and n: "cNodes c i = Some n" and le: "hard_le (hard n) h'"
    and old: "(hTerm h', idx i, x) \<in> cVotes c"
  shows "hVotedFor h' = x"
proof -
  have x: "x \<noteq> 0" using inv old by (auto simp: cluster_inv_def)
  obtain j nj where j: "cNodes c j = Some nj" "idx j = idx i"
      "hTerm h' < hTerm (hard nj) \<or> hTerm h' = hTerm (hard nj) \<and> hVotedFor (hard nj) = x"
    using inv old unfolding cluster_inv_def by blast
  have "valid_id i" "valid_id j" using inv n j(1) by (auto simp: cluster_inv_def)
  then have "nj = n" using j(1,2) n by (auto simp: idx_inject)
  then show ?thesis using j(3) le x by (auto simp: hard_le_def)
qed

lemma observe_inv:
  assumes inv: "cluster_inv c" and n: "cNodes c i = Some n"
    and new: "node_inv (record_vote (cVotes c) n') n'" "nID n' = i" "store_ok (nStore n')"
    and le: "hard_le (hard n) (hard n')"
    and lead: "nState n' = Leader \<Longrightarrow> nState n = Leader \<and> nTerm n' = nTerm n \<or> won n n'"
  shows "cluster_inv (observe hard_of i n n' c)"
proof -
  let ?H = "record_vote (cVotes c) n'" and ?c = "observe hard_of i n n' c"
  have sub: "cVotes c \<subseteq> ?H" by (rule record_vote_mono)
  have c: "cVotes ?c = ?H" "cNet ?c = cNet c" "cNodes ?c = (cNodes c)(i \<mapsto> n')"
    "cElected c \<subseteq> cElected ?c" by (auto simp: observe_def)
  have id: "valid_id i" using inv n by (auto simp: cluster_inv_def)
  have added: "(t, k, x) \<in> cVotes c \<or> t = hTerm (hard n') \<and> k = idx i \<and> x = hVotedFor (hard n') \<and> x \<noteq> 0"
    if "(t, k, x) \<in> ?H" for t k x
    using that new(2) by (auto simp: record_vote_def split: if_splits)
  have "nID m = j \<and> valid_id j \<and> store_ok (nStore m) \<and> node_inv ?H m \<and>
      (nState m = Leader \<longrightarrow> (\<exists>cfg. (nTerm m, j, cfg) \<in> cElected ?c))" if m: "cNodes ?c j = Some m" for j m
  proof (cases "j = i")
    case True
    then have "m = n'" using m c by simp
    moreover have "\<exists>cfg. (nTerm n', i, cfg) \<in> cElected ?c" if "nState n' = Leader"
    proof (cases "nState n = Leader \<and> nTerm n' = nTerm n")
      case True
      then show ?thesis using inv n c(4) by (fastforce simp: cluster_inv_def)
    next
      case False
      then show ?thesis using lead [OF that] that by (auto simp: observe_def won_def)
    qed
    ultimately show ?thesis using True new id by simp
  next
    case False
    then have "cNodes c j = Some m" using m c by simp
    then show ?thesis using inv c(4) node_inv_mono [OF _ sub] unfolding cluster_inv_def by blast
  qed
  moreover have "\<forall>m \<in> cNet c. msg_ok ?H m" using inv msg_ok_mono [OF _ sub] by (auto simp: cluster_inv_def)
  moreover have "x \<noteq> 0 \<and> (\<exists>j m. cNodes ?c j = Some m \<and> idx j = k \<and>
        (t < hTerm (hard m) \<or> t = hTerm (hard m) \<and> hVotedFor (hard m) = x))" if "(t, k, x) \<in> ?H" for t k x
    using added [OF that]
  proof
    assume old: "(t, k, x) \<in> cVotes c"
    then obtain j m where j: "x \<noteq> 0" "cNodes c j = Some m" "idx j = k"
        "t < hTerm (hard m) \<or> t = hTerm (hard m) \<and> hVotedFor (hard m) = x"
      using inv unfolding cluster_inv_def by blast
    show ?thesis
    proof (cases "j = i")
      case True
      then have "t < hTerm (hard n') \<or> t = hTerm (hard n') \<and> hVotedFor (hard n') = x"
        using j n le by (auto simp: hard_le_def)
      then show ?thesis using j True c(3) by auto
    next
      case False
      then have "cNodes ?c j = Some m" using j(2) c(3) by simp
      then show ?thesis using j by blast
    qed
  qed (use c(3) in auto)
  moreover have "x = y" if xy: "(t, k, x) \<in> ?H" "(t, k, y) \<in> ?H" for t k x y
  proof -
    have one: "v = w" if "(t, k, v) \<in> cVotes c" "(t, k, w) \<in> cVotes c" for v w
      using that inv unfolding cluster_inv_def by blast
    show ?thesis
      using added [OF xy(1)] added [OF xy(2)] one vote_recorded [OF inv n le] by metis
  qed
  moreover have "\<exists>msk. joint_quorum V W msk \<and> (\<forall>k. bit msk k \<longrightarrow> (t, k, j) \<in> ?H)"
    if e: "(t, j, V, W) \<in> cElected ?c" for t j V W
  proof (cases "(t, j, V, W) \<in> cElected c")
    case True
    then obtain msk where "joint_quorum V W msk" "\<forall>k. bit msk k \<longrightarrow> (t, k, j) \<in> cVotes c"
      using inv unfolding cluster_inv_def by blast
    then show ?thesis using sub by blast
  next
    case False
    then have f: "t = nTerm n'" "j = i" "nState n' = Leader"
        "\<not> (nState n = Leader \<and> nTerm n' = nTerm n)" "effectiveVoters n = Some (V, W)"
      using e by (auto simp: observe_def)
    then have "joint_quorum V W (nVoteMask n')" using lead by (auto simp: won_def)
    moreover have "\<forall>k. bit (nVoteMask n') k \<longrightarrow> (t, k, j) \<in> ?H"
      using new(1,2) f by (auto simp: node_inv_def)
    ultimately show ?thesis by blast
  qed
  ultimately show ?thesis unfolding cluster_inv_def c by blast
qed

lemma sent_inv:
  "cluster_inv c \<Longrightarrow> \<forall>m \<in> M. msg_ok (cVotes c) m \<Longrightarrow> cluster_inv (c\<lparr>cNet := cNet c \<union> M\<rparr>)"
  unfolding cluster_inv_def by simp blast

lemma cluster_step_inv:
  assumes "cluster_step S hard_of crash c c'" and inv: "cluster_inv c"
  shows "cluster_inv c'"
  using assms(1)
proof cases
  case (deliver i n m n')
  have n: "node_inv (cVotes c) n" "nID n = i" "store_ok (nStore n)" "msg_ok (cVotes c) m"
    using inv deliver by (auto simp: cluster_inv_def)
  have "outcome (cVotes c) n n'" using Step_outcome [OF deliver(5) n(1,4)] deliver(4) n(2) by simp
  then show ?thesis
    using observe_inv [OF inv deliver(2)] n store_run_keeps deliver(1) by (auto simp: outcome_def)
next
  case (call i n n')
  have n: "node_inv (cVotes c) n" "nID n = i" "store_ok (nStore n)"
    using inv call by (auto simp: cluster_inv_def)
  have "outcome (cVotes c) n n'" using node_call_outcome [OF call(3) n(1)] .
  then show ?thesis
    using observe_inv [OF inv call(2)] n store_run_keeps call(1) by (auto simp: outcome_def)
next
  case (drain i n ms n')
  then have ms: "ms = nOutbound n" "n' = n\<lparr>nOutbound := []\<rparr>" by (auto simp: Drain_def)
  have n: "node_inv (cVotes c) n" "nID n = i" "store_ok (nStore n)"
    using inv drain by (auto simp: cluster_inv_def)
  have n': "node_inv (cVotes c) n'" using node_inv_quiet [OF n(1) Drain_quiet [of n "[]"]] ms(2)
    by (simp add: Drain_def)
  have rec: "record_vote (cVotes c) n' = cVotes c"
    using n ms(2) by (auto simp: record_vote_def node_inv_def)
  have obs: "observe hard_of i n n' c = c\<lparr>cNodes := (cNodes c)(i \<mapsto> n')\<rparr>"
    using rec ms(2) by (cases "nState n = Leader") (simp_all add: observe_def)
  have "cluster_inv (observe hard_of i n n' c)"
    by (rule observe_inv [OF inv drain(2)]) (use n n' rec ms(2) in simp_all)
  moreover have "msg_ok (cVotes c) m" if "m \<in> set ms" for m
    using n(1) that ms(1) by (auto simp: node_inv_def msg_ok_def grants_def)
  ultimately show ?thesis
    using sent_inv [of "observe hard_of i n n' c" "set ms"] drain(1) unfolding obs by simp
next
  case (restart i n st st' ps t log n' sn)
  have n: "node_inv (cVotes c) n" "nID n = i" "store_ok (nStore n)"
    using inv restart by (auto simp: cluster_inv_def)
  have ok: "store_ok st'" "hard_le (hard_of st) (hard_of st')"
    using crash_hard [OF store_run_keeps [OF restart(3) n(3)] restart(4)] by simp_all
  have "idle i st' (hard_of st') n'"
    using restart(5) NewRecoveredNode_idle NewRecoveredNodeWithSnapshot_idle by blast
  then have n': "nID n' = i" "nState n' = Follower" "nStore n' = st'" "synced n'"
      "grants (nOutbound n') = {}" by (simp_all add: idle_def synced_def)
  have "node_inv (record_vote (cVotes c) n') n'"
    using n' by (simp add: node_inv_def record_vote_def)
  moreover have "hard_le (hard n) (hard n')" using hard_le_trans [OF store_run_hard [OF restart(3)] ok(2)] n'(3) by simp
  ultimately show ?thesis
    unfolding restart(1) by (intro observe_inv [OF inv restart(2)]) (use n' ok(1) in simp_all)
qed

lemma cluster_reach_inv: "cluster_reach S hard_of store_ok crash c \<Longrightarrow> cluster_inv c"
proof (induction rule: cluster_reach.induct)
  case (reach_init c)
  have "nID n = i \<and> valid_id i \<and> store_ok (nStore n) \<and> node_inv {} n \<and> nState n = Follower"
    if ci: "cNodes c i = Some n" for i n
  proof -
    obtain ps t where new: "NewNodeWithStore i ps t (nStore n) = Some n"
      and st: "hard n = zero_HardState" "store_ok (nStore n)"
      using reach_init ci unfolding cluster_init_def by blast
    show ?thesis
      using NewNodeWithStore_fields [OF new] st
      by (simp add: node_inv_def synced_def zero_HardState_def)
  qed
  then show ?case using reach_init by (auto simp: cluster_init_def cluster_inv_def)
next
  case (reach_step c c')
  then show ?case using cluster_step_inv by blast
qed

lemma elected_unique:
  assumes "cluster_inv c" and "(t, i, V, W) \<in> cElected c" and "(t, j, V', W') \<in> cElected c"
    and "adjacent (V, W) (V', W')"
  shows "i = j"
proof -
  obtain A where A: "joint_quorum V W A" "\<forall>k. bit A k \<longrightarrow> (t, k, i) \<in> cVotes c"
    using assms(1,2) unfolding cluster_inv_def by blast
  obtain B where B: "joint_quorum V' W' B" "\<forall>k. bit B k \<longrightarrow> (t, k, j) \<in> cVotes c"
    using assms(1,3) unfolding cluster_inv_def by blast
  obtain k where "bit A k" "bit B k"
    using adjacent_common_member [OF assms(4) A(1) B(1)] by blast
  then show ?thesis using A B assms(1) unfolding cluster_inv_def by blast
qed

lemma leader_elected:
  assumes "cluster_inv c" and "cNodes c i = Some n" and "nState n = Leader"
  shows "\<exists>V W msk. (nTerm n, i, V, W) \<in> cElected c \<and> joint_quorum V W msk \<and>
    (\<forall>k. bit msk k \<longrightarrow> (nTerm n, k, i) \<in> cVotes c)"
proof -
  obtain cfg where "(nTerm n, i, cfg) \<in> cElected c"
    using assms unfolding cluster_inv_def by blast
  then obtain V W where e: "(nTerm n, i, V, W) \<in> cElected c" by (cases cfg) auto
  moreover have "\<exists>msk. joint_quorum V W msk \<and> (\<forall>k. bit msk k \<longrightarrow> (nTerm n, k, i) \<in> cVotes c)"
    using assms(1) e unfolding cluster_inv_def by blast
  ultimately show ?thesis by blast
qed

lemma votes_unique:
  "cluster_inv c \<Longrightarrow> (t, k, x) \<in> cVotes c \<Longrightarrow> (t, k, y) \<in> cVotes c \<Longrightarrow> x = y"
  unfolding cluster_inv_def by blast

end

subsection \<open>Properties\<close>

text \<open>The cluster whose stores are Raft WAL stores on in-memory devices.\<close>

abbreviation wal_cluster_step ::
  "MemoryDevice RaftwalStore Cluster \<Rightarrow> MemoryDevice RaftwalStore Cluster \<Rightarrow> bool" where
  "wal_cluster_step \<equiv> cluster_step (raftwal_ops memory_device) rwHard rw_crash"

abbreviation wal_cluster_reach :: "MemoryDevice RaftwalStore Cluster \<Rightarrow> bool" where
  "wal_cluster_reach \<equiv> cluster_reach (raftwal_ops memory_device) rwHard rw_hard_ok rw_crash"

subsection \<open>An execution with an election\<close>

abbreviation (input) noop1 :: Entry where "noop1 \<equiv> zero_Entry\<lparr>eTerm := 1, eKind := EntryNoop\<rparr>"

lemma solo_store:
  "\<exists>st1 st2 st3. rw_SaveHardState memory_device \<lparr>hTerm = 1, hVotedFor = 1, hCommit = 0\<rparr> fresh_store = (None, st1) \<and>
     rw_Append memory_device 1 noop1 st1 = (None, st2) \<and>
     rw_SaveHardState memory_device \<lparr>hTerm = 1, hVotedFor = 1, hCommit = 1\<rparr> st2 = (None, st3) \<and>
     (\<exists>rs. md.coherent st3 rs) \<and> rwHard st3 = \<lparr>hTerm = 1, hVotedFor = 1, hCommit = 1\<rparr> \<and> rwBase st3 = 0 \<and>
     rwData st3 = [zero_Entry, noop1]"
proof -
  let ?h0 = "\<lparr>hTerm = 1, hVotedFor = 1, hCommit = 0\<rparr>" and ?h1 = "\<lparr>hTerm = 1, hVotedFor = 1, hCommit = 1\<rparr>"
  have run: "\<exists>s' rs'. runOp memory_device op s = (None, s') \<and> md.coherent s' rs' \<and>
      RaftwalState.truncate s' = specOp op (RaftwalState.truncate s)"
    if "md.coherent s rs" "opFits op s" "rejects op s = None" for op s rs
    using md.runOp_total [OF that(1,3)] md.runOp_coherent [OF that(1,2)] by blast
  obtain rs where rs: "md.coherent fresh_store rs" using rw_reach_coherent [OF fresh_store_reach] ..
  obtain st1 rs1 where st1: "runOp memory_device (OpHard ?h0) fresh_store = (None, st1)" "md.coherent st1 rs1"
      "RaftwalState.truncate st1 = specOp (OpHard ?h0) (RaftwalState.truncate fresh_store)"
    using run [OF rs, of "OpHard ?h0"] by (auto simp: zero_HardState_def)
  then have f1: "rwHard st1 = ?h0" "rwData st1 = [zero_Entry]" "rwBase st1 = 0"
    by (simp_all add: RaftwalState.defs empty_state_def)
  obtain st2 rs2 where st2: "runOp memory_device (OpAppend 1 noop1) st1 = (None, st2)" "md.coherent st2 rs2"
      "RaftwalState.truncate st2 = specOp (OpAppend 1 noop1) (RaftwalState.truncate st1)"
    using run [OF st1(2), of "OpAppend 1 noop1"] f1 by auto
  then have f2: "rwHard st2 = ?h0" "rwData st2 = [zero_Entry, noop1]" "rwBase st2 = 0"
    using f1 by (simp_all add: RaftwalState.defs)
  obtain st3 rs3 where st3: "runOp memory_device (OpHard ?h1) st2 = (None, st3)" "md.coherent st3 rs3"
      "RaftwalState.truncate st3 = specOp (OpHard ?h1) (RaftwalState.truncate st2)"
    using run [OF st2(2), of "OpHard ?h1"] f2 by auto
  then have "rwHard st3 = ?h1" "rwData st3 = [zero_Entry, noop1]" "rwBase st3 = 0"
    using f2 by (simp_all add: RaftwalState.defs)
  with st1 st2 st3 show ?thesis by auto
qed

definition solo_node :: "MemoryDevice RaftwalStore Node" where
  "solo_node = the (NewNodeWithStore 1 [] 1 fresh_store)"

lemma solo_tick:
  "\<exists>n. Tick (raftwal_ops memory_device) solo_node = Some n \<and> nState n = Leader \<and> nTerm n = 1 \<and>
     nVotedFor n = 1"
proof -
  have two: "\<not> (2 :: u64) \<le> 1" by (simp add: word_le_nat_alt)
  have bits: "bitsSet 1 = 1" by (simp add: bitsSet_def bitsSet_loop.simps)
  obtain st1 st2 st3 where st:
    "rw_SaveHardState memory_device \<lparr>hTerm = 1, hVotedFor = 1, hCommit = 0\<rparr> fresh_store = (None, st1)"
    "rw_Append memory_device 1 noop1 st1 = (None, st2)"
    "rw_SaveHardState memory_device \<lparr>hTerm = 1, hVotedFor = 1, hCommit = 1\<rparr> st2 = (None, st3)"
    using solo_store by blast
  show ?thesis
    using st
    by (simp add: solo_node_def NewNodeWithStore_def nodeBit_def Tick_def Let_def startPreVote_def
        quorumMask_def effectiveVoters_def for_u64.simps lastIndex_def majorityMask_def bits two
        startElection_def persistHardState_def raftwal_ops_def becomeLeader_def appendLocal_def
        entryAt_def offset_def applyCommittedConfigurations_def applyCommittedConfiguration_def
        applyConfigurationEntry_def zero_Entry_def broadcastAppend_def)
qed

definition solo_cluster :: "MemoryDevice RaftwalStore Cluster" where
  "solo_cluster = \<lparr>cNodes = [1 \<mapsto> solo_node], cNet = {}, cVotes = {}, cElected = {}\<rparr>"

lemma fresh_store_ok: "rw_hard_ok fresh_store"
proof -
  obtain rs where "md.coherent fresh_store rs" using rw_reach_coherent [OF fresh_store_reach] ..
  then show ?thesis by (auto simp: rw_hard_ok_def md.coherent_def RaftwalState.defs)
qed

lemma solo_cluster_elects:
  "\<exists>c n. wal_cluster_reach c \<and> (1, 1, 1, 0) \<in> cElected c \<and> cNodes c 1 = Some n \<and>
     nState n = Leader \<and> nTerm n = 1 \<and> (1, 0, 1) \<in> cVotes c"
proof -
  obtain n where n: "Tick (raftwal_ops memory_device) solo_node = Some n" "nState n = Leader" "nTerm n = 1"
      "nVotedFor n = 1"
    using solo_tick by blast
  let ?c = "observe rwHard 1 solo_node n solo_cluster"
  have new: "NewNodeWithStore 1 [] 1 fresh_store = Some solo_node"
    by (simp add: solo_node_def NewNodeWithStore_def nodeBit_def)
  have "cluster_init rwHard rw_hard_ok solo_cluster"
    using new NewNodeWithStore_fields(7) [OF new] fresh_store_ok
    by (auto simp: cluster_init_def solo_cluster_def)
  then have r0: "wal_cluster_reach solo_cluster" by (rule reach_init)
  have "wal_cluster_step solo_cluster ?c"
    by (rule cluster_step.call) (auto simp: solo_cluster_def intro: node_call.intros(1) [OF n(1)])
  with r0 have r: "wal_cluster_reach ?c" by (rule reach_step)
  have "effectiveVoters solo_node = Some (1, 0)"
    by (simp add: solo_node_def NewNodeWithStore_def nodeBit_def effectiveVoters_def for_u64.simps
        lastIndex_def)
  then have e: "(1, 1, 1, 0) \<in> cElected ?c"
    using n NewNodeWithStore_fields(3) [OF new] by (auto simp: observe_def)
  note hs = raftwal.hard_store_axioms [of memory_device]
  have "nTerm n = hTerm (rwHard (nStore n)) \<and> nVotedFor n = hVotedFor (rwHard (nStore n)) \<and> nID n = 1"
    using hard_store.Tick_outcome [OF hs n(1), of "{}"] NewNodeWithStore_fields [OF new]
    by (simp add: hard_store.outcome_def [OF hs] hard_store.node_inv_def [OF hs]
        hard_store.synced_def [OF hs] zero_HardState_def)
  then have v: "(1, 0, 1) \<in> cVotes ?c"
    using n by (simp add: observe_def recordVote_def idx_def Let_def)
  show ?thesis
    using r e v n by (intro exI [of _ ?c] exI [of _ n]) (simp add: observe_def)
qed

text \<open>
  C1: Election safety. In every execution of a cluster, with message loss, duplication, reordering
  and delay, with crashes at any point between two store operations or inside one, where any prefix
  of the record being written may survive, with restarts from the
  write-ahead log and with membership changes in progress, two elections won in the same term
  under the same or neighbouring voter configurations were won by the same node.
\<close>

theorem election_safety:
  assumes "wal_cluster_reach c"
    and "(t, i, V, W) \<in> cElected c" and "(t, j, V', W') \<in> cElected c"
    and "adjacent (V, W) (V', W')"
  shows "i = j"
  using raftwal_md.elected_unique [OF raftwal_md.cluster_reach_inv [OF assms(1)] assms(2-4)] .

theorem election_safety_witness:
  "\<exists>c i. wal_cluster_reach c \<and> (1, i, 1, 0) \<in> cElected c \<and>
     (\<forall>j. (1, j, 1, 0) \<in> cElected c \<longrightarrow> j = i)"
proof -
  obtain c where "wal_cluster_reach c" "(1, 1, 1, 0) \<in> cElected c" using solo_cluster_elects by blast
  then show ?thesis using election_safety [of c 1 _ 1 0 1 1 0] by (auto simp: adjacent_def)
qed

text \<open>
  C3: Every leader was elected: a node that is leader in its current term has an entry in the
  election record of that term, with a set of nodes that satisfies the node's quorum rule for the
  recorded voters and whose members all have a recorded vote for it in that term.
\<close>

theorem leader_has_quorum:
  assumes "wal_cluster_reach c" and "cNodes c i = Some n" and "nState n = Leader"
  shows "\<exists>V W msk. (nTerm n, i, V, W) \<in> cElected c \<and> joint_quorum V W msk \<and>
    (\<forall>k. bit msk k \<longrightarrow> (nTerm n, k, i) \<in> cVotes c)"
  using raftwal_md.leader_elected [OF raftwal_md.cluster_reach_inv [OF assms(1)] assms(2,3)] .

theorem leader_has_quorum_witness:
  "\<exists>c n V W. wal_cluster_reach c \<and> cNodes c 1 = Some n \<and> nState n = Leader \<and>
     (nTerm n, 1, V, W) \<in> cElected c"
  using solo_cluster_elects leader_has_quorum by metis

text \<open>
  C4: One vote per term. Over the whole execution, crashes and restarts included, the stores never
  hold votes of one node for two different candidates in the same term.
\<close>

theorem one_vote_per_term:
  assumes "wal_cluster_reach c" and "(t, k, x) \<in> cVotes c" and "(t, k, y) \<in> cVotes c"
  shows "x = y"
  using raftwal_md.votes_unique [OF raftwal_md.cluster_reach_inv [OF assms(1)] assms(2,3)] .

theorem one_vote_per_term_witness:
  "\<exists>c. wal_cluster_reach c \<and> (1, 0, 1) \<in> cVotes c \<and> (\<forall>y. (1, 0, y) \<in> cVotes c \<longrightarrow> y = 1)"
  using solo_cluster_elects one_vote_per_term [of _ 1 0] by metis

end
