(* ===== verification/Event_Heap.thy ===== *)
theory Event_Heap
  imports Prelude "HOL-Library.Multiset" "HOL-Library.Product_Lexorder"
begin

text \<open>
  The schedule of \<^verbatim>\<open>dst/engine.go\<close>: events ordered by due time and sequence number, kept in an
  array heap (\<open>push\<close>, \<open>pop\<close>, \<open>siftDown\<close>, \<open>Isolate\<close>), and the schedule of \<^verbatim>\<open>sim/sim.go\<close>, a slice
  searched linearly (\<open>nextReady\<close>). The locale \<open>event_queue\<close> states what a run loop needs of a
  schedule; it is interpreted on both.
\<close>

subsection \<open>dst/engine.go: events and the heap\<close>

record 'm event =
  evAt :: u64
  evSeq :: u64
  evFrom :: u32
  evTo :: u32
  evMsg :: 'm

definition earlier :: "'m event \<Rightarrow> 'm event \<Rightarrow> bool" where
  "earlier a b \<longleftrightarrow> evAt a < evAt b \<or> evAt a = evAt b \<and> evSeq a < evSeq b"

definition swap :: "'a list \<Rightarrow> nat \<Rightarrow> nat \<Rightarrow> 'a list" where
  "swap q i j = q[i := q ! j, j := q ! i]"

lemma length_swap [simp]: "length (swap q i j) = length q"
  by (simp add: swap_def)

function siftUp :: "'m event list \<Rightarrow> nat \<Rightarrow> 'm event list" where
  "siftUp q i =
     (if i > 0 then
        let parent = (i - 1) div 2 in
        if \<not> earlier (q ! i) (q ! parent) then q else siftUp (swap q i parent) parent
      else q)"
  by pat_completeness auto
termination by (relation "measure snd") auto

definition push :: "'m event \<Rightarrow> 'm event list \<Rightarrow> 'm event list" where
  "push ev q = siftUp (q @ [ev]) (length q)"

definition smallestChild :: "'m event list \<Rightarrow> nat \<Rightarrow> nat" where
  "smallestChild q i =
     (let n = length q; left = 2 * i + 1; right = left + 1;
          smallest = (if left < n \<and> earlier (q ! left) (q ! i) then left else i) in
      if right < n \<and> earlier (q ! right) (q ! smallest) then right else smallest)"

lemma smallestChild_cases:
  "smallestChild q i = i \<or> i < smallestChild q i \<and> smallestChild q i < length q"
  by (auto simp: smallestChild_def Let_def)

function siftDown :: "'m event list \<Rightarrow> nat \<Rightarrow> 'm event list" where
  "siftDown q i =
     (let smallest = smallestChild q i in
      if smallest = i then q else siftDown (swap q i smallest) smallest)"
  by pat_completeness auto
termination
proof (relation "measure (\<lambda>(q, i). length q - i)", simp)
  fix q :: "'m event list" and i smallest
  assume "smallest = smallestChild q i" and "smallest \<noteq> i"
  then show "((swap q i smallest, smallest), q, i) \<in> measure (\<lambda>(q, i). length q - i)"
    using smallestChild_cases [of q i] by auto
qed

declare siftUp.simps [simp del] siftDown.simps [simp del]

definition pop :: "'m event list \<Rightarrow> ('m event \<times> 'm event list) option" where
  "pop q =
     (if q = [] then None
      else let top = q ! 0; end = length q - 1 in
        Some (top, siftDown (take end (q[0 := q ! end])) 0))"

definition heapify :: "'m event list \<Rightarrow> 'm event list" where
  "heapify q = fold (\<lambda>i q. siftDown q i) (rev [0..<length q div 2]) q"

definition isolateQueue :: "u32 \<Rightarrow> 'm event list \<Rightarrow> nat \<times> 'm event list" where
  "isolateQueue node q =
     (let kept = filter (\<lambda>ev. \<not> (evFrom ev = node \<or> evTo ev = node)) q in
      (length q - length kept, heapify kept))"

subsection \<open>The order\<close>

definition ekey :: "'m event \<Rightarrow> u64 \<times> u64" where
  "ekey ev = (evAt ev, evSeq ev)"

lemma earlier_ekey: "earlier a b \<longleftrightarrow> ekey a < ekey b"
  by (auto simp: earlier_def ekey_def)

lemma not_earlier_ekey: "\<not> earlier a b \<longleftrightarrow> ekey b \<le> ekey a"
  by (simp add: earlier_ekey not_less)

lemma mset_swap: "i < length q \<Longrightarrow> j < length q \<Longrightarrow> mset (swap q i j) = mset q"
  by (simp add: swap_def mset_swap)

lemma nth_swap:
  "i < length q \<Longrightarrow> j < length q \<Longrightarrow>
    swap q i j ! k = (if k = j then q ! i else if k = i then q ! j else q ! k)"
  by (auto simp: swap_def nth_list_update)

lemma length_siftUp [simp]: "length (siftUp q i) = length q"
  by (induction q i rule: siftUp.induct) (subst siftUp.simps, auto simp: Let_def)

lemma length_siftDown [simp]: "length (siftDown q i) = length q"
  by (induction q i rule: siftDown.induct) (subst siftDown.simps, auto simp: Let_def)

lemma mset_siftUp: "i < length q \<Longrightarrow> mset (siftUp q i) = mset q"
proof (induction q i rule: siftUp.induct)
  case (1 q i)
  then show ?case by (subst siftUp.simps) (auto simp: Let_def mset_swap)
qed

lemma mset_siftDown: "i < length q \<Longrightarrow> mset (siftDown q i) = mset q"
proof (induction q i rule: siftDown.induct)
  case (1 q i)
  then show ?case
    using smallestChild_cases [of q i] by (subst siftDown.simps) (auto simp: Let_def mset_swap)
qed

subsection \<open>The heap invariant\<close>

text \<open>\<open>heap_from k q\<close>: no event at or below position \<open>k\<close> precedes its parent.\<close>

definition heap_from :: "nat \<Rightarrow> 'm event list \<Rightarrow> bool" where
  "heap_from k q \<longleftrightarrow> (\<forall>j < length q. 0 < j \<longrightarrow> k \<le> (j - 1) div 2 \<longrightarrow>
     ekey (q ! ((j - 1) div 2)) \<le> ekey (q ! j))"

abbreviation heap :: "'m event list \<Rightarrow> bool" where
  "heap \<equiv> heap_from 0"

text \<open>The same, except that the event at \<open>i\<close> may follow some of its children.\<close>

definition heap_but :: "nat \<Rightarrow> nat \<Rightarrow> 'm event list \<Rightarrow> bool" where
  "heap_but k i q \<longleftrightarrow> (\<forall>j < length q. 0 < j \<longrightarrow> k \<le> (j - 1) div 2 \<longrightarrow>
     ((j - 1) div 2 \<noteq> i \<longrightarrow> ekey (q ! ((j - 1) div 2)) \<le> ekey (q ! j)) \<and>
     ((j - 1) div 2 = i \<longrightarrow> 0 < i \<longrightarrow> k \<le> (i - 1) div 2 \<longrightarrow>
        ekey (q ! ((i - 1) div 2)) \<le> ekey (q ! j)))"

lemma child_cases: "(j - 1) div 2 = i \<Longrightarrow> 0 < j \<Longrightarrow> j = 2 * i + 1 \<or> j = 2 * i + 2" for j :: nat
  by presburger

lemma smallestChild_le:
  assumes "j < length q" and "(j - 1) div 2 = i" and "0 < j"
  shows "ekey (q ! smallestChild q i) \<le> ekey (q ! j)"
  using child_cases [OF assms(2,3)] assms(1)
  by (auto simp: smallestChild_def Let_def earlier_ekey not_less)

lemma smallestChild_child:
  "smallestChild q i \<noteq> i \<Longrightarrow> (smallestChild q i - 1) div 2 = i \<and> smallestChild q i < length q \<and>
     i < smallestChild q i \<and> ekey (q ! smallestChild q i) < ekey (q ! i)"
  by (auto simp: smallestChild_def Let_def earlier_ekey split: if_splits)

lemma siftDown_heap:
  "heap_but k i q \<Longrightarrow> k \<le> i \<Longrightarrow> i < length q \<Longrightarrow> heap_from k (siftDown q i)"
proof (induction q i rule: siftDown.induct)
  case (1 q i)
  let ?s = "smallestChild q i"
  show ?case
  proof (cases "?s = i")
    case True
    then have "heap_from k q"
      using "1.prems"(1) smallestChild_le [of _ q i] by (auto simp: heap_from_def heap_but_def)
    then show ?thesis using True by (simp add: siftDown.simps [of q i])
  next
    case False
    then have s: "(?s - 1) div 2 = i" "?s < length q" "i < ?s" "ekey (q ! ?s) < ekey (q ! i)"
      using smallestChild_child [OF False] by simp_all
    let ?q = "swap q i ?s"
    have nth: "?q ! j = (if j = ?s then q ! i else if j = i then q ! ?s else q ! j)" for j
      using s "1.prems"(3) by (simp add: nth_swap)
    have "heap_but k ?s ?q"
      unfolding heap_but_def
    proof (intro allI impI conjI)
      fix j
      assume j: "j < length ?q" "0 < j" "k \<le> (j - 1) div 2"
      let ?p = "(j - 1) div 2"
      have pj: "?p \<noteq> j" using j(2) by linarith
      have "i \<noteq> (i - 1) div 2" if "0 < i" using that by linarith
      note pi = this
      {
        assume ps: "?p \<noteq> ?s"
        show "ekey (?q ! ?p) \<le> ekey (?q ! j)"
        proof (cases "?p = i")
          case True
          then have "ekey (q ! ?s) \<le> ekey (q ! j)" using smallestChild_le j by auto
          then show ?thesis using True s pj by (auto simp: nth)
        next
          case pni: False
          have old: "ekey (q ! ?p) \<le> ekey (q ! j)" using "1.prems"(1) j pni by (auto simp: heap_but_def)
          have js: "j \<noteq> ?s" using s(1) pni by auto
          show ?thesis
          proof (cases "j = i")
            case True
            then have "ekey (q ! ((i - 1) div 2)) \<le> ekey (q ! ?s)"
              using "1.prems"(1) s j unfolding heap_but_def by (metis gr0I length_swap less_nat_zero_code "1.prems"(2))
            then show ?thesis using True pni ps js s by (simp add: nth)
          next
            case False
            then show ?thesis using pni ps js old by (simp add: nth)
          qed
        qed
      }
      assume "?p = ?s" "0 < ?s" "k \<le> (?s - 1) div 2"
      then have "ekey (q ! ?s) \<le> ekey (q ! j)" "j \<noteq> i" "j \<noteq> ?s"
        using "1.prems"(1) j s pj by (auto simp: heap_but_def)
      then show "ekey (?q ! ((?s - 1) div 2)) \<le> ekey (?q ! j)" using s by (simp add: nth)
    qed
    then show ?thesis
      using "1.IH" [OF refl False] False s "1.prems"(2) by (simp add: siftDown.simps [of q i] Let_def)
  qed
qed

text \<open>For \<open>siftUp\<close> the exception is upwards: the event at \<open>i\<close> may precede its parent.\<close>

definition heap_above :: "nat \<Rightarrow> 'm event list \<Rightarrow> bool" where
  "heap_above i q \<longleftrightarrow> (\<forall>j < length q. 0 < j \<longrightarrow>
     (j \<noteq> i \<longrightarrow> ekey (q ! ((j - 1) div 2)) \<le> ekey (q ! j)) \<and>
     ((j - 1) div 2 = i \<longrightarrow> 0 < i \<longrightarrow> ekey (q ! ((i - 1) div 2)) \<le> ekey (q ! j)))"

lemma siftUp_heap: "heap_above i q \<Longrightarrow> i < length q \<Longrightarrow> heap (siftUp q i)"
proof (induction q i rule: siftUp.induct)
  case (1 q i)
  define p where "p = (i - 1) div 2"
  show ?case
  proof (cases "0 < i \<and> earlier (q ! i) (q ! p)")
    case False
    have "heap q"
      unfolding heap_from_def
    proof (intro allI impI)
      fix j
      assume "j < length q" "0 < j"
      then show "ekey (q ! ((j - 1) div 2)) \<le> ekey (q ! j)"
        using "1.prems" False by (cases "j = i") (auto simp: heap_above_def earlier_ekey not_less p_def)
    qed
    then show ?thesis using False by (auto simp: siftUp.simps [of q i] Let_def p_def)
  next
    case True
    then have i: "0 < i" "ekey (q ! i) < ekey (q ! p)" "p < i" by (auto simp: earlier_ekey p_def)
    let ?q = "swap q i p"
    have nth: "?q ! j = (if j = p then q ! i else if j = i then q ! p else q ! j)" for j
      using i "1.prems"(2) by (simp add: nth_swap)
    have ord: "ekey (q ! ((j - 1) div 2)) \<le> ekey (q ! j)" if "j < length q" "0 < j" "j \<noteq> i" for j
      using "1.prems"(1) that by (auto simp: heap_above_def)
    have chi: "ekey (q ! p) \<le> ekey (q ! j)" if "j < length q" "0 < j" "(j - 1) div 2 = i" for j
      using "1.prems"(1) that i(1) by (auto simp: heap_above_def p_def)
    have "heap_above p ?q"
      unfolding heap_above_def
    proof (intro allI impI conjI)
      fix j
      assume j: "j < length ?q" "0 < j"
      have pj: "(j - 1) div 2 \<noteq> j" using j(2) by linarith
      show "ekey (?q ! ((j - 1) div 2)) \<le> ekey (?q ! j)" if "j \<noteq> p"
      proof (cases "j = i")
        case True
        then have "(j - 1) div 2 = p" by (simp add: p_def)
        then show ?thesis using i True by (simp add: nth)
      next
        case ji: False
        consider "(j - 1) div 2 = i" | "(j - 1) div 2 = p" | "(j - 1) div 2 \<noteq> i" "(j - 1) div 2 \<noteq> p" by blast
        then show ?thesis
        proof cases
          case 1
          then show ?thesis using chi [of j] j ji that by (simp add: nth)
        next
          case 2
          then have "ekey (q ! p) \<le> ekey (q ! j)" using ord [of j] j ji by simp
          then show ?thesis using 2 i(2) ji that by (simp add: nth)
        next
          case 3
          then show ?thesis using ord [of j] j ji that by (simp add: nth)
        qed
      qed
      assume p: "(j - 1) div 2 = p" "0 < p"
      have up: "ekey (q ! ((p - 1) div 2)) \<le> ekey (q ! p)" using ord [of p] p(2) i(3) "1.prems"(2) by simp
      have ne: "(p - 1) div 2 \<noteq> p" "(p - 1) div 2 \<noteq> i" using p(2) i(3) by linarith+
      have "j \<noteq> p" using p(1) pj by auto
      then show "ekey (?q ! ((p - 1) div 2)) \<le> ekey (?q ! j)"
        using up ne ord [of j] j p(1) by (cases "j = i") (auto simp: nth)
    qed
    then show ?thesis
      using "1.IH" [OF _ refl] True i "1.prems"(2) by (simp add: siftUp.simps [of q i] Let_def p_def)
  qed
qed

lemma push_heap:
  assumes "heap q"
  shows "heap (push ev q)"
proof -
  have "heap_above (length q) (q @ [ev])"
    using assms by (auto simp: heap_above_def heap_from_def nth_append)
  then show ?thesis by (simp add: push_def siftUp_heap)
qed

lemma mset_push: "mset (push ev q) = add_mset ev (mset q)"
  by (simp add: push_def mset_siftUp)

lemma heap_root_least: "heap q \<Longrightarrow> j < length q \<Longrightarrow> ekey (q ! 0) \<le> ekey (q ! j)"
proof (induction j rule: less_induct)
  case (less j)
  show ?case
  proof (cases "j = 0")
    case False
    then have "(j - 1) div 2 < j" by linarith
    then have "ekey (q ! 0) \<le> ekey (q ! ((j - 1) div 2))" using less by simp
    also have "\<dots> \<le> ekey (q ! j)" using less.prems False by (simp add: heap_from_def)
    finally show ?thesis .
  qed simp
qed

lemma heap_root_min: "heap q \<Longrightarrow> ev \<in> set q \<Longrightarrow> ekey (q ! 0) \<le> ekey ev"
  by (auto simp: in_set_conv_nth heap_root_least)

lemma siftDown_short: "length q \<le> 1 \<Longrightarrow> siftDown q i = q"
  by (subst siftDown.simps) (auto simp: smallestChild_def Let_def)

lemma pop_spec:
  assumes "heap q" and "q \<noteq> []"
  shows "\<exists>q'. pop q = Some (q ! 0, q') \<and> heap q' \<and> mset q = add_mset (q ! 0) (mset q')"
proof -
  let ?e = "length q - 1"
  let ?r = "take ?e (q[0 := q ! ?e])"
  have len: "length ?r = ?e" by simp
  have r: "add_mset (q ! 0) (mset ?r) = mset q"
  proof (cases q)
    case (Cons x xs)
    show ?thesis
    proof (cases xs rule: rev_cases)
      case (snoc ys y)
      then show ?thesis using Cons by (simp add: nth_append)
    qed (use Cons in simp)
  qed (use assms in simp)
  have nth: "?r ! j = q ! j" if "0 < j" "j < ?e" for j using that by simp
  have "heap (siftDown ?r 0) \<and> mset (siftDown ?r 0) = mset ?r"
  proof (cases "?e = 0")
    case True
    then show ?thesis by (simp add: siftDown_short heap_from_def)
  next
    case False
    have "heap_but 0 0 ?r"
      unfolding heap_but_def
    proof (intro allI impI conjI)
      fix j
      assume j: "j < length ?r" "0 < j" "(j - 1) div 2 \<noteq> 0"
      then have "(j - 1) div 2 < j" by linarith
      then have "?r ! ((j - 1) div 2) = q ! ((j - 1) div 2)" "?r ! j = q ! j"
        using j len by (intro nth; simp)+
      then show "ekey (?r ! ((j - 1) div 2)) \<le> ekey (?r ! j)"
        using assms(1) j by (simp add: heap_from_def)
    qed simp
    then show ?thesis using False len by (simp add: siftDown_heap mset_siftDown)
  qed
  then show ?thesis using assms(2) r by (simp add: pop_def Let_def)
qed

lemma heap_from_mono: "heap_from k q \<Longrightarrow> k \<le> k' \<Longrightarrow> heap_from k' q"
  by (auto simp: heap_from_def)

lemma heapify_prefix:
  "k \<le> length q div 2 \<Longrightarrow> heap_from k q \<Longrightarrow>
    heap (fold (\<lambda>i q. siftDown q i) (rev [0..<k]) q) \<and>
    mset (fold (\<lambda>i q. siftDown q i) (rev [0..<k]) q) = mset q"
proof (induction k arbitrary: q)
  case (Suc k)
  then have k: "k < length q" by linarith
  have "heap_but k k q" using Suc.prems(2) by (auto simp: heap_but_def heap_from_def)
  then have h: "heap_from k (siftDown q k)" using k by (intro siftDown_heap) simp_all
  have "k \<le> length (siftDown q k) div 2" using Suc.prems(1) by simp
  from Suc.IH [OF this h] show ?case using k by (simp add: mset_siftDown)
qed simp

lemma heapify_spec: "heap (heapify q) \<and> mset (heapify q) = mset q"
proof -
  have "heap_from (length q div 2) q"
    by (auto simp: heap_from_def)
  then show ?thesis using heapify_prefix [of "length q div 2" q] by (simp add: heapify_def)
qed

definition takeDue :: "u64 \<Rightarrow> 'm event list \<Rightarrow> ('m event \<times> 'm event list) option" where
  "takeDue now q = (if length q > 0 \<and> evAt (q ! 0) \<le> now then pop q else None)"

subsection \<open>sim/sim.go: the linear schedule\<close>

record 'm scheduled =
  scAt :: u64
  scSeq :: u64
  scMsg :: 'm

definition skey :: "'m scheduled \<Rightarrow> u64 \<times> u64" where
  "skey ev = (scAt ev, scSeq ev)"

definition betterReady :: "u64 \<Rightarrow> 'm scheduled list \<Rightarrow> nat \<Rightarrow> nat option \<Rightarrow> nat option" where
  "betterReady now q i best =
     (if scAt (q ! i) > now then best
      else case best of
        None \<Rightarrow> Some i
      | Some b \<Rightarrow>
          if scAt (q ! i) < scAt (q ! b) \<or> scAt (q ! i) = scAt (q ! b) \<and> scSeq (q ! i) < scSeq (q ! b)
          then Some i else Some b)"

definition nextReady :: "u64 \<Rightarrow> 'm scheduled list \<Rightarrow> nat option" where
  "nextReady now q = fold (betterReady now q) [0..<length q] None"

definition takeReady :: "u64 \<Rightarrow> 'm scheduled list \<Rightarrow> ('m scheduled \<times> 'm scheduled list) option" where
  "takeReady now q =
     (case nextReady now q of
        None \<Rightarrow> None
      | Some i \<Rightarrow> Some (q ! i, take i q @ drop (i + 1) q))"

lemma nextReady_prefix:
  "k \<le> length q \<Longrightarrow> (case fold (betterReady now q) [0..<k] None of
      None \<Rightarrow> \<forall>j < k. scAt (q ! j) > now
    | Some b \<Rightarrow> b < k \<and> scAt (q ! b) \<le> now \<and>
        (\<forall>j < k. scAt (q ! j) \<le> now \<longrightarrow> skey (q ! b) \<le> skey (q ! j)))"
proof (induction k)
  case (Suc k)
  have step: "fold (betterReady now q) [0..<Suc k] None =
    betterReady now q k (fold (betterReady now q) [0..<k] None)" by simp
  note at_k = betterReady_def [of now q k]
  show ?case
  proof (cases "fold (betterReady now q) [0..<k] None")
    case None
    then have "\<forall>j < k. scAt (q ! j) > now" using Suc by simp
    then show ?thesis unfolding step None by (auto simp: at_k less_Suc_eq)
  next
    case (Some b)
    have b: "b < k" "scAt (q ! b) \<le> now" "\<And>j. j < k \<Longrightarrow> scAt (q ! j) \<le> now \<Longrightarrow> skey (q ! b) \<le> skey (q ! j)"
      using Suc Some by auto
    let ?lt = "scAt (q ! k) < scAt (q ! b) \<or> scAt (q ! k) = scAt (q ! b) \<and> scSeq (q ! k) < scSeq (q ! b)"
    have lt: "?lt \<longleftrightarrow> skey (q ! k) < skey (q ! b)" by (auto simp: skey_def)
    consider "scAt (q ! k) > now" | "scAt (q ! k) \<le> now" "?lt" | "scAt (q ! k) \<le> now" "\<not> ?lt"
      by fastforce
    then show ?thesis
    proof cases
      case 1
      then show ?thesis unfolding step Some using b by (auto simp: at_k less_Suc_eq)
    next
      case 2
      then have "skey (q ! k) \<le> skey (q ! j)" if "j < k" "scAt (q ! j) \<le> now" for j
        using b(3) [OF that] lt by simp
      then show ?thesis unfolding step Some using 2 by (auto simp: at_k less_Suc_eq)
    next
      case 3
      then have "skey (q ! b) \<le> skey (q ! k)" using lt by simp
      then show ?thesis unfolding step Some using 3 b by (auto simp: at_k less_Suc_eq)
    qed
  qed
qed simp

lemma nextReady_None: "nextReady now q = None \<longleftrightarrow> (\<forall>e \<in> set q. scAt e > now)"
  using nextReady_prefix [of "length q" q now]
  by (auto simp: nextReady_def all_set_conv_all_nth split: option.splits)

lemma nextReady_Some:
  assumes "nextReady now q = Some i"
  shows "i < length q \<and> scAt (q ! i) \<le> now \<and> (\<forall>e \<in> set q. scAt e \<le> now \<longrightarrow> skey (q ! i) \<le> skey e)"
  using assms nextReady_prefix [of "length q" q now]
  by (auto simp: nextReady_def all_set_conv_all_nth)

lemma mset_remove_nth: "i < length q \<Longrightarrow> mset q = add_mset (q ! i) (mset (take i q @ drop (i + 1) q))"
  by (subst id_take_nth_drop [of i q]) simp_all

subsection \<open>What a run loop needs of a schedule\<close>

locale event_queue =
  fixes key :: "'e \<Rightarrow> u64 \<times> u64" and invar :: "'q \<Rightarrow> bool" and events :: "'q \<Rightarrow> 'e multiset"
    and insert_event :: "'e \<Rightarrow> 'q \<Rightarrow> 'q" and take_due :: "u64 \<Rightarrow> 'q \<Rightarrow> ('e \<times> 'q) option"
  assumes insert_spec: "invar q \<Longrightarrow>
      invar (insert_event e q) \<and> events (insert_event e q) = add_mset e (events q)"
    and take_none: "invar q \<Longrightarrow> take_due now q = None \<longleftrightarrow> (\<forall>e \<in># events q. fst (key e) > now)"
    and take_some: "invar q \<Longrightarrow> take_due now q = Some (e, q') \<Longrightarrow>
      invar q' \<and> events q = add_mset e (events q') \<and> fst (key e) \<le> now \<and>
      (\<forall>x \<in># events q. key e \<le> key x)"
begin

text \<open>Taking due events until none is left, with a bound on their number.\<close>

fun drain_due :: "nat \<Rightarrow> u64 \<Rightarrow> 'q \<Rightarrow> 'e list \<times> 'q" where
  "drain_due 0 now q = ([], q)"
| "drain_due (Suc k) now q =
     (case take_due now q of
        None \<Rightarrow> ([], q)
      | Some (e, q') \<Rightarrow> let (es, q'') = drain_due k now q' in (e # es, q''))"

lemma drain_due_spec:
  assumes "invar q" and "size (events q) \<le> k" and "drain_due k now q = (es, q')"
  shows "invar q' \<and> events q = mset es + events q' \<and> sorted (map key es) \<and>
    (\<forall>e \<in> set es. fst (key e) \<le> now) \<and> (\<forall>e \<in># events q'. fst (key e) > now)"
  using assms
proof (induction k arbitrary: q es)
  case 0
  then show ?case by simp
next
  case (Suc k)
  show ?case
  proof (cases "take_due now q")
    case None
    then show ?thesis using Suc.prems take_none [of q now] by simp
  next
    case (Some p)
    then obtain e q1 where t: "take_due now q = Some (e, q1)" by (cases p) auto
    have e: "invar q1" "events q = add_mset e (events q1)" "fst (key e) \<le> now"
        "\<forall>x \<in># events q. key e \<le> key x" using take_some [OF Suc.prems(1) t] by simp_all
    obtain es1 where es1: "drain_due k now q1 = (es1, q')" "es = e # es1"
      using Suc.prems(3) t by (auto split: prod.splits)
    have IH: "invar q' \<and> events q1 = mset es1 + events q' \<and> sorted (map key es1) \<and>
        (\<forall>e \<in> set es1. fst (key e) \<le> now) \<and> (\<forall>e \<in># events q'. fst (key e) > now)"
      using Suc.prems(2) e(1,2) es1(1) by (intro Suc.IH) simp_all
    have "\<forall>x \<in> set es1. key e \<le> key x" using e(2,4) IH by auto
    then show ?thesis using IH e es1(2) by simp
  qed
qed

text \<open>With distinct keys the next event depends on the contents only, not on the structure.\<close>

lemma take_due_determined:
  assumes "invar q" and "take_due now q = Some (e, q')" and "x \<in># events q" and "fst (key x) \<le> now"
    and "\<forall>y \<in># events q. fst (key y) \<le> now \<longrightarrow> key x \<le> key y"
    and "inj_on key (set_mset (events q))"
  shows "x = e"
proof -
  have "e \<in># events q" "fst (key e) \<le> now" "key e \<le> key x"
    using take_some [OF assms(1,2)] assms(3) by auto
  with assms(5) have "key x = key e" by (meson order_antisym)
  then show ?thesis using assms(3,6) \<open>e \<in># events q\<close> by (auto dest: inj_onD)
qed

end

interpretation heap_queue: event_queue ekey heap mset push takeDue
proof unfold_locales
  fix q q' :: "'m event list" and e now
  assume h: "heap q"
  show "heap (push e q) \<and> mset (push e q) = add_mset e (mset q)"
    using h by (simp add: push_heap mset_push)
  have root: "q ! 0 \<in> set q" if "q \<noteq> []" using that by simp
  have key: "fst (ekey x) = evAt x" for x :: "'m event" by (simp add: ekey_def)
  have due: "evAt (q ! 0) \<le> evAt x" if "x \<in> set q" for x
    using heap_root_min [OF h that] by (auto simp: ekey_def)
  show "takeDue now q = None \<longleftrightarrow> (\<forall>x \<in># mset q. fst (ekey x) > now)"
  proof (cases "q = []")
    case False
    then have "takeDue now q = None \<longleftrightarrow> now < evAt (q ! 0)"
      using pop_spec [OF h False] by (auto simp: takeDue_def)
    also have "\<dots> \<longleftrightarrow> (\<forall>x \<in> set q. now < evAt x)"
      using due root [OF False] by (auto intro: less_le_trans)
    finally show ?thesis by (simp add: key)
  qed (simp add: takeDue_def)
  show "takeDue now q = Some (e, q') \<Longrightarrow> heap q' \<and> mset q = add_mset e (mset q') \<and>
      fst (ekey e) \<le> now \<and> (\<forall>x \<in># mset q. ekey e \<le> ekey x)"
    using pop_spec [OF h] heap_root_min [OF h] by (auto simp: takeDue_def key split: if_splits)
qed

interpretation linear_queue: event_queue skey "\<lambda>_. True" mset "\<lambda>e q. q @ [e]" takeReady
proof unfold_locales
  fix q q' :: "'m scheduled list" and e now
  have key: "fst (skey x) = scAt x" for x :: "'m scheduled" by (simp add: skey_def)
  show "True \<and> mset (q @ [e]) = add_mset e (mset q)" by simp
  show "takeReady now q = None \<longleftrightarrow> (\<forall>x \<in># mset q. fst (skey x) > now)"
    using nextReady_None [of now q] by (auto simp: takeReady_def key split: option.splits)
  assume "takeReady now q = Some (e, q')"
  then obtain i where i: "nextReady now q = Some i" "e = q ! i" "q' = take i q @ drop (i + 1) q"
    by (auto simp: takeReady_def split: option.splits)
  have "skey e \<le> skey x" if x: "x \<in> set q" for x
  proof (cases "scAt x \<le> now")
    case True
    then show ?thesis using nextReady_Some [OF i(1)] x i(2) by auto
  next
    case False
    then have "scAt e < scAt x" using nextReady_Some [OF i(1)] i(2) by auto
    then show ?thesis by (simp add: skey_def)
  qed
  then have "\<forall>x \<in># mset q. skey e \<le> skey x" by simp
  moreover have "mset q = add_mset e (mset q')" "fst (skey e) \<le> now"
    using nextReady_Some [OF i(1)] mset_remove_nth [of i q] i by (simp_all add: key)
  ultimately show "True \<and> mset q = add_mset e (mset q') \<and> fst (skey e) \<le> now \<and> (\<forall>x \<in># mset q. skey e \<le> skey x)"
    by blast
qed

subsection \<open>Properties\<close>

text \<open>
  C13: The engine's schedule is a priority queue. On a heap, \<open>push\<close> yields a heap with one more
  event, and \<open>pop\<close> of a non-empty heap removes an event that precedes all others in the order of
  due time and sequence number and leaves a heap with exactly the remaining events.
\<close>

theorem schedule_priority_queue:
  assumes "heap q"
  shows "heap (push ev q) \<and> mset (push ev q) = add_mset ev (mset q) \<and>
    (q \<noteq> [] \<longrightarrow> (\<exists>top q'. pop q = Some (top, q') \<and> heap q' \<and> mset q = add_mset top (mset q') \<and>
      (\<forall>x \<in> set q. \<not> earlier x top)))"
proof -
  have "\<forall>x \<in> set q. \<not> earlier x (q ! 0)"
    using heap_root_min [OF assms] by (simp add: not_earlier_ekey)
  then have "q \<noteq> [] \<longrightarrow> (\<exists>top q'. pop q = Some (top, q') \<and> heap q' \<and>
      mset q = add_mset top (mset q') \<and> (\<forall>x \<in> set q. \<not> earlier x top))"
    using pop_spec [OF assms] by blast
  then show ?thesis using push_heap [OF assms] mset_push by blast
qed

definition sample_event :: "u64 \<Rightarrow> u64 \<Rightarrow> nat event" where
  "sample_event a k = \<lparr>evAt = a, evSeq = k, evFrom = 1, evTo = 2, evMsg = 0\<rparr>"

lemma sample_heap: "heap [sample_event 3 1, sample_event 5 2]"
  by (auto simp: heap_from_def less_Suc_eq ekey_def sample_event_def)

theorem schedule_priority_queue_witness:
  "heap (push (sample_event 4 3) [sample_event 3 1, sample_event 5 2]) \<and>
   (\<exists>top q'. pop [sample_event 3 1, sample_event 5 2] = Some (top, q') \<and> heap q' \<and> length q' = 1)"
  using schedule_priority_queue [OF sample_heap, of "sample_event 4 3"]
  by (simp add: pop_def Let_def siftDown_short)

definition view :: "'m event \<Rightarrow> 'm scheduled" where
  "view ev = \<lparr>scAt = evAt ev, scSeq = evSeq ev, scMsg = evMsg ev\<rparr>"

lemma skey_view [simp]: "skey (view ev) = ekey ev"
  by (simp add: skey_def ekey_def view_def)

lemma isolateQueue_spec:
  "case isolateQueue node q of (dropped, q') \<Rightarrow>
     heap q' \<and> mset q' = filter_mset (\<lambda>ev. evFrom ev \<noteq> node \<and> evTo ev \<noteq> node) (mset q) \<and>
     dropped + length q' = length q"
proof -
  define kept where "kept = filter (\<lambda>ev. \<not> (evFrom ev = node \<or> evTo ev = node)) q"
  have iso: "isolateQueue node q = (length q - length kept, heapify kept)"
    by (simp add: isolateQueue_def kept_def Let_def)
  have "mset kept = filter_mset (\<lambda>ev. evFrom ev \<noteq> node \<and> evTo ev \<noteq> node) (mset q)"
    unfolding kept_def mset_filter by (rule filter_mset_cong) auto
  moreover have "length (heapify kept) = length kept"
    using heapify_spec [of kept] by (metis size_mset)
  moreover have "length kept \<le> length q" by (simp add: kept_def)
  ultimately show ?thesis using heapify_spec [of kept] by (simp add: iso)
qed

text \<open>
  C14: Crashing a node cleans the schedule. \<open>Isolate\<close> keeps exactly the in-flight events that neither
  come from nor go to the node, reports how many it dropped, and restores the heap order whatever
  order the surviving events were in.
\<close>

theorem isolate_rebuilds_heap:
  "case isolateQueue node q of (dropped, q') \<Rightarrow>
     heap q' \<and> mset q' = filter_mset (\<lambda>ev. evFrom ev \<noteq> node \<and> evTo ev \<noteq> node) (mset q) \<and>
     dropped + length q' = length q"
  by (rule isolateQueue_spec)

text \<open>
  The heap delivers in the order of the linear scan. If the engine's heap and the simulator's
  slice hold the same events with pairwise different due time and sequence number, then at every
  moment either neither has a due event, or both take the same event and hold the same events
  afterwards. \<open>view\<close> forgets the endpoints the engine stores beside the message.
\<close>

theorem heap_equals_linear_scan:
  assumes "heap q" and "mset l = image_mset view (mset q)" and "inj_on skey (set l)"
  shows "case takeDue now q of
      None \<Rightarrow> takeReady now l = None
    | Some (ev, q') \<Rightarrow> \<exists>l'. takeReady now l = Some (view ev, l') \<and> heap q' \<and>
        mset l' = image_mset view (mset q')"
proof (cases "takeDue now q")
  case None
  then have "\<forall>e \<in># mset q. fst (ekey e) > now" using heap_queue.take_none [OF assms(1)] by blast
  then have "takeReady now l = None"
    using linear_queue.take_none [of now l] assms(2) by auto
  then show ?thesis using None by simp
next
  case (Some p)
  then obtain ev q' where t: "takeDue now q = Some (ev, q')" by (cases p) auto
  have ev: "heap q'" "mset q = add_mset ev (mset q')" "fst (ekey ev) \<le> now"
      "\<forall>x \<in># mset q. ekey ev \<le> ekey x" using heap_queue.take_some [OF assms(1) t] by blast+
  have "takeReady now l \<noteq> None"
    using linear_queue.take_none [of now l] assms(2) ev(2,3) by auto
  then obtain e l' where l': "takeReady now l = Some (e, l')" by auto
  have "view ev = e"
  proof (rule linear_queue.take_due_determined [OF _ l'])
    show "view ev \<in># mset l" using assms(2) ev(2) by simp
    show "\<forall>y \<in># mset l. fst (skey y) \<le> now \<longrightarrow> skey (view ev) \<le> skey y" using assms(2) ev(4) by auto
  qed (use ev(3) assms(3) in simp_all)
  moreover from this have "mset l' = image_mset view (mset q')"
    using linear_queue.take_some [OF _ l'] assms(2) ev(2) by simp
  ultimately show ?thesis using t l' ev(1) by simp
qed

theorem heap_equals_linear_scan_witness:
  "takeReady 4 [view (sample_event 5 2), view (sample_event 3 1)] =
     Some (view (sample_event 3 1), [view (sample_event 5 2)])"
proof -
  let ?q = "[sample_event 3 1, sample_event 5 2]" and ?l = "[view (sample_event 5 2), view (sample_event 3 1)]"
  have p: "takeDue 4 ?q = Some (sample_event 3 1, [sample_event 5 2])"
    by (simp add: takeDue_def pop_def Let_def siftDown_short sample_event_def)
  obtain l' where "takeReady 4 ?l = Some (view (sample_event 3 1), l')" "mset l' = {#view (sample_event 5 2)#}"
    using heap_equals_linear_scan [OF sample_heap, of ?l 4] p
    by (auto simp: inj_on_def skey_def view_def sample_event_def)
  then show ?thesis by simp
qed

end
