(* ===== verification/Dst_Engine.thy ===== *)
theory Dst_Engine
  imports Event_Heap Bytes
begin

text \<open>
  The deterministic simulation engine, \<^verbatim>\<open>dst/engine.go\<close>, \<^verbatim>\<open>dst/inject.go\<close> and
  \<^verbatim>\<open>dst/invariant.go\<close>. The engine is generic: the cluster under test and the message view are
  records of operations (\<open>Cluster\<close> and \<open>Wire\<close> in Go), a node operation that panics returns
  \<open>None\<close>. Go's seeded random source and SHA-256 are parameters (\<open>Rand\<close>, \<open>sha256\<close>): nothing below
  depends on their values. The delivery loop of \<open>Step\<close> runs as long as deliveries produce due
  messages, so it is a partial function, and \<open>None\<close> also covers a step that never ends.
\<close>

subsection \<open>Interfaces\<close>

record ('c, 'm) ClusterOps =
  clNodes :: "'c \<Rightarrow> u32 list"
  clTick :: "u32 \<Rightarrow> 'c \<Rightarrow> 'c option"
  clDeliver :: "u32 \<Rightarrow> 'm \<Rightarrow> 'c \<Rightarrow> 'c option"
  clDrain :: "u32 \<Rightarrow> 'm list \<Rightarrow> 'c \<Rightarrow> ('m list \<times> 'c) option"

record 'm WireOps =
  wRoute :: "'m \<Rightarrow> u32 \<times> u32"
  wDigest :: "'m \<Rightarrow> u8 \<times> u64"

record 'r Rand =
  rIntn :: "int \<Rightarrow> 'r \<Rightarrow> int \<times> 'r"
  rInt63n :: "int \<Rightarrow> 'r \<Rightarrow> int \<times> 'r"

record ('c, 'm, 'r) Env =
  xCluster :: "('c, 'm) ClusterOps"
  xWire :: "'m WireOps"
  xRand :: "'r Rand"
  xSource :: "int \<Rightarrow> 'r"
  xSha256 :: "bytes \<Rightarrow> bytes"

record Config =
  cfSeed :: int
  cfDropPermille :: int
  cfMaxDelay :: u64

subsection \<open>dst/inject.go\<close>

record Injector =
  inName :: string
  inAllow :: "u64 \<Rightarrow> u32 \<Rightarrow> u32 \<Rightarrow> u64 \<Rightarrow> bool"

fun decimal_digits :: "nat \<Rightarrow> nat \<Rightarrow> string" where
  "decimal_digits 0 n = ''''"
| "decimal_digits (Suc fuel) n =
     (if n < 10 then [char_of (48 + n)]
      else decimal_digits fuel (n div 10) @ [char_of (48 + n mod 10)])"

definition decimal :: "nat \<Rightarrow> string" where
  "decimal n = decimal_digits (Suc n) n"

definition nodeList :: "u32 list \<Rightarrow> string" where
  "nodeList ns = ''['' @ concat (case map (decimal \<circ> unat) ns of [] \<Rightarrow> [] | d # ds \<Rightarrow> d # map ((@) '' '') ds) @ '']''"

definition membership :: "u32 list \<Rightarrow> u32 \<Rightarrow> bool" where
  "membership nodes = fold (\<lambda>node s. s(node := True)) nodes (\<lambda>_. False)"

definition Split :: "u32 list \<Rightarrow> u32 list \<Rightarrow> Injector" where
  "Split a b =
     (let left = membership a; right = membership b in
      \<lparr>inName = ''split'' @ nodeList a @ ''|'' @ nodeList b,
       inAllow = (\<lambda>_ from to _. \<not> (left from \<and> right to) \<and> \<not> (right from \<and> left to))\<rparr>)"

definition IsolateNodes :: "u32 list \<Rightarrow> Injector" where
  "IsolateNodes nodes =
     (let isolated = membership nodes in
      \<lparr>inName = ''isolate'' @ nodeList nodes,
       inAllow = (\<lambda>_ from to _. \<not> isolated from \<and> \<not> isolated to)\<rparr>)"

definition Link :: "u32 \<Rightarrow> u32 \<Rightarrow> Injector" where
  "Link from to =
     \<lparr>inName = ''link'' @ decimal (unat from) @ ''->'' @ decimal (unat to),
      inAllow = (\<lambda>_ source target _. source \<noteq> from \<or> target \<noteq> to)\<rparr>"

definition During :: "u64 \<Rightarrow> u64 \<Rightarrow> Injector \<Rightarrow> Injector" where
  "During start stop inner =
     \<lparr>inName = inName inner @ ''@['' @ decimal (unat start) @ '','' @ decimal (unat stop) @ '')'',
      inAllow = (\<lambda>now from to delay.
        if now < start \<or> now \<ge> stop then True else inAllow inner now from to delay)\<rparr>"

subsection \<open>dst/invariant.go\<close>

record 'c Invariant =
  ivName :: string
  ivCheck :: "'c \<Rightarrow> string option"

record Violation =
  vInvariant :: string
  vStep :: u64
  vTrace :: string
  vErr :: string

definition Unwrap :: "Violation \<Rightarrow> string" where
  "Unwrap v = vErr v"

subsection \<open>dst/engine.go\<close>

record ('c, 'm, 'r) Engine =
  gNow :: u64
  gCluster :: 'c
  gRng :: 'r
  gDrop :: int
  gDelay :: u64
  gSeq :: u64
  gQueue :: "'m event list"
  gTrace :: bytes
  gInvariants :: "'c Invariant list"
  gInjectors :: "Injector list"
  gInjected :: "string \<Rightarrow> nat"

definition NewEngine :: "('c, 'm, 'r) Env \<Rightarrow> Config \<Rightarrow> 'c \<Rightarrow> ('c, 'm, 'r) Engine" where
  "NewEngine X c cluster =
     \<lparr>gNow = 0, gCluster = cluster, gRng = xSource X (cfSeed c), gDrop = cfDropPermille c,
      gDelay = cfMaxDelay c, gSeq = 0, gQueue = [], gTrace = replicate 32 0, gInvariants = [],
      gInjectors = [], gInjected = (\<lambda>_. 0)\<rparr>"

fun firstDenying :: "Injector list \<Rightarrow> u64 \<Rightarrow> u32 \<Rightarrow> u32 \<Rightarrow> u64 \<Rightarrow> string" where
  "firstDenying [] now from to delay = ''''"
| "firstDenying (injector # rest) now from to delay =
     (if \<not> inAllow injector now from to delay then inName injector
      else firstDenying rest now from to delay)"

definition blockedBy :: "('c, 'm, 'r) Engine \<Rightarrow> u32 \<Rightarrow> u32 \<Rightarrow> u64 \<Rightarrow> string" where
  "blockedBy e from to delay = firstDenying (gInjectors e) (gNow e) from to delay"

definition drawLoss :: "'r Rand \<Rightarrow> int \<Rightarrow> 'r \<Rightarrow> bool \<times> 'r" where
  "drawLoss R permille rng =
     (if permille > 0 then let (v, rng') = rIntn R 1000 rng in (v < permille, rng')
      else (False, rng))"

definition drawDelay :: "'r Rand \<Rightarrow> u64 \<Rightarrow> 'r \<Rightarrow> (u64 \<times> 'r) option" where
  "drawDelay R delay rng =
     (if delay > 0 then
        (if sint (delay + 1) \<le> 0 then None
         else let (v, rng') = rInt63n R (sint (delay + 1)) rng in Some (word_of_int v, rng'))
      else Some (0, rng))"

definition schedule :: "('c, 'm, 'r) Env \<Rightarrow> 'm \<Rightarrow> u64 \<Rightarrow> ('c, 'm, 'r) Engine \<Rightarrow> ('c, 'm, 'r) Engine" where
  "schedule X m d e =
     (let (from, to) = wRoute (xWire X) m; blocked = blockedBy e from to d in
      if blocked \<noteq> '''' then e\<lparr>gInjected := (gInjected e)(blocked := gInjected e blocked + 1)\<rparr>
      else
        let seq = gSeq e + 1 in
        e\<lparr>gSeq := seq, gQueue := push \<lparr>evAt = gNow e + d, evSeq = seq, evFrom = from, evTo = to,
          evMsg = m\<rparr> (gQueue e)\<rparr>)"

definition collectMessage :: "('c, 'm, 'r) Env \<Rightarrow> 'm \<Rightarrow> ('c, 'm, 'r) Engine \<Rightarrow> ('c, 'm, 'r) Engine option" where
  "collectMessage X m e =
     (let (lost, rng1) = drawLoss (xRand X) (gDrop e) (gRng e) in
      if lost then Some (e\<lparr>gRng := rng1\<rparr>)
      else do {
        (d, rng2) \<leftarrow> drawDelay (xRand X) (gDelay e) rng1;
        Some (schedule X m d (e\<lparr>gRng := rng2\<rparr>)) })"

definition collectNode :: "('c, 'm, 'r) Env \<Rightarrow> u32 \<Rightarrow> ('c, 'm, 'r) Engine \<Rightarrow> ('c, 'm, 'r) Engine option" where
  "collectNode X nid e = do {
     (ms, c) \<leftarrow> clDrain (xCluster X) nid [] (gCluster e);
     foldM (collectMessage X) ms (e\<lparr>gCluster := c\<rparr>) }"

definition Collect :: "('c, 'm, 'r) Env \<Rightarrow> ('c, 'm, 'r) Engine \<Rightarrow> ('c, 'm, 'r) Engine option" where
  "Collect X e = foldM (collectNode X) (clNodes (xCluster X) (gCluster e)) e"

definition recordDelivery :: "('c, 'm, 'r) Env \<Rightarrow> 'm event \<Rightarrow> ('c, 'm, 'r) Engine \<Rightarrow> ('c, 'm, 'r) Engine" where
  "recordDelivery X ev e =
     (let (kind, value) = wDigest (xWire X) (evMsg ev) in
      e\<lparr>gTrace := xSha256 X (PutUint64 (gNow e) @ PutUint64 (evSeq ev) @ PutUint32 (evFrom ev) @
        PutUint32 (evTo ev) @ [kind] @ PutUint64 value @ gTrace e)\<rparr>)"

text \<open>One round of the delivery loop: \<open>None\<close> is a panic, \<open>Some None\<close> the end of the loop.\<close>

definition deliverNext :: "('c, 'm, 'r) Env \<Rightarrow> ('c, 'm, 'r) Engine \<Rightarrow> ('c, 'm, 'r) Engine option option" where
  "deliverNext X e =
     (if length (gQueue e) > 0 \<and> evAt (gQueue e ! 0) \<le> gNow e then do {
        (ev, q) \<leftarrow> pop (gQueue e);
        let e1 = recordDelivery X ev (e\<lparr>gQueue := q\<rparr>);
        c \<leftarrow> clDeliver (xCluster X) (evTo ev) (evMsg ev) (gCluster e1);
        e2 \<leftarrow> Collect X (e1\<lparr>gCluster := c\<rparr>);
        Some (Some e2) }
      else Some None)"

partial_function (option) deliverLoop ::
  "('c, 'm, 'r) Env \<Rightarrow> ('c, 'm, 'r) Engine \<Rightarrow> ('c, 'm, 'r) Engine option" where
  "deliverLoop X e = do {
     r \<leftarrow> deliverNext X e;
     case r of None \<Rightarrow> Some e | Some e' \<Rightarrow> deliverLoop X e' }"

definition tickAll :: "('c, 'm, 'r) Env \<Rightarrow> ('c, 'm, 'r) Engine \<Rightarrow> ('c, 'm, 'r) Engine option" where
  "tickAll X e =
     foldM (\<lambda>nid e. do { c \<leftarrow> clTick (xCluster X) nid (gCluster e); Some (e\<lparr>gCluster := c\<rparr>) })
       (clNodes (xCluster X) (gCluster e)) e"

definition EngineStep :: "('c, 'm, 'r) Env \<Rightarrow> ('c, 'm, 'r) Engine \<Rightarrow> ('c, 'm, 'r) Engine option" where
  "EngineStep X e = do {
     e1 \<leftarrow> tickAll X (e\<lparr>gNow := gNow e + 1\<rparr>);
     e2 \<leftarrow> Collect X e1;
     deliverLoop X e2 }"

fun Run :: "('c, 'm, 'r) Env \<Rightarrow> nat \<Rightarrow> ('c, 'm, 'r) Engine \<Rightarrow> ('c, 'm, 'r) Engine option" where
  "Run X 0 e = Some e"
| "Run X (Suc steps) e = do { e' \<leftarrow> EngineStep X e; Run X steps e' }"

definition Watch :: "'c Invariant list \<Rightarrow> ('c, 'm, 'r) Engine \<Rightarrow> ('c, 'm, 'r) Engine" where
  "Watch invariants e = e\<lparr>gInvariants := gInvariants e @ invariants\<rparr>"

definition hexDigit :: "nat \<Rightarrow> char" where
  "hexDigit n = (if n < 10 then char_of (48 + n) else char_of (87 + n))"

definition TraceHash :: "('c, 'm, 'r) Engine \<Rightarrow> string" where
  "TraceHash e = concat (map (\<lambda>b. [hexDigit (unat b div 16), hexDigit (unat b mod 16)]) (gTrace e))"

fun firstViolation :: "'c Invariant list \<Rightarrow> ('c, 'm, 'r) Engine \<Rightarrow> Violation option" where
  "firstViolation [] e = None"
| "firstViolation (iv # rest) e =
     (case ivCheck iv (gCluster e) of
        Some err \<Rightarrow> Some \<lparr>vInvariant = ivName iv, vStep = gNow e, vTrace = TraceHash e, vErr = err\<rparr>
      | None \<Rightarrow> firstViolation rest e)"

definition CheckInvariants :: "('c, 'm, 'r) Engine \<Rightarrow> Violation option" where
  "CheckInvariants e = firstViolation (gInvariants e) e"

definition StepChecked :: "('c, 'm, 'r) Env \<Rightarrow> ('c, 'm, 'r) Engine \<Rightarrow> (Violation option \<times> ('c, 'm, 'r) Engine) option" where
  "StepChecked X e = do { e' \<leftarrow> EngineStep X e; Some (CheckInvariants e', e') }"

fun RunChecked :: "('c, 'm, 'r) Env \<Rightarrow> nat \<Rightarrow> ('c, 'm, 'r) Engine \<Rightarrow> (Violation option \<times> ('c, 'm, 'r) Engine) option" where
  "RunChecked X 0 e = Some (None, e)"
| "RunChecked X (Suc steps) e = do {
     (err, e') \<leftarrow> StepChecked X e;
     case err of Some v \<Rightarrow> Some (Some v, e') | None \<Rightarrow> RunChecked X steps e' }"

definition Isolate :: "u32 \<Rightarrow> ('c, 'm, 'r) Engine \<Rightarrow> nat \<times> ('c, 'm, 'r) Engine" where
  "Isolate node e = (let (dropped, q) = isolateQueue node (gQueue e) in (dropped, e\<lparr>gQueue := q\<rparr>))"

definition Pending :: "('c, 'm, 'r) Engine \<Rightarrow> nat" where
  "Pending e = length (gQueue e)"

definition Inject :: "Injector list \<Rightarrow> ('c, 'm, 'r) Engine \<Rightarrow> ('c, 'm, 'r) Engine" where
  "Inject injectors e = e\<lparr>gInjectors := gInjectors e @ injectors\<rparr>"

definition InjectedDrops :: "('c, 'm, 'r) Engine \<Rightarrow> string \<Rightarrow> nat" where
  "InjectedDrops e = gInjected e"

subsection \<open>Injectors\<close>

lemma membership_set: "membership nodes n \<longleftrightarrow> n \<in> set nodes"
proof -
  have "fold (\<lambda>node s. s(node := True)) nodes s n \<longleftrightarrow> s n \<or> n \<in> set nodes" for s
    by (induction nodes arbitrary: s) auto
  then show ?thesis by (simp add: membership_def)
qed

text \<open>
  What the programmed network faults block. \<open>Split\<close> blocks exactly the messages between the two
  groups, in both directions; \<open>Isolate\<close> those from or to an isolated node; \<open>Link\<close> those in the one
  direction; \<open>During\<close> blocks what its inner fault blocks, and only while the clock is in the window.
\<close>

theorem injector_semantics:
  "(inAllow (Split a b) now from to d \<longleftrightarrow>
      (\<not> (from \<in> set a \<and> to \<in> set b) \<and> \<not> (from \<in> set b \<and> to \<in> set a))) \<and>
   (inAllow (IsolateNodes ns) now from to d \<longleftrightarrow> from \<notin> set ns \<and> to \<notin> set ns) \<and>
   (inAllow (Link f t) now from to d \<longleftrightarrow> (from, to) \<noteq> (f, t)) \<and>
   (inAllow (During start stop inner) now from to d \<longleftrightarrow>
      (if start \<le> now \<and> now < stop then inAllow inner now from to d else True))"
  by (auto simp: Split_def IsolateNodes_def Link_def During_def Let_def membership_set)

subsection \<open>Collecting\<close>

lemma schedule_frame [simp]:
  "gRng (schedule X m d e) = gRng e" "gCluster (schedule X m d e) = gCluster e"
  "gNow (schedule X m d e) = gNow e" "gDrop (schedule X m d e) = gDrop e"
  "gDelay (schedule X m d e) = gDelay e" "gInjectors (schedule X m d e) = gInjectors e"
  "gTrace (schedule X m d e) = gTrace e" "gInvariants (schedule X m d e) = gInvariants e"
  by (simp_all add: schedule_def Let_def split: prod.splits)

lemma schedule_heap: "heap (gQueue e) \<Longrightarrow> heap (gQueue (schedule X m d e))"
  by (auto simp: schedule_def Let_def push_heap split: prod.splits)

text \<open>\<open>settled e e'\<close>: collecting changed nothing but the cluster, the draws and the schedule.\<close>

definition settled :: "('c, 'm, 'r) Engine \<Rightarrow> ('c, 'm, 'r) Engine \<Rightarrow> bool" where
  "settled e e' \<longleftrightarrow> gNow e' = gNow e \<and> gDrop e' = gDrop e \<and> gDelay e' = gDelay e \<and>
     gInjectors e' = gInjectors e \<and> gTrace e' = gTrace e \<and> gInvariants e' = gInvariants e \<and>
     (heap (gQueue e) \<longrightarrow> heap (gQueue e'))"

lemma settled_refl [simp]: "settled e e"
  by (simp add: settled_def)

lemma settled_trans: "settled a b \<Longrightarrow> settled b c \<Longrightarrow> settled a c"
  by (simp add: settled_def)

lemma settled_foldM:
  assumes "foldM f xs e = Some e'" and "\<And>x e e'. f x e = Some e' \<Longrightarrow> settled e e'"
  shows "settled e e'"
  by (rule foldM_invariant [OF assms(1), where P = "settled e"])
    (auto intro: settled_trans dest: assms(2))

lemma collectMessage_settled: "collectMessage X m e = Some e' \<Longrightarrow> settled e e'"
  by (auto simp: collectMessage_def settled_def bind_eq_Some_conv schedule_heap
      split: prod.splits if_splits)

lemma collectNode_settled:
  assumes "collectNode X nid e = Some e'"
  shows "settled e e'"
proof -
  obtain ms c where "foldM (collectMessage X) ms (e\<lparr>gCluster := c\<rparr>) = Some e'"
    using assms by (auto simp: collectNode_def bind_eq_Some_conv)
  then have "settled (e\<lparr>gCluster := c\<rparr>) e'"
    by (rule settled_foldM) (rule collectMessage_settled)
  then show ?thesis by (simp add: settled_def)
qed

lemma Collect_settled: "Collect X e = Some e' \<Longrightarrow> settled e e'"
  unfolding Collect_def by (erule settled_foldM) (rule collectNode_settled)

lemma recordDelivery_frame [simp]:
  "gQueue (recordDelivery X ev e) = gQueue e" "gNow (recordDelivery X ev e) = gNow e"
  "gCluster (recordDelivery X ev e) = gCluster e"
  by (simp_all add: recordDelivery_def split: prod.splits)

lemma deliverNext_heap:
  assumes "deliverNext X e = Some (Some e')" and "heap (gQueue e)"
  shows "heap (gQueue e') \<and> gNow e' = gNow e"
proof -
  obtain ev q c where p: "pop (gQueue e) = Some (ev, q)"
    and c: "Collect X ((recordDelivery X ev (e\<lparr>gQueue := q\<rparr>))\<lparr>gCluster := c\<rparr>) = Some e'"
    using assms(1) by (auto simp: deliverNext_def bind_eq_Some_conv Let_def split: if_splits)
  have "gQueue e \<noteq> []" using p by (auto simp: pop_def)
  then have "heap q" using pop_spec [OF assms(2)] p by auto
  then show ?thesis using Collect_settled [OF c] by (simp add: settled_def)
qed

lemma deliverNext_end: "deliverNext X e = Some None \<longleftrightarrow> takeDue (gNow e) (gQueue e) = None"
  by (auto simp: deliverNext_def takeDue_def pop_def bind_eq_Some_conv Let_def split: if_splits)

lemma deliverLoop_spec:
  assumes "deliverLoop X e = Some e'" and "heap (gQueue e)"
  shows "heap (gQueue e') \<and> gNow e' = gNow e \<and> (\<forall>ev \<in> set (gQueue e'). gNow e' < evAt ev)"
proof -
  have "heap (gQueue e) \<longrightarrow> heap (gQueue e') \<and> gNow e' = gNow e \<and>
      (\<forall>ev \<in> set (gQueue e'). gNow e' < evAt ev)"
  proof (rule deliverLoop.raw_induct [where P = "\<lambda>X e e'. heap (gQueue e) \<longrightarrow>
        heap (gQueue e') \<and> gNow e' = gNow e \<and> (\<forall>ev \<in> set (gQueue e'). gNow e' < evAt ev)", OF _ assms(1)])
    fix loop :: "('a, 'b, 'c) Env \<Rightarrow> ('a, 'b, 'c) Engine \<Rightarrow> ('a, 'b, 'c) Engine option" and X e e'
    assume IH: "\<And>X e e'. loop X e = Some e' \<Longrightarrow> heap (gQueue e) \<longrightarrow>
        heap (gQueue e') \<and> gNow e' = gNow e \<and> (\<forall>ev \<in> set (gQueue e'). gNow e' < evAt ev)"
      and eq: "deliverNext X e \<bind> case_option (Some e) (loop X) = Some e'"
    then obtain r where r: "deliverNext X e = Some r" "(case r of None \<Rightarrow> Some e | Some e1 \<Rightarrow> loop X e1) = Some e'"
      by (auto simp: bind_eq_Some_conv)
    show "heap (gQueue e) \<longrightarrow> heap (gQueue e') \<and> gNow e' = gNow e \<and> (\<forall>ev \<in> set (gQueue e'). gNow e' < evAt ev)"
    proof (cases r)
      case None
      then have "takeDue (gNow e) (gQueue e) = None" using r(1) deliverNext_end by blast
      then show ?thesis
        using heap_queue.take_none [of "gQueue e" "gNow e"] r(2) None by (auto simp: ekey_def)
    next
      case (Some e1)
      then show ?thesis using IH [of X e1 e'] deliverNext_heap [of X e e1] r by auto
    qed
  qed
  then show ?thesis using assms(2) by blast
qed

lemma tickAll_frame:
  assumes "tickAll X e = Some e'"
  shows "gQueue e' = gQueue e \<and> gNow e' = gNow e"
  using assms unfolding tickAll_def
  by (rule foldM_invariant [where P = "\<lambda>e'. gQueue e' = gQueue e \<and> gNow e' = gNow e"])
    (auto simp: bind_eq_Some_conv)

text \<open>
  C15: A step leaves nothing due. When \<open>Step\<close> returns, the clock has advanced by one, the schedule is
  a heap again, and every message still in flight is due strictly later: all messages due by now,
  including those produced by deliveries of the same step, have been delivered.
\<close>

theorem step_delivers_all_due:
  assumes "EngineStep X e = Some e'" and "heap (gQueue e)"
  shows "gNow e' = gNow e + 1 \<and> heap (gQueue e') \<and> (\<forall>ev \<in> set (gQueue e'). gNow e' < evAt ev)"
proof -
  obtain e1 e2 where e: "tickAll X (e\<lparr>gNow := gNow e + 1\<rparr>) = Some e1" "Collect X e1 = Some e2"
      "deliverLoop X e2 = Some e'"
    using assms(1) by (auto simp: EngineStep_def bind_eq_Some_conv)
  have "heap (gQueue e1)" "gNow e1 = gNow e + 1" using tickAll_frame [OF e(1)] assms(2) by simp_all
  then have "heap (gQueue e2)" "gNow e2 = gNow e + 1"
    using Collect_settled [OF e(2)] by (simp_all add: settled_def)
  then show ?thesis using deliverLoop_spec [OF e(3)] by auto
qed

text \<open>
  A concrete cluster for the witnesses: node 1 sends one message to node 2 on every tick, and the
  cluster state counts the messages waiting to be drained and the deliveries so far.
\<close>

definition pinger :: "(nat \<times> nat, unit) ClusterOps" where
  "pinger = \<lparr>clNodes = (\<lambda>_. [1, 2]),
     clTick = (\<lambda>nid (out, got). Some (if nid = 1 then out + 1 else out, got)),
     clDeliver = (\<lambda>nid _ (out, got). Some (out, got + 1)),
     clDrain = (\<lambda>nid ms (out, got). Some (if nid = 1 then (ms @ replicate out (), 0, got) else (ms, out, got)))\<rparr>"

definition pinger_env :: "(nat \<times> nat, unit, unit) Env" where
  "pinger_env = \<lparr>xCluster = pinger, xWire = \<lparr>wRoute = (\<lambda>_. (1, 2)), wDigest = (\<lambda>_. (7, 8))\<rparr>,
     xRand = \<lparr>rIntn = (\<lambda>n r. (0, r)), rInt63n = (\<lambda>n r. (0, r))\<rparr>, xSource = (\<lambda>_. ()),
     xSha256 = (\<lambda>_. replicate 32 1)\<rparr>"

definition pinger_engine :: "(nat \<times> nat) Invariant list \<Rightarrow> u64 \<Rightarrow> (nat \<times> nat, unit, unit) Engine" where
  "pinger_engine ivs now = (NewEngine pinger_env \<lparr>cfSeed = 0, cfDropPermille = 0, cfMaxDelay = 3\<rparr> (0, 0))\<lparr>gNow := now, gInvariants := ivs\<rparr>"

lemmas pinger_defs = pinger_def pinger_env_def pinger_engine_def NewEngine_def

lemma pinger_collect:
  "Collect pinger_env ((pinger_engine ivs now)\<lparr>gCluster := (1, 0)\<rparr>) =
     Some ((pinger_engine ivs now)\<lparr>gSeq := 1,
       gQueue := [\<lparr>evAt = now, evSeq = 1, evFrom = 1, evTo = 2, evMsg = ()\<rparr>]\<rparr>)"
  by (simp add: pinger_defs Collect_def collectNode_def collectMessage_def drawLoss_def drawDelay_def
      schedule_def blockedBy_def push_def siftUp.simps)

lemma pinger_step:
  "EngineStep pinger_env (pinger_engine ivs 0) =
     Some ((pinger_engine ivs 1)\<lparr>gSeq := 1, gCluster := (0, 1), gTrace := replicate 32 1\<rparr>)"
proof -
  let ?q = "\<lparr>evAt = 1, evSeq = 1, evFrom = 1, evTo = 2, evMsg = ()\<rparr> :: unit event"
  let ?e = "(pinger_engine ivs 1)\<lparr>gSeq := 1, gQueue := [?q]\<rparr>"
  let ?e' = "(pinger_engine ivs 1)\<lparr>gSeq := 1, gCluster := (0, 1), gTrace := replicate 32 1\<rparr>"
  have t: "tickAll pinger_env ((pinger_engine ivs 0)\<lparr>gNow := 1\<rparr>) = Some ((pinger_engine ivs 1)\<lparr>gCluster := (1, 0)\<rparr>)"
    by (simp add: pinger_defs tickAll_def)
  have "deliverNext pinger_env ?e = Some (Some ?e')"
    by (simp add: pinger_defs deliverNext_def pop_def siftDown.simps smallestChild_def recordDelivery_def Collect_def collectNode_def)
  moreover have "deliverNext pinger_env ?e' = Some None"
    by (simp add: pinger_defs deliverNext_def)
  ultimately have "deliverLoop pinger_env ?e = Some ?e'"
    by (subst deliverLoop.simps, simp, subst deliverLoop.simps, simp)
  moreover have "(pinger_engine ivs 0)\<lparr>gNow := gNow (pinger_engine ivs 0) + 1\<rparr> = (pinger_engine ivs 0)\<lparr>gNow := 1\<rparr>"
    by (simp add: pinger_defs)
  ultimately show ?thesis using pinger_collect [of ivs 1] by (simp add: EngineStep_def t)
qed

theorem step_delivers_all_due_witness:
  "\<exists>e'. EngineStep pinger_env (pinger_engine [] 0) = Some e' \<and> gNow e' = 1 \<and> heap (gQueue e')"
  using step_delivers_all_due [OF pinger_step [of "[]"]] pinger_step [of "[]"]
  by (simp add: heap_from_def pinger_defs)

subsection \<open>Injectors and the seeded draws\<close>

lemma collectMessage_same_draws:
  assumes "collectMessage X m e = Some e1" and "gRng f = gRng e" and "gDrop f = gDrop e"
    and "gDelay f = gDelay e" and "gCluster f = gCluster e"
  shows "\<exists>f1. collectMessage X m f = Some f1 \<and> gRng f1 = gRng e1 \<and> gDrop f1 = gDrop e1 \<and>
    gDelay f1 = gDelay e1 \<and> gCluster f1 = gCluster e1"
  using assms by (auto simp: collectMessage_def bind_eq_Some_conv split: prod.splits if_splits)

lemma foldM_related:
  assumes "foldM f xs a = Some a'" and "R a b"
    and "\<And>x a a' b. f x a = Some a' \<Longrightarrow> R a b \<Longrightarrow> \<exists>b'. g x b = Some b' \<and> R a' b'"
  shows "\<exists>b'. foldM g xs b = Some b' \<and> R a' b'"
  using assms
proof (induction xs arbitrary: a b)
  case (Cons x xs)
  then obtain a1 where a1: "f x a = Some a1" "foldM f xs a1 = Some a'" by (auto simp: bind_eq_Some_conv)
  then obtain b1 where b1: "g x b = Some b1" "R a1 b1" using Cons.prems(2,3) by blast
  have "\<exists>b'. foldM g xs b1 = Some b' \<and> R a' b'"
    by (rule Cons.IH [OF a1(2) b1(2)]) (rule Cons.prems(3))
  with b1(1) show ?case by auto
qed simp

definition same_draws :: "('c, 'm, 'r) Engine \<Rightarrow> ('c, 'm, 'r) Engine \<Rightarrow> bool" where
  "same_draws e f \<longleftrightarrow> gRng f = gRng e \<and> gDrop f = gDrop e \<and> gDelay f = gDelay e \<and>
     gCluster f = gCluster e"

lemma collectNode_same_draws:
  assumes "collectNode X nid e = Some e1" and "same_draws e f"
  shows "\<exists>f1. collectNode X nid f = Some f1 \<and> same_draws e1 f1"
proof -
  obtain ms c where d: "clDrain (xCluster X) nid [] (gCluster e) = Some (ms, c)"
    and m: "foldM (collectMessage X) ms (e\<lparr>gCluster := c\<rparr>) = Some e1"
    using assms(1) by (auto simp: collectNode_def bind_eq_Some_conv)
  have "\<exists>f1. foldM (collectMessage X) ms (f\<lparr>gCluster := c\<rparr>) = Some f1 \<and> same_draws e1 f1"
    using m by (rule foldM_related)
      (use assms(2) collectMessage_same_draws in \<open>fastforce simp: same_draws_def\<close>)+
  then show ?thesis using d assms(2) by (simp add: collectNode_def same_draws_def)
qed

text \<open>
  C16: Registering faults never shifts the seeded schedule. Collecting with any list of injectors
  consumes exactly the same random draws as collecting without them, and drains the cluster to the
  same state, so a run with a fault and a run without one stay comparable.
\<close>

theorem injectors_keep_draws:
  assumes "Collect X e = Some e1"
  shows "\<exists>e2. Collect X (Inject injectors e) = Some e2 \<and> gRng e2 = gRng e1 \<and> gCluster e2 = gCluster e1"
proof -
  have s: "same_draws e (Inject injectors e)" by (simp add: same_draws_def Inject_def)
  have "\<exists>e2. foldM (collectNode X) (clNodes (xCluster X) (gCluster e)) (Inject injectors e) = Some e2 \<and>
      same_draws e1 e2"
    using assms unfolding Collect_def
    by (rule foldM_related [where R = same_draws]) (use s collectNode_same_draws in blast)+
  then show ?thesis by (auto simp: Collect_def same_draws_def Inject_def)
qed

theorem injectors_keep_draws_witness:
  "\<exists>e2. Collect pinger_env (Inject [IsolateNodes [2]] ((pinger_engine [] 5)\<lparr>gCluster := (1, 0)\<rparr>)) = Some e2 \<and>
     gCluster e2 = (0, 0)"
  using injectors_keep_draws [OF pinger_collect [of "[]" 5], of "[IsolateNodes [2]]"] by (auto simp: pinger_defs)

text \<open>
  C18: Delays stay in their bound. If the random source honours its contract (a draw below \<open>n\<close> is at
  least zero and below \<open>n\<close>), a collected message is lost, blocked, or scheduled with the next
  sequence number at a delay of at most \<open>MaxDelay\<close> from now.
\<close>

theorem collect_delay_bound:
  assumes "\<And>n rng. 0 < n \<Longrightarrow> 0 \<le> fst (rInt63n (xRand X) n rng) \<and> fst (rInt63n (xRand X) n rng) < n"
    and "collectMessage X m e = Some e'"
  shows "gQueue e' = gQueue e \<or>
    (\<exists>d. d \<le> gDelay e \<and> gSeq e' = gSeq e + 1 \<and>
       gQueue e' = push \<lparr>evAt = gNow e + d, evSeq = gSeq e + 1, evFrom = fst (wRoute (xWire X) m),
         evTo = snd (wRoute (xWire X) m), evMsg = m\<rparr> (gQueue e))"
proof -
  obtain lost rng1 where l: "drawLoss (xRand X) (gDrop e) (gRng e) = (lost, rng1)" by fastforce
  show ?thesis
  proof (cases lost)
    case True
    then show ?thesis using assms(2) l by (auto simp: collectMessage_def)
  next
    case False
    then obtain d rng2 where d: "drawDelay (xRand X) (gDelay e) rng1 = Some (d, rng2)"
      and e': "e' = schedule X m d (e\<lparr>gRng := rng2\<rparr>)"
      using assms(2) l by (auto simp: collectMessage_def bind_eq_Some_conv)
    have "d \<le> gDelay e"
    proof (cases "gDelay e > 0")
      case True
      let ?n = "sint (gDelay e + 1)"
      obtain v where v: "0 < ?n" "d = word_of_int v" "v = fst (rInt63n (xRand X) ?n rng1)"
        using d True by (auto simp: drawDelay_def split: if_splits prod.splits)
      then have b: "0 \<le> v" "v < ?n" using assms(1) by auto
      have "?n \<le> uint (gDelay e + 1)"
        unfolding sint_uint signed_take_bit_int_less_eq_self_iff
        by (rule order_trans [of _ 0]) simp_all
      also have "\<dots> \<le> uint (gDelay e) + 1" using uint_add_le [of "gDelay e" 1] by simp
      finally have "v \<le> uint (gDelay e)" using b by simp
      moreover have "uint d = v"
        using v(2) b(1) calculation uint_lt2p [of "gDelay e"] by (simp add: uint_word_of_int)
      ultimately show ?thesis by (simp add: word_le_def)
    qed (use d in \<open>simp add: drawDelay_def\<close>)
    then show ?thesis using e' by (auto simp: schedule_def Let_def split: prod.splits)
  qed
qed

theorem collect_delay_bound_witness:
  "\<exists>e'. collectMessage pinger_env () (pinger_engine [] 5) = Some e' \<and>
     (gQueue e' = [] \<or> (\<exists>d \<le> 3. gQueue e' =
        push \<lparr>evAt = 5 + d, evSeq = 1, evFrom = 1, evTo = 2, evMsg = ()\<rparr> []))"
proof -
  obtain e' where e': "collectMessage pinger_env () (pinger_engine [] 5) = Some e'"
    by (simp add: pinger_defs collectMessage_def drawLoss_def drawDelay_def)
  show ?thesis
    using collect_delay_bound [OF _ e'] e' by (auto simp: pinger_defs)
qed

text \<open>The range of \<open>MaxDelay\<close> for which \<open>Int63n\<close> gets a positive bound.\<close>

lemma sint_nonpos_iff: "sint (x :: u64) \<le> 0 \<longleftrightarrow> x = 0 \<or> 2 ^ 63 \<le> uint x"
proof (cases "2 ^ 63 \<le> uint x")
  case True
  have "uint x div 2 ^ 63 = 1"
    using True uint_lt2p [of x] by (intro int_div_pos_eq [of _ _ _ "uint x - 2 ^ 63"]) simp_all
  then have "bit (uint x) 63" by (simp add: bit_iff_odd)
  then have "sint x < 0" by (simp add: sint_uint signed_take_bit_negative_iff)
  then show ?thesis using True by simp
next
  case False
  moreover have "- (2 ^ 63) \<le> uint x" by (rule order_trans [OF _ uint_ge_0]) simp
  ultimately have "signed_take_bit 63 (uint x) = uint x"
    by (intro signed_take_bit_int_eq_self) (simp_all only: not_le)
  then have "sint x = uint x" by (simp add: sint_uint)
  then show ?thesis using False uint_ge_0 [of x] uint_0_iff [of x] by linarith
qed

lemma drawDelay_panics_iff:
  "drawDelay R delay rng = None \<longleftrightarrow> 2 ^ 63 \<le> unat delay + 1"
proof (cases "unat delay + 1 < 2 ^ 64")
  case True
  then have "unat (delay + 1) = unat delay + 1" by (rule unat_plus_one)
  then have u: "uint (delay + 1) = int (unat delay) + 1" by (simp only: uint_nat of_nat_Suc of_nat_add of_nat_1)
  have "delay + 1 \<noteq> 0"
  proof
    assume "delay + 1 = 0"
    with u show False using uint_ge_0 [of delay] by simp
  qed
  moreover have "(2 ^ 63 \<le> int (unat delay) + 1) = (2 ^ 63 \<le> unat delay + 1)"
    using of_nat_le_iff [where 'a = int, of "2 ^ 63" "unat delay + 1"] by simp
  ultimately have "sint (delay + 1) \<le> 0 \<longleftrightarrow> 2 ^ 63 \<le> unat delay + 1"
    unfolding sint_nonpos_iff u by blast
  moreover have "delay > 0" if "2 ^ 63 \<le> unat delay + 1"
    using that unat_gt_0 [of delay] by (simp add: word_neq_0_conv)
  ultimately show ?thesis by (auto simp: drawDelay_def split: prod.splits)
next
  case False
  then have e: "unat delay + 1 = 2 ^ 64" using u64_max_bound [of delay] by (simp del: u64_max_bound)
  then have "unat (delay + 1) = 0" unfolding unat_word_ariths by simp
  then have "delay + 1 = 0" by (simp only: unat_eq_zero)
  moreover have "delay > 0" using e unat_gt_0 [of delay] by (simp add: word_neq_0_conv)
  ultimately show ?thesis using False by (simp add: drawDelay_def)
qed

text \<open>
  Which delays can be drawn. The argument \<open>int64(e.delay + 1)\<close> of \<open>Int63n\<close> is not positive, and
  the draw panics, exactly when \<open>MaxDelay\<close> is at least \<open>2^63 - 1\<close>, including the value whose increment
  wraps to zero; every smaller bound draws a delay.
\<close>

theorem delay_bound_panics:
  "drawDelay R delay rng = None \<longleftrightarrow> 2 ^ 63 \<le> unat delay + 1"
  by (rule drawDelay_panics_iff)

subsection \<open>Checked runs\<close>

lemma firstViolation_stamp:
  "firstViolation ivs e = Some v \<Longrightarrow> vStep v = gNow e \<and> vTrace v = TraceHash e \<and>
     (\<exists>iv \<in> set ivs. ivName iv = vInvariant v \<and> ivCheck iv (gCluster e) = Some (Unwrap v))"
  by (induction ivs) (auto simp: Unwrap_def split: option.splits)

text \<open>\<open>clean X e k\<close>: the run of \<open>k\<close> steps ends in a state without a violation.\<close>

definition clean :: "('c, 'm, 'r) Env \<Rightarrow> ('c, 'm, 'r) Engine \<Rightarrow> nat \<Rightarrow> bool" where
  "clean X e k \<longleftrightarrow> (\<exists>f. Run X k e = Some f \<and> CheckInvariants f = None)"

lemma clean_Suc: "EngineStep X e = Some e1 \<Longrightarrow> clean X e (Suc k) \<longleftrightarrow> clean X e1 k"
  by (simp add: clean_def)

lemma clean_shift:
  assumes "EngineStep X e = Some e1" and "CheckInvariants e1 = None" and "\<forall>k \<in> {1..<n}. clean X e1 k"
  shows "\<forall>k \<in> {1..<Suc n}. clean X e k"
proof
  fix k assume k: "k \<in> {1..<Suc n}"
  then obtain j where j: "k = Suc j" by (cases k) auto
  have "clean X e1 j"
    using k j assms(2,3) by (cases "j = 0") (auto simp: clean_def)
  then show "clean X e k" using j clean_Suc [OF assms(1)] by simp
qed

text \<open>
  C17: \<open>RunChecked\<close> stops at the first violation. If it reports a violation, the engine is the one
  \<open>Run\<close> reaches after some number of steps, the violation is what the registered invariants report
  there, stamped with the clock and the trace hash of that step, and no earlier step violated an invariant. If it
  reports none, all the steps were run and no invariant failed after any of them.
\<close>

theorem run_checked_first_violation:
  assumes "RunChecked X n e = Some (r, e')"
  shows "case r of
      None \<Rightarrow> Run X n e = Some e' \<and> (\<forall>k \<in> {1..<Suc n}. clean X e k)
    | Some v \<Rightarrow> \<exists>k. 1 \<le> k \<and> k \<le> n \<and> Run X k e = Some e' \<and> CheckInvariants e' = Some v \<and>
        vStep v = gNow e' \<and> vTrace v = TraceHash e' \<and>
        (\<forall>j \<in> {1..<k}. clean X e j)"
  using assms
proof (induction n arbitrary: e)
  case (Suc n)
  obtain e1 where e1: "EngineStep X e = Some e1"
    "(case CheckInvariants e1 of Some v \<Rightarrow> Some (Some v, e1) | None \<Rightarrow> RunChecked X n e1) = Some (r, e')"
    using Suc.prems by (auto simp: StepChecked_def bind_eq_Some_conv)
  show ?case
  proof (cases "CheckInvariants e1")
    case (Some v)
    then have "r = Some v" "e' = e1" using e1(2) by auto
    then show ?thesis using e1(1) Some firstViolation_stamp [of "gInvariants e1" e1 v]
      by (auto simp: CheckInvariants_def intro!: exI [of _ 1])
  next
    case None
    then have IH: "case r of
        None \<Rightarrow> Run X n e1 = Some e' \<and> (\<forall>k \<in> {1..<Suc n}. clean X e1 k)
      | Some v \<Rightarrow> \<exists>k. 1 \<le> k \<and> k \<le> n \<and> Run X k e1 = Some e' \<and> CheckInvariants e' = Some v \<and>
          vStep v = gNow e' \<and> vTrace v = TraceHash e' \<and>
          (\<forall>j \<in> {1..<k}. clean X e1 j)"
      using Suc.IH e1(2) by simp
    note shift = clean_shift [OF e1(1) None]
    show ?thesis
    proof (cases r)
      case None
      then have "Run X n e1 = Some e'" "\<forall>k \<in> {1..<Suc n}. clean X e1 k" using IH by simp_all
      then show ?thesis using shift [of "Suc n"] e1(1) None by (simp del: atLeastLessThan_iff)
    next
      case (Some v)
      then obtain k where k: "1 \<le> k" "k \<le> n" "Run X k e1 = Some e'" "CheckInvariants e' = Some v"
        "vStep v = gNow e' \<and> vTrace v = TraceHash e'" "\<forall>j \<in> {1..<k}. clean X e1 j" using IH by auto
      then have "Run X (Suc k) e = Some e'" "\<forall>j \<in> {1..<Suc k}. clean X e j"
        using e1(1) shift by simp_all
      then show ?thesis using k Some by (auto intro!: exI [of _ "Suc k"])
    qed
  qed
qed simp

text \<open>The invariant of the witness fails once a message has been delivered.\<close>

definition quiet_network :: "(nat \<times> nat) Invariant" where
  "quiet_network = \<lparr>ivName = ''quiet'', ivCheck = (\<lambda>(out, got). if got > 0 then Some ''delivered'' else None)\<rparr>"

theorem run_checked_first_violation_witness:
  "\<exists>v e'. RunChecked pinger_env 4 (pinger_engine [quiet_network] 0) = Some (Some v, e') \<and>
     vStep v = gNow e' \<and> Unwrap v = ''delivered''"
proof -
  let ?e = "(pinger_engine [quiet_network] 1)\<lparr>gSeq := 1, gCluster := (0, 1), gTrace := replicate 32 1\<rparr>"
  have v: "CheckInvariants ?e =
      Some \<lparr>vInvariant = ''quiet'', vStep = 1, vTrace = TraceHash ?e, vErr = ''delivered''\<rparr>"
    by (simp add: CheckInvariants_def pinger_defs quiet_network_def)
  have r: "RunChecked pinger_env 4 (pinger_engine [quiet_network] 0) = Some (CheckInvariants ?e, ?e)"
    using v by (simp add: StepChecked_def pinger_step numeral_eq_Suc)
  show ?thesis using run_checked_first_violation [OF r] r v by (auto simp: Unwrap_def)
qed

text \<open>
  An injector whose name is empty never blocks anything. \<open>blockedBy\<close> reports the blocking
  injector by its name and the caller takes the empty name as ``allowed'', so registering such an
  injector changes nothing, whatever its \<open>Allow\<close> says.
\<close>

theorem unnamed_injector_never_blocks:
  assumes "inName i = ''''"
  shows "blockedBy (Inject [i] e) from to d = blockedBy e from to d"
proof -
  have "firstDenying (js @ [i]) now from to d = firstDenying js now from to d" for js now
    using assms by (induction js) auto
  then show ?thesis by (simp add: blockedBy_def Inject_def)
qed

theorem unnamed_injector_never_blocks_witness:
  "blockedBy (Inject [\<lparr>inName = '''', inAllow = (\<lambda>_ _ _ _. False)\<rparr>] (pinger_engine [] 0)) 1 2 0 = ''''"
  using unnamed_injector_never_blocks [of "\<lparr>inName = '''', inAllow = (\<lambda>_ _ _ _. False)\<rparr>" "pinger_engine [] 0" 1 2 0]
  by (simp add: blockedBy_def pinger_defs)

end
