(* ===== verification/Paxos.thy ===== *)
theory Paxos
  imports Dst_Engine Quorum
begin

text \<open>
  Single-decree Paxos, \<^verbatim>\<open>examples/paxos\<close>: the node of \<^verbatim>\<open>paxos.go\<close>, the cluster adapter of
  \<^verbatim>\<open>cluster.go\<close> (the engine's \<open>Cluster\<close> and \<open>Wire\<close> records for this protocol) and the checks of
  \<^verbatim>\<open>invariants.go\<close>. \<open>NewNode\<close> panics for a size below one (a negative slice capacity), so every
  node has a positive size and \<open>Propose\<close> never divides by zero. A cluster operation on an unknown
  node dereferences a nil pointer: \<open>None\<close>.
\<close>

subsection \<open>examples/paxos/paxos.go\<close>

datatype px_Kind = Prepare | Promise | Accept | Accepted

record px_Message =
  pmKind :: px_Kind
  pmFrom :: u32
  pmTo :: u32
  pmNum :: u64
  pmVal :: u64
  pmOK :: bool
  pmAcceptedNum :: u64
  pmAcceptedVal :: u64
  pmHasAccepted :: bool

datatype px_phase = ph_idle | ph_preparing | ph_accepting | ph_decided

type_synonym Acceptance = "u64 \<times> u64"

record px_Node =
  pnId :: u32
  pnSize :: nat
  pnPeers :: "u32 list"
  pnPromised :: u64
  pnAcceptedNum :: u64
  pnAcceptedVal :: u64
  pnHasAccepted :: bool
  pnAccepts :: "Acceptance list"
  pnPhase :: px_phase
  pnRound :: u64
  pnMyNum :: u64
  pnMyVal :: u64
  pnPromiseMask :: u64
  pnAcceptMask :: u64
  pnBestNum :: u64
  pnBestVal :: u64
  pnHasBest :: bool
  pnElapsed :: u64
  pnTimeout :: u64
  pnAdopted :: nat
  pnOutbound :: "px_Message list"

definition px_message :: "px_Kind \<Rightarrow> u32 \<Rightarrow> u32 \<Rightarrow> u64 \<Rightarrow> px_Message" where
  "px_message kind from to num =
     \<lparr>pmKind = kind, pmFrom = from, pmTo = to, pmNum = num, pmVal = 0, pmOK = False,
      pmAcceptedNum = 0, pmAcceptedVal = 0, pmHasAccepted = False\<rparr>"

definition px_NewNode :: "u32 \<Rightarrow> nat \<Rightarrow> u64 \<Rightarrow> px_Node option" where
  "px_NewNode nid sz timeout =
     (if sz < 1 then None
      else Some \<lparr>pnId = nid, pnSize = sz,
        pnPeers = filter (\<lambda>i. i \<noteq> nid) (map of_nat [1 ..< Suc sz]),
        pnPromised = 0, pnAcceptedNum = 0, pnAcceptedVal = 0, pnHasAccepted = False, pnAccepts = [],
        pnPhase = ph_idle, pnRound = 0, pnMyNum = 0, pnMyVal = 0, pnPromiseMask = 0, pnAcceptMask = 0,
        pnBestNum = 0, pnBestVal = 0, pnHasBest = False, pnElapsed = 0, pnTimeout = timeout,
        pnAdopted = 0, pnOutbound = []\<rparr>)"

definition px_quorum :: "px_Node \<Rightarrow> nat" where
  "px_quorum n = pnSize n div 2 + 1"

definition px_bit :: "u32 \<Rightarrow> u64" where
  "px_bit nid = push_bit (unat (nid - 1)) 1"

function popcount_loop :: "u64 \<Rightarrow> nat \<Rightarrow> nat" where
  "popcount_loop msk cnt =
     (if msk \<noteq> 0 then popcount_loop (msk AND (msk - 1)) (cnt + 1) else cnt)"
  by pat_completeness auto
termination
  by (relation "measure (\<lambda>(msk, cnt). unat msk)") (auto intro: mask_and_pred_less)

declare popcount_loop.simps [simp del]

definition popcount :: "u64 \<Rightarrow> nat" where
  "popcount msk = popcount_loop msk 0"

definition px_Decided :: "px_Node \<Rightarrow> bool" where
  "px_Decided n \<longleftrightarrow> pnPhase n = ph_decided"

definition px_Accepted :: "px_Node \<Rightarrow> u64 \<times> u64 \<times> bool" where
  "px_Accepted n = (pnAcceptedNum n, pnAcceptedVal n, pnHasAccepted n)"

definition px_Acceptances :: "px_Node \<Rightarrow> Acceptance list" where
  "px_Acceptances n = pnAccepts n"

definition px_Promised :: "px_Node \<Rightarrow> u64" where
  "px_Promised n = pnPromised n"

definition onPrepare :: "u64 \<Rightarrow> px_Node \<Rightarrow> (bool \<times> u64 \<times> u64 \<times> bool) \<times> px_Node" where
  "onPrepare num n =
     (if num \<le> pnPromised n then ((False, 0, 0, False), n)
      else ((True, pnAcceptedNum n, pnAcceptedVal n, pnHasAccepted n), n\<lparr>pnPromised := num\<rparr>))"

definition onAccept :: "u64 \<Rightarrow> u64 \<Rightarrow> px_Node \<Rightarrow> bool \<times> px_Node" where
  "onAccept num val n =
     (if num < pnPromised n then (False, n)
      else (True, n\<lparr>pnPromised := num, pnAcceptedNum := num, pnAcceptedVal := val,
        pnHasAccepted := True, pnAccepts := pnAccepts n @ [(num, val)]\<rparr>))"

text \<open>\<open>recordPromise\<close>: collect the answer, adopt the best value on a quorum, start phase two.\<close>

definition collectPromise :: "u32 \<Rightarrow> u64 \<Rightarrow> u64 \<Rightarrow> bool \<Rightarrow> px_Node \<Rightarrow> px_Node" where
  "collectPromise from accNum accVal hasAcc n =
     (let n1 = n\<lparr>pnPromiseMask := pnPromiseMask n OR px_bit from\<rparr> in
      if hasAcc \<and> (\<not> pnHasBest n1 \<or> accNum > pnBestNum n1)
      then n1\<lparr>pnBestNum := accNum, pnBestVal := accVal, pnHasBest := True\<rparr> else n1)"

definition adoptBest :: "px_Node \<Rightarrow> px_Node" where
  "adoptBest n =
     (if pnHasBest n then
        (let n1 = (if pnBestVal n \<noteq> pnMyVal n then n\<lparr>pnAdopted := pnAdopted n + 1\<rparr> else n) in
         n1\<lparr>pnMyVal := pnBestVal n\<rparr>)
      else n)"

definition acceptOwn :: "px_Node \<Rightarrow> px_Node" where
  "acceptOwn n =
     (let (ok, n1) = onAccept (pnMyNum n) (pnMyVal n) n in
      if ok then n1\<lparr>pnAcceptMask := pnAcceptMask n1 OR px_bit (pnId n1)\<rparr> else n1)"

definition sendAccepts :: "px_Node \<Rightarrow> px_Node" where
  "sendAccepts n = n\<lparr>pnOutbound := pnOutbound n @
     map (\<lambda>peer. (px_message Accept (pnId n) peer (pnMyNum n))\<lparr>pmVal := pnMyVal n\<rparr>) (pnPeers n)\<rparr>"

definition recordPromise :: "u32 \<Rightarrow> u64 \<Rightarrow> u64 \<Rightarrow> bool \<Rightarrow> px_Node \<Rightarrow> px_Node" where
  "recordPromise from accNum accVal hasAcc n =
     (let n1 = collectPromise from accNum accVal hasAcc n in
      if popcount (pnPromiseMask n1) < px_quorum n1 then n1
      else
        let n2 = acceptOwn ((adoptBest n1)\<lparr>pnPhase := ph_accepting, pnAcceptMask := 0\<rparr>) in
        if popcount (pnAcceptMask n2) \<ge> px_quorum n2 then n2\<lparr>pnPhase := ph_decided\<rparr>
        else sendAccepts n2)"

definition startRound :: "u64 \<Rightarrow> px_Node \<Rightarrow> px_Node" where
  "startRound val n =
     (let r = max (pnRound n + 1) (pnPromised n div of_nat (pnSize n) + 1) in
      n\<lparr>pnRound := r, pnMyNum := r * of_nat (pnSize n) + ucast (pnId n), pnMyVal := val,
        pnPhase := ph_preparing, pnElapsed := 0, pnPromiseMask := 0, pnAcceptMask := 0,
        pnHasBest := False\<rparr>)"

definition sendPrepares :: "px_Node \<Rightarrow> px_Node" where
  "sendPrepares n = n\<lparr>pnOutbound := pnOutbound n @
     map (\<lambda>peer. px_message Prepare (pnId n) peer (pnMyNum n)) (pnPeers n)\<rparr>"

definition px_Propose :: "u64 \<Rightarrow> px_Node \<Rightarrow> px_Node" where
  "px_Propose val n =
     (let n1 = startRound val n; ((ok, accNum, accVal, hasAcc), n2) = onPrepare (pnMyNum n1) n1;
          n3 = (if ok then recordPromise (pnId n2) accNum accVal hasAcc n2 else n2) in
      sendPrepares n3)"

definition px_Tick :: "px_Node \<Rightarrow> px_Node" where
  "px_Tick n =
     (if pnPhase n \<noteq> ph_preparing \<and> pnPhase n \<noteq> ph_accepting then n
      else
        let n1 = n\<lparr>pnElapsed := pnElapsed n + 1\<rparr> in
        if pnElapsed n1 \<ge> pnTimeout n1 then px_Propose (pnMyVal n1) n1 else n1)"

definition px_Step :: "px_Message \<Rightarrow> px_Node \<Rightarrow> px_Node" where
  "px_Step m n =
     (case pmKind m of
        Prepare \<Rightarrow>
          (let ((ok, accNum, accVal, hasAcc), n1) = onPrepare (pmNum m) n in
           n1\<lparr>pnOutbound := pnOutbound n1 @ [(px_message Promise (pnId n1) (pmFrom m) (pmNum m))
             \<lparr>pmOK := ok, pmAcceptedNum := accNum, pmAcceptedVal := accVal, pmHasAccepted := hasAcc\<rparr>]\<rparr>)
      | Promise \<Rightarrow>
          (if pmNum m \<noteq> pnMyNum n \<or> pnPhase n \<noteq> ph_preparing \<or> \<not> pmOK m then n
           else recordPromise (pmFrom m) (pmAcceptedNum m) (pmAcceptedVal m) (pmHasAccepted m) n)
      | Accept \<Rightarrow>
          (let (ok, n1) = onAccept (pmNum m) (pmVal m) n in
           n1\<lparr>pnOutbound := pnOutbound n1 @
             [(px_message Accepted (pnId n1) (pmFrom m) (pmNum m))\<lparr>pmOK := ok\<rparr>]\<rparr>)
      | Accepted \<Rightarrow>
          (if pmNum m \<noteq> pnMyNum n \<or> pnPhase n \<noteq> ph_accepting \<or> \<not> pmOK m then n
           else
             let n1 = n\<lparr>pnAcceptMask := pnAcceptMask n OR px_bit (pmFrom m)\<rparr> in
             if popcount (pnAcceptMask n1) \<ge> px_quorum n1 then n1\<lparr>pnPhase := ph_decided\<rparr> else n1))"

definition px_Drain :: "px_Message list \<Rightarrow> px_Node \<Rightarrow> px_Message list \<times> px_Node" where
  "px_Drain dst n = (dst @ pnOutbound n, n\<lparr>pnOutbound := []\<rparr>)"

subsection \<open>examples/paxos/cluster.go\<close>

record px_Cluster =
  pcIds :: "u32 list"
  pcNodes :: "u32 \<rightharpoonup> px_Node"

definition px_addNode :: "nat \<Rightarrow> nat \<Rightarrow> px_Cluster \<Rightarrow> px_Cluster option" where
  "px_addNode cnt i c = do {
     n \<leftarrow> px_NewNode (of_nat i) cnt (12 + of_nat i * 3);
     Some \<lparr>pcIds = pcIds c @ [of_nat i], pcNodes = (pcNodes c)(of_nat i \<mapsto> n)\<rparr> }"

definition px_New :: "nat \<Rightarrow> px_Cluster option" where
  "px_New cnt =
     (if cnt < 1 then None
      else foldM (px_addNode cnt) [1 ..< Suc cnt] \<lparr>pcIds = [], pcNodes = Map.empty\<rparr>)"

definition px_update :: "u32 \<Rightarrow> (px_Node \<Rightarrow> px_Node) \<Rightarrow> px_Cluster \<Rightarrow> px_Cluster option" where
  "px_update nid f c = do { n \<leftarrow> pcNodes c nid; Some (c\<lparr>pcNodes := (pcNodes c)(nid \<mapsto> f n)\<rparr>) }"

definition pc_Tick :: "u32 \<Rightarrow> px_Cluster \<Rightarrow> px_Cluster option" where
  "pc_Tick nid = px_update nid px_Tick"

definition pc_Deliver :: "u32 \<Rightarrow> px_Message \<Rightarrow> px_Cluster \<Rightarrow> px_Cluster option" where
  "pc_Deliver nid m = px_update nid (px_Step m)"

definition pc_Drain :: "u32 \<Rightarrow> px_Message list \<Rightarrow> px_Cluster \<Rightarrow> (px_Message list \<times> px_Cluster) option" where
  "pc_Drain nid dst c = do {
     n \<leftarrow> pcNodes c nid;
     let (ms, n') = px_Drain dst n;
     Some (ms, c\<lparr>pcNodes := (pcNodes c)(nid \<mapsto> n')\<rparr>) }"

definition pc_Route :: "px_Message \<Rightarrow> u32 \<times> u32" where
  "pc_Route m = (pmFrom m, pmTo m)"

fun px_kind_byte :: "px_Kind \<Rightarrow> u8" where
  "px_kind_byte Prepare = 0"
| "px_kind_byte Promise = 1"
| "px_kind_byte Accept = 2"
| "px_kind_byte Accepted = 3"

definition pc_Digest :: "px_Message \<Rightarrow> u8 \<times> u64" where
  "pc_Digest m = (px_kind_byte (pmKind m), pmNum m)"

definition pc_Propose :: "u32 \<Rightarrow> u64 \<Rightarrow> px_Cluster \<Rightarrow> px_Cluster option" where
  "pc_Propose nid val = px_update nid (px_Propose val)"

definition pc_Adoptions :: "px_Cluster \<Rightarrow> nat" where
  "pc_Adoptions c = fold (\<lambda>nid total. total + pnAdopted (the (pcNodes c nid))) (pcIds c) 0"

definition pc_Decided :: "px_Cluster \<Rightarrow> bool" where
  "pc_Decided c \<longleftrightarrow> list_ex (\<lambda>nid. px_Decided (the (pcNodes c nid))) (pcIds c)"

definition allAcceptances :: "px_Cluster \<Rightarrow> Acceptance list" where
  "allAcceptances c = concat (map (\<lambda>nid. px_Acceptances (the (pcNodes c nid))) (pcIds c))"

definition acceptanceCounts :: "px_Cluster \<Rightarrow> Acceptance \<Rightarrow> nat" where
  "acceptanceCounts c = fold (\<lambda>a counts. counts(a := counts a + 1)) (allAcceptances c) (\<lambda>_. 0)"

definition chosenValues :: "px_Cluster \<Rightarrow> u64 list" where
  "chosenValues c =
     (let counts = acceptanceCounts c; quorum = length (pcIds c) div 2 + 1 in
      fold (\<lambda>a found. if counts a \<ge> quorum \<and> snd a \<notin> set found then found @ [snd a] else found)
        (allAcceptances c) [])"

definition Chosen :: "px_Cluster \<Rightarrow> u64 option" where
  "Chosen c = (case chosenValues c of [] \<Rightarrow> None | v # _ \<Rightarrow> Some v)"

subsection \<open>examples/paxos/invariants.go\<close>

definition valueList :: "u64 list \<Rightarrow> string" where
  "valueList vs = ''['' @ concat (case map (decimal \<circ> unat) vs of [] \<Rightarrow> [] | d # ds \<Rightarrow> d # map ((@) '' '') ds) @ '']''"

definition checkSingleChoice :: "px_Cluster \<Rightarrow> string option" where
  "checkSingleChoice c =
     (let values = chosenValues c in
      if length values > 1 then Some (''values '' @ valueList values @ '' were both chosen'') else None)"

fun firstError :: "('a \<Rightarrow> string option) \<Rightarrow> 'a list \<Rightarrow> string option" where
  "firstError check [] = None"
| "firstError check (x # xs) = (case check x of Some err \<Rightarrow> Some err | None \<Rightarrow> firstError check xs)"

definition checkPromiseRespected :: "px_Cluster \<Rightarrow> string option" where
  "checkPromiseRespected c = firstError (\<lambda>nid.
     let n = the (pcNodes c nid); (num, _, ok) = px_Accepted n in
     if ok \<and> num > px_Promised n
     then Some (''node '' @ decimal (unat nid) @ '' accepted at '' @ decimal (unat num) @
       '' but promised only '' @ decimal (unat (px_Promised n)))
     else None) (pcIds c)"

fun historyRegression :: "u32 \<Rightarrow> Acceptance list \<Rightarrow> string option" where
  "historyRegression nid (a # b # rest) =
     (if fst b < fst a
      then Some (''node '' @ decimal (unat nid) @ '' accepted '' @ decimal (unat (fst b)) @
        '' after '' @ decimal (unat (fst a)))
      else historyRegression nid (b # rest))"
| "historyRegression nid _ = None"

definition checkHistoryMonotonic :: "px_Cluster \<Rightarrow> string option" where
  "checkHistoryMonotonic c =
     firstError (\<lambda>nid. historyRegression nid (px_Acceptances (the (pcNodes c nid)))) (pcIds c)"

definition px_SafetyInvariants :: "px_Cluster Invariant list" where
  "px_SafetyInvariants =
     [\<lparr>ivName = ''at most one value chosen'', ivCheck = checkSingleChoice\<rparr>,
      \<lparr>ivName = ''acceptor never accepts below its promise'', ivCheck = checkPromiseRespected\<rparr>,
      \<lparr>ivName = ''acceptance history is monotonic'', ivCheck = checkHistoryMonotonic\<rparr>]"

definition paxosCluster :: "(px_Cluster, px_Message) ClusterOps" where
  "paxosCluster = \<lparr>clNodes = pcIds, clTick = pc_Tick, clDeliver = pc_Deliver, clDrain = pc_Drain\<rparr>"

definition paxosWire :: "px_Message WireOps" where
  "paxosWire = \<lparr>wRoute = pc_Route, wDigest = pc_Digest\<rparr>"

end
