(* ===== verification/Paxos_Inv.thy ===== *)
theory Paxos_Inv
  imports Paxos
begin

text \<open>
  Agreement for the Paxos example. The state is the map of nodes and the multiset of messages that
  were sent and not yet delivered or lost; every operation of a node, every delivery and every loss
  keeps the invariant \<open>paxos_inv\<close>. The locale \<open>voting\<close> holds the protocol-independent part of the
  argument: when every vote is for a value that is safe at its number, quorums that intersect choose
  at most one value.
\<close>

subsection \<open>Voting with intersecting quorums\<close>

type_synonym votes = "u32 \<Rightarrow> (u64 \<times> u64) set"

text \<open>
  A value is safe at \<open>b\<close> if for every lower number some quorum has left it behind (promised past it)
  and voted there, if at all, only for this value.
\<close>

definition safe_at :: "(u32 set \<Rightarrow> bool) \<Rightarrow> votes \<Rightarrow> (u32 \<Rightarrow> u64) \<Rightarrow> u64 \<Rightarrow> u64 \<Rightarrow> bool" where
  "safe_at Q V pr b v \<longleftrightarrow>
     (\<forall>c < b. \<exists>S. Q S \<and> (\<forall>a \<in> S. c < pr a \<and> (\<forall>w. (c, w) \<in> V a \<longrightarrow> w = v)))"

definition chosen_at :: "(u32 set \<Rightarrow> bool) \<Rightarrow> votes \<Rightarrow> u64 \<Rightarrow> u64 \<Rightarrow> bool" where
  "chosen_at Q V b v \<longleftrightarrow> (\<exists>S. Q S \<and> (\<forall>a \<in> S. (b, v) \<in> V a))"

text \<open>How acceptors move: promises grow, votes are kept, no vote is added below a promise.\<close>

definition votes_ext :: "votes \<Rightarrow> (u32 \<Rightarrow> u64) \<Rightarrow> votes \<Rightarrow> (u32 \<Rightarrow> u64) \<Rightarrow> bool" where
  "votes_ext V pr V' pr' \<longleftrightarrow>
     (\<forall>a. pr a \<le> pr' a \<and> V a \<subseteq> V' a \<and> (\<forall>c w. (c, w) \<in> V' a \<longrightarrow> c < pr a \<longrightarrow> (c, w) \<in> V a))"

lemma safe_at_ext: "safe_at Q V pr b v \<Longrightarrow> votes_ext V pr V' pr' \<Longrightarrow> safe_at Q V' pr' b v"
  unfolding safe_at_def votes_ext_def by (meson order.strict_trans2)

locale voting =
  fixes quorum :: "u32 set \<Rightarrow> bool"
  assumes meet: "quorum S \<Longrightarrow> quorum R \<Longrightarrow> \<exists>a. a \<in> S \<inter> R"
begin

lemma later_choice:
  assumes "chosen_at quorum V b v" and "safe_at quorum V pr c w" and "b < c"
  shows "v = w"
  using assms meet unfolding chosen_at_def safe_at_def by (metis IntE)

lemma one_choice:
  assumes safe: "\<And>a b v. (b, v) \<in> V a \<Longrightarrow> safe_at quorum V pr b v"
    and unique: "\<And>a a' b v w. (b, v) \<in> V a \<Longrightarrow> (b, w) \<in> V a' \<Longrightarrow> v = w"
    and chosen: "chosen_at quorum V b v" "chosen_at quorum V c w"
  shows "v = w"
proof -
  have voted: "\<exists>a. (b, v) \<in> V a" if "chosen_at quorum V b v" for b v
    using that meet unfolding chosen_at_def by blast
  consider "b < c" | "c < b" | "b = c" by force
  then show ?thesis
    using later_choice voted [OF chosen(1)] voted [OF chosen(2)] safe chosen unique by cases metis+
qed

text \<open>
  The proposer's rule. If a quorum has promised \<open>b\<close> and every vote of its members below \<open>b\<close> is at or
  below the best reported vote, then the best value is safe at \<open>b\<close>, and any value is when no vote
  was reported.
\<close>

lemma safe_choice:
  assumes S: "quorum S" "\<And>a. a \<in> S \<Longrightarrow> b \<le> pr a"
    and reported: "\<And>a c w. a \<in> S \<Longrightarrow> (c, w) \<in> V a \<Longrightarrow> c < b \<Longrightarrow> has \<and> c \<le> num"
    and best: "has \<Longrightarrow> safe_at quorum V pr num val"
      "\<And>a w. has \<Longrightarrow> (num, w) \<in> V a \<Longrightarrow> w = val"
    and v: "has \<Longrightarrow> v = val"
  shows "safe_at quorum V pr b v"
  unfolding safe_at_def
proof (intro allI impI)
  fix c assume c: "c < b"
  show "\<exists>S. quorum S \<and> (\<forall>a \<in> S. c < pr a \<and> (\<forall>w. (c, w) \<in> V a \<longrightarrow> w = v))"
  proof (cases "has \<and> c < num")
    case True
    then show ?thesis using best(1) v unfolding safe_at_def by blast
  next
    case False
    have "c < pr a \<and> (\<forall>w. (c, w) \<in> V a \<longrightarrow> w = v)" if a: "a \<in> S" for a
    proof (intro conjI allI impI)
      show "c < pr a" using S(2) [OF a] c by simp
    next
      fix w assume w: "(c, w) \<in> V a"
      then have "has" "c = num" using reported [OF a w c] False by auto
      then show "w = v" using best(2) [of w a] v w by blast
    qed
    then show ?thesis using S(1) by blast
  qed
qed

end

definition px_majority :: "u32 list \<Rightarrow> u32 set \<Rightarrow> bool" where
  "px_majority ids S \<longleftrightarrow> S \<subseteq> set ids \<and> length ids div 2 + 1 \<le> card S"

lemma px_majority_meet:
  assumes "px_majority ids S" and "px_majority ids R"
  shows "\<exists>a. a \<in> S \<inter> R"
proof (rule ccontr)
  assume "\<not> ?thesis"
  then have "S \<inter> R = {}" by blast
  moreover have "finite S" "finite R" using assms by (auto simp: px_majority_def intro: finite_subset)
  ultimately have "card S + card R = card (S \<union> R)" by (simp add: card_Un_disjoint)
  also have "\<dots> \<le> length ids"
    using assms by (intro order_trans [OF card_mono card_length]) (auto simp: px_majority_def)
  finally show False using assms unfolding px_majority_def by linarith
qed

interpretation px_voting: voting "px_majority ids" for ids
  by unfold_locales (rule px_majority_meet)

subsection \<open>The invariant\<close>

type_synonym px_nodes = "u32 \<rightharpoonup> px_Node"

definition px_votes :: "px_nodes \<Rightarrow> votes" where
  "px_votes N a = (case N a of None \<Rightarrow> {} | Some n \<Rightarrow> set (pnAccepts n))"

definition px_prom :: "px_nodes \<Rightarrow> u32 \<Rightarrow> u64" where
  "px_prom N a = (case N a of None \<Rightarrow> 0 | Some n \<Rightarrow> pnPromised n)"

lemma px_votes_upd [simp]: "px_votes (N(p \<mapsto> n)) a = (if a = p then set (pnAccepts n) else px_votes N a)"
  by (simp add: px_votes_def)

lemma px_prom_upd [simp]: "px_prom (N(p \<mapsto> n)) a = (if a = p then pnPromised n else px_prom N a)"
  by (simp add: px_prom_def)

definition phase_two :: "px_Node \<Rightarrow> bool" where
  "phase_two n \<longleftrightarrow> pnPhase n = ph_accepting \<or> pnPhase n = ph_decided"

text \<open>The pairs (number, value) of the phase-two requests that were voted for, sent or started.\<close>

definition proposed :: "px_nodes \<Rightarrow> px_Message multiset \<Rightarrow> u64 \<Rightarrow> u64 \<Rightarrow> bool" where
  "proposed N W b v \<longleftrightarrow> (\<exists>a. (b, v) \<in> px_votes N a) \<or>
     (\<exists>m \<in># W. pmKind m = Accept \<and> pmNum m = b \<and> pmVal m = v) \<or>
     (\<exists>p n. N p = Some n \<and> phase_two n \<and> pnMyNum n = b \<and> pnMyVal n = v)"

definition owned :: "u32 list \<Rightarrow> px_nodes \<Rightarrow> u64 \<Rightarrow> u64 \<Rightarrow> bool" where
  "owned ids N b v \<longleftrightarrow> (\<exists>p n. N p = Some n \<and> unat b mod length ids = unat p mod length ids \<and>
     b \<le> pnMyNum n \<and> (b = pnMyNum n \<longrightarrow> phase_two n \<and> pnMyVal n = v))"

abbreviation px_safe :: "u32 list \<Rightarrow> px_nodes \<Rightarrow> u64 \<Rightarrow> u64 \<Rightarrow> bool" where
  "px_safe ids N \<equiv> safe_at (px_majority ids) (px_votes N) (px_prom N)"

definition proposal_ok :: "u32 list \<Rightarrow> px_nodes \<Rightarrow> px_Message multiset \<Rightarrow> u64 \<Rightarrow> u64 \<Rightarrow> bool" where
  "proposal_ok ids N W b v \<longleftrightarrow>
     px_safe ids N b v \<and> owned ids N b v \<and> (\<forall>w. proposed N W b w \<longrightarrow> w = v)"

definition promise_ok :: "px_nodes \<Rightarrow> u32 \<Rightarrow> u64 \<Rightarrow> bool \<Rightarrow> u64 \<Rightarrow> u64 \<Rightarrow> bool" where
  "promise_ok N a b has num val \<longleftrightarrow> b \<le> px_prom N a \<and>
     (\<forall>c w. (c, w) \<in> px_votes N a \<longrightarrow> c < b \<longrightarrow> has \<and> c \<le> num) \<and>
     (has \<longrightarrow> (num, val) \<in> px_votes N a \<and> num < b)"

definition node_static :: "u32 list \<Rightarrow> nat \<Rightarrow> u32 \<Rightarrow> px_Node \<Rightarrow> bool" where
  "node_static ids k p n \<longleftrightarrow> pnId n = p \<and> pnSize n = length ids \<and>
     set (pnPeers n) \<subseteq> set ids - {p} \<and> distinct (pnPeers n) \<and>
     unat (pnRound n) \<le> 2 * k \<and> unat (pnPromised n) \<le> (2 * k + 1) * length ids \<and>
     (pnPhase n = ph_idle \<and> pnMyNum n = 0 \<and> pnRound n = 0 \<or>
      pnPhase n \<noteq> ph_idle \<and> unat (pnMyNum n) = unat (pnRound n) * length ids + unat p)"

definition acceptor_ok :: "px_Node \<Rightarrow> bool" where
  "acceptor_ok n \<longleftrightarrow> (pnHasAccepted n \<longleftrightarrow> pnAccepts n \<noteq> []) \<and>
     (pnAccepts n \<noteq> [] \<longrightarrow> last (pnAccepts n) = (pnAcceptedNum n, pnAcceptedVal n)) \<and>
     sorted (map fst (pnAccepts n)) \<and> (\<forall>x \<in> set (pnAccepts n). fst x \<le> pnPromised n)"

definition preparing_ok :: "px_nodes \<Rightarrow> px_Node \<Rightarrow> bool" where
  "preparing_ok N n \<longleftrightarrow> (pnPhase n = ph_preparing \<longrightarrow>
     (\<forall>i. bit (pnPromiseMask n) i \<longrightarrow> (\<exists>a. N a \<noteq> None \<and> unat a = Suc i \<and> pnMyNum n \<le> px_prom N a \<and>
        (\<forall>c w. (c, w) \<in> px_votes N a \<longrightarrow> c < pnMyNum n \<longrightarrow> pnHasBest n \<and> c \<le> pnBestNum n))) \<and>
     (pnHasBest n \<longrightarrow> pnBestNum n < pnMyNum n \<and> (\<exists>a. (pnBestNum n, pnBestVal n) \<in> px_votes N a)))"

definition accepting_ok :: "px_nodes \<Rightarrow> px_Node \<Rightarrow> bool" where
  "accepting_ok N n \<longleftrightarrow> (phase_two n \<longrightarrow>
     (\<forall>i. bit (pnAcceptMask n) i \<longrightarrow> (\<exists>a v. N a \<noteq> None \<and> unat a = Suc i \<and> (pnMyNum n, v) \<in> px_votes N a)) \<and>
     (pnPhase n = ph_decided \<longrightarrow> px_quorum n \<le> popcount (pnAcceptMask n)))"

definition node_ok :: "u32 list \<Rightarrow> nat \<Rightarrow> px_nodes \<Rightarrow> u32 \<Rightarrow> px_Node \<Rightarrow> bool" where
  "node_ok ids k N p n \<longleftrightarrow> node_static ids k p n \<and> acceptor_ok n \<and> preparing_ok N n \<and> accepting_ok N n"

definition message_ok :: "u32 list \<Rightarrow> nat \<Rightarrow> px_nodes \<Rightarrow> px_Message \<Rightarrow> bool" where
  "message_ok ids k N m \<longleftrightarrow> pmFrom m \<in> set ids \<and> pmTo m \<in> set ids \<and>
     unat (pmNum m) \<le> (2 * k + 1) * length ids \<and>
     (pmKind m = Promise \<longrightarrow> pmOK m \<longrightarrow>
        promise_ok N (pmFrom m) (pmNum m) (pmHasAccepted m) (pmAcceptedNum m) (pmAcceptedVal m)) \<and>
     (pmKind m = Accepted \<longrightarrow> pmOK m \<longrightarrow> (\<exists>v. (pmNum m, v) \<in> px_votes N (pmFrom m)))"

text \<open>How often a node has voted at a number, or still can because a request is on its way to it.\<close>

definition chances :: "px_nodes \<Rightarrow> px_Message multiset \<Rightarrow> u32 \<Rightarrow> u64 \<Rightarrow> nat" where
  "chances N W a b =
     (case N a of None \<Rightarrow> 0 | Some n \<Rightarrow> length (filter (\<lambda>x. fst x = b) (pnAccepts n))) +
     size (filter_mset (\<lambda>m. pmKind m = Accept \<and> pmTo m = a \<and> pmNum m = b) W)"

definition ids_ok :: "u32 list \<Rightarrow> px_nodes \<Rightarrow> bool" where
  "ids_ok ids N \<longleftrightarrow> dom N = set ids \<and> distinct ids \<and> (\<forall>a \<in> set ids. 1 \<le> unat a \<and> unat a \<le> length ids)"

definition paxos_inv :: "u32 list \<Rightarrow> nat \<Rightarrow> px_nodes \<Rightarrow> px_Message multiset \<Rightarrow> bool" where
  "paxos_inv ids k N W \<longleftrightarrow> ids_ok ids N \<and>
     (\<forall>p n. N p = Some n \<longrightarrow> node_ok ids k N p n) \<and>
     (\<forall>b v. proposed N W b v \<longrightarrow> proposal_ok ids N W b v) \<and>
     (\<forall>m \<in># W. message_ok ids k N m) \<and>
     (\<forall>a b. chances N W a b \<le> 1)"

lemma paxos_invD:
  assumes "paxos_inv ids k N W"
  shows "ids_ok ids N" "N p = Some n \<Longrightarrow> node_ok ids k N p n"
    "proposed N W b v \<Longrightarrow> proposal_ok ids N W b v" "m \<in># W \<Longrightarrow> message_ok ids k N m"
    "chances N W a b \<le> 1"
  using assms by (auto simp: paxos_inv_def)

subsection \<open>Frame lemmas\<close>

definition acc_ext :: "px_nodes \<Rightarrow> px_nodes \<Rightarrow> bool" where
  "acc_ext N N' \<longleftrightarrow> dom N' = dom N \<and> votes_ext (px_votes N) (px_prom N) (px_votes N') (px_prom N')"

lemma acc_extD:
  assumes "acc_ext N N'"
  shows "px_prom N a \<le> px_prom N' a" "(c, w) \<in> px_votes N a \<Longrightarrow> (c, w) \<in> px_votes N' a"
    "(c, w) \<in> px_votes N' a \<Longrightarrow> c < px_prom N a \<Longrightarrow> (c, w) \<in> px_votes N a" "N' a = None \<longleftrightarrow> N a = None"
proof -
  show "N' a = None \<longleftrightarrow> N a = None" using assms unfolding acc_ext_def by (auto simp: domIff [symmetric])
qed (use assms in \<open>auto simp: acc_ext_def votes_ext_def\<close>)

lemma below_ext:
  assumes "acc_ext N N'" and "b \<le> px_prom N a" and "\<forall>c w. (c, w) \<in> px_votes N a \<longrightarrow> c < b \<longrightarrow> P c"
  shows "b \<le> px_prom N' a \<and> (\<forall>c w. (c, w) \<in> px_votes N' a \<longrightarrow> c < b \<longrightarrow> P c)"
  using assms(2,3) acc_extD(1) [OF assms(1), of a] acc_extD(3) [OF assms(1), of _ _ a] by (meson order.strict_trans2 order.trans)

lemma promise_ok_ext: "promise_ok N a b has num val \<Longrightarrow> acc_ext N N' \<Longrightarrow> promise_ok N' a b has num val"
  using below_ext [of N N' b a "\<lambda>c. has \<and> c \<le> num"] acc_extD(2) [of N N' num val a]
  unfolding promise_ok_def by blast

lemma message_ok_ext: "message_ok ids k N m \<Longrightarrow> acc_ext N N' \<Longrightarrow> message_ok ids k N' m"
  unfolding message_ok_def using promise_ok_ext acc_extD(2) by blast

lemma preparing_ok_ext:
  assumes "preparing_ok N n" and "acc_ext N N'"
  shows "preparing_ok N' n"
  using assms(1) below_ext [OF assms(2), of "pnMyNum n" _ "\<lambda>c. pnHasBest n \<and> c \<le> pnBestNum n"]
    acc_extD(2,4) [OF assms(2)]
  unfolding preparing_ok_def by meson

lemma accepting_ok_ext:
  assumes "accepting_ok N n" and "acc_ext N N'"
  shows "accepting_ok N' n"
  using assms(1) acc_extD(2,4) [OF assms(2)] unfolding accepting_ok_def by meson

lemma node_ok_ext: "node_ok ids k N p n \<Longrightarrow> acc_ext N N' \<Longrightarrow> node_ok ids k N' p n"
  unfolding node_ok_def using preparing_ok_ext accepting_ok_ext by blast

lemma px_safe_ext: "px_safe ids N b v \<Longrightarrow> acc_ext N N' \<Longrightarrow> px_safe ids N' b v"
  by (auto simp: acc_ext_def intro: safe_at_ext)

lemma acc_ext_upd:
  assumes "N p = Some n" and "pnPromised n \<le> pnPromised n'" and "set (pnAccepts n) \<subseteq> set (pnAccepts n')"
    and "\<And>c w. (c, w) \<in> set (pnAccepts n') \<Longrightarrow> c < pnPromised n \<Longrightarrow> (c, w) \<in> set (pnAccepts n)"
  shows "acc_ext N (N(p \<mapsto> n'))"
proof -
  have "px_votes N p = set (pnAccepts n)" "px_prom N p = pnPromised n"
    using assms(1) by (simp_all add: px_votes_def px_prom_def)
  then show ?thesis using assms unfolding acc_ext_def votes_ext_def by auto
qed

lemma owned_upd:
  assumes "N p = Some n" and "owned ids N b v"
    and "pnMyNum n < pnMyNum n' \<or>
      pnMyNum n' = pnMyNum n \<and> (phase_two n \<longrightarrow> phase_two n' \<and> pnMyVal n' = pnMyVal n)"
  shows "owned ids (N(p \<mapsto> n')) b v"
proof -
  obtain q m where q: "N q = Some m" "unat b mod length ids = unat q mod length ids" "b \<le> pnMyNum m"
    "b = pnMyNum m \<longrightarrow> phase_two m \<and> pnMyVal m = v" using assms(2) by (auto simp: owned_def)
  show ?thesis
  proof (cases "q = p")
    case True
    with q(1) assms(1) have "m = n" by simp
    then have "b \<le> pnMyNum n'" "b = pnMyNum n' \<longrightarrow> phase_two n' \<and> pnMyVal n' = v"
      using q(3,4) assms(3) by auto
    then show ?thesis using q(2) True unfolding owned_def by (intro exI [of _ p] exI [of _ n']) simp
  next
    case False
    then show ?thesis using q unfolding owned_def by (intro exI [of _ q] exI [of _ m]) simp
  qed
qed

lemma inv_update:
  assumes inv: "paxos_inv ids k N W" and p: "N p = Some n" and N': "N' = N(p \<mapsto> n')"
    and ext: "acc_ext N N'" and node: "node_ok ids k N' p n'"
    and owner: "pnMyNum n < pnMyNum n' \<or>
      pnMyNum n' = pnMyNum n \<and> (phase_two n \<longrightarrow> phase_two n' \<and> pnMyVal n' = pnMyVal n)"
    and msgs: "\<And>m. m \<in># W' \<Longrightarrow> m \<in># W \<or> message_ok ids k N' m"
    and new: "\<And>b v. proposed N' W' b v \<Longrightarrow> proposed N W b v \<or> (b, v) = (bn, vn) \<and> px_safe ids N bn vn \<and>
      owned ids N' bn vn \<and> (\<forall>w. proposed N W bn w \<longrightarrow> w = vn)"
    and chances: "\<And>a b. chances N' W' a b \<le> 1"
  shows "paxos_inv ids k N' W'"
  unfolding paxos_inv_def
proof (intro conjI allI impI ballI chances)
  show "ids_ok ids N'" using paxos_invD(1) [OF inv] p by (auto simp: ids_ok_def N')
  show "node_ok ids k N' q m" if "N' q = Some m" for q m
    using that node paxos_invD(2) [OF inv] node_ok_ext [OF _ ext] by (auto simp: N' split: if_splits)
  show "message_ok ids k N' m" if "m \<in># W'" for m
    using msgs [OF that] paxos_invD(4) [OF inv] message_ok_ext [OF _ ext] by blast
next
  fix b v assume b: "proposed N' W' b v"
  have old: "px_safe ids N b v \<and> owned ids N' b v" if "proposed N W b v" for b v
    using paxos_invD(3) [OF inv that] owned_upd [of N p n ids b v n', OF p _ owner] by (simp add: proposal_ok_def N')
  have "px_safe ids N b v \<and> owned ids N' b v" using new [OF b] old by auto
  moreover have "w = v" if "proposed N' W' b w" for w
    using new [OF b] new [OF that] paxos_invD(3) [OF inv, of b] by (auto simp: proposal_ok_def)
  ultimately show "proposal_ok ids N' W' b v" using px_safe_ext [OF _ ext] by (simp add: proposal_ok_def)
qed

lemma inv_loss:
  assumes inv: "paxos_inv ids k N W" and "W' \<subseteq># W"
  shows "paxos_inv ids k N W'"
proof -
  have sub: "m \<in># W' \<Longrightarrow> m \<in># W" for m using assms(2) by (rule mset_subset_eqD)
  have "proposed N W b v" if "proposed N W' b v" for b v using that sub by (auto simp: proposed_def)
  moreover have "chances N W' a b \<le> chances N W a b" for a b
    unfolding chances_def using assms(2) by (intro add_left_mono size_mset_mono multiset_filter_mono)
  ultimately show ?thesis
    using inv sub unfolding paxos_inv_def proposal_ok_def by (meson order.trans)
qed

text \<open>Requests that are sent but not yet voted on.\<close>

abbreviation requests :: "px_Message multiset \<Rightarrow> px_Message multiset" where
  "requests W \<equiv> filter_mset (\<lambda>m. pmKind m = Accept) W"

lemma chances_requests:
  "requests W' \<subseteq># requests W \<Longrightarrow> chances N W' a b \<le> chances N W a b"
proof -
  assume "requests W' \<subseteq># requests W"
  moreover have "filter_mset (\<lambda>m. pmKind m = Accept \<and> pmTo m = a \<and> pmNum m = b) X =
      filter_mset (\<lambda>m. pmTo m = a \<and> pmNum m = b) (requests X)" for X
    by (simp add: filter_filter_mset conj_ac)
  ultimately show ?thesis
    unfolding chances_def by (simp add: size_mset_mono multiset_filter_mono)
qed

lemma inv_quiet:
  assumes inv: "paxos_inv ids k N W" and p: "N p = Some n"
    and accepts: "pnAccepts n' = pnAccepts n" and promised: "pnPromised n \<le> pnPromised n'"
    and node: "node_ok ids k (N(p \<mapsto> n')) p n'"
    and owner: "pnMyNum n < pnMyNum n' \<or>
      pnMyNum n' = pnMyNum n \<and> (phase_two n \<longrightarrow> phase_two n' \<and> pnMyVal n' = pnMyVal n)"
    and two: "phase_two n' \<longrightarrow> phase_two n \<and> pnMyNum n' = pnMyNum n \<and> pnMyVal n' = pnMyVal n"
    and msgs: "\<And>m. m \<in># W' \<Longrightarrow> m \<in># W \<or> message_ok ids k (N(p \<mapsto> n')) m"
    and reqs: "requests W' \<subseteq># requests W"
  shows "paxos_inv ids k (N(p \<mapsto> n')) W'"
proof (rule inv_update [OF inv p refl _ node owner msgs, where bn = 0 and vn = 0])
  show "acc_ext N (N(p \<mapsto> n'))" using promised accepts by (intro acc_ext_upd [of N p n, OF p]) auto
next
  fix b v assume b: "proposed (N(p \<mapsto> n')) W' b v"
  have "m \<in># W" if "m \<in># W'" "pmKind m = Accept" for m
    using mset_subset_eqD [OF reqs, of m] that by simp
  moreover have "px_votes (N(p \<mapsto> n')) = px_votes N"
    using p accepts by (auto simp: px_votes_def fun_eq_iff)
  moreover have "\<exists>m. N q = Some m \<and> phase_two m \<and> pnMyNum m = b \<and> pnMyVal m = v"
    if "(N(p \<mapsto> n')) q = Some m" "phase_two m" "pnMyNum m = b" "pnMyVal m = v" for q m
    using that p two by (cases "q = p") auto
  ultimately have "proposed N W b v"
    using b unfolding proposed_def by metis
  then show "proposed N W b v \<or> (b, v) = (0, 0) \<and> px_safe ids N 0 0 \<and>
      owned ids (N(p \<mapsto> n')) 0 0 \<and> (\<forall>w. proposed N W 0 w \<longrightarrow> w = 0)" ..
next
  fix a b
  have "chances (N(p \<mapsto> n')) W' a b = chances N W' a b" using p accepts by (simp add: chances_def)
  then show "chances (N(p \<mapsto> n')) W' a b \<le> 1"
    using chances_requests [OF reqs, of N a b] paxos_invD(5) [OF inv, of a b] by simp
qed

subsection \<open>The steps of a node\<close>

lemma node_ok_outbound [simp]: "node_ok ids k N p (n\<lparr>pnOutbound := out\<rparr>) \<longleftrightarrow> node_ok ids k N p n"
  "node_ok ids k N p (n\<lparr>pnElapsed := e\<rparr>) \<longleftrightarrow> node_ok ids k N p n"
  by (simp_all add: node_ok_def node_static_def acceptor_ok_def preparing_ok_def accepting_ok_def
      phase_two_def px_quorum_def)

lemma inv_send:
  assumes inv: "paxos_inv ids k N W" and p: "N p = Some n"
    and ms: "\<And>m. m \<in> set ms \<Longrightarrow> message_ok ids k N m \<and> pmKind m \<noteq> Accept"
  shows "paxos_inv ids k (N(p \<mapsto> n\<lparr>pnOutbound := out\<rparr>)) (W + mset ms)"
proof -
  let ?n = "n\<lparr>pnOutbound := out\<rparr>"
  have ext: "acc_ext N (N(p \<mapsto> ?n))" by (intro acc_ext_upd [of N p n, OF p]) auto
  show ?thesis
  proof (rule inv_quiet [OF inv p])
    show "node_ok ids k (N(p \<mapsto> ?n)) p ?n"
      using node_ok_ext [OF paxos_invD(2) [OF inv p] ext] by simp
    show "m \<in># W \<or> message_ok ids k (N(p \<mapsto> ?n)) m" if "m \<in># W + mset ms" for m
      using that ms message_ok_ext [OF _ ext] by auto
    have "filter_mset (\<lambda>m. pmKind m = Accept) (mset ms) = {#}" using ms by auto
    then show "requests (W + mset ms) \<subseteq># requests W" by simp
  qed (simp_all add: phase_two_def)
qed

lemma inv_elapsed:
  assumes inv: "paxos_inv ids k N W" and p: "N p = Some n"
  shows "paxos_inv ids k (N(p \<mapsto> n\<lparr>pnElapsed := e\<rparr>)) W"
proof -
  let ?n = "n\<lparr>pnElapsed := e\<rparr>"
  have ext: "acc_ext N (N(p \<mapsto> ?n))" by (intro acc_ext_upd [of N p n, OF p]) auto
  show ?thesis
    by (rule inv_quiet [OF inv p]) (use node_ok_ext [OF paxos_invD(2) [OF inv p] ext] in
        \<open>simp_all add: phase_two_def\<close>)
qed

lemma sorted_last: "sorted (map fst xs) \<Longrightarrow> x \<in> set xs \<Longrightarrow> fst x \<le> fst (last xs)" for xs :: "Acceptance list"
  by (induction xs) auto

lemma inv_promise:
  assumes inv: "paxos_inv ids k N W" and p: "N p = Some n" and b: "pnPromised n < b"
    and bound: "unat b \<le> (2 * k + 1) * length ids"
  defines "N' \<equiv> N(p \<mapsto> n\<lparr>pnPromised := b\<rparr>)"
  shows "paxos_inv ids k N' W \<and> promise_ok N' p b (pnHasAccepted n) (pnAcceptedNum n) (pnAcceptedVal n)"
proof
  let ?n = "n\<lparr>pnPromised := b\<rparr>"
  have n: "node_ok ids k N p n" using inv p by (rule paxos_invD)
  have ext: "acc_ext N N'" unfolding N'_def using b by (intro acc_ext_upd [of N p n, OF p]) auto
  show "paxos_inv ids k N' W"
    unfolding N'_def
  proof (rule inv_quiet [OF inv p])
    show "node_ok ids k (N(p \<mapsto> ?n)) p ?n"
      using node_ok_ext [OF n ext] bound b
      by (auto simp: N'_def node_ok_def node_static_def acceptor_ok_def preparing_ok_def accepting_ok_def
          phase_two_def px_quorum_def)
  qed (use b in \<open>simp_all add: phase_two_def\<close>)
  have acc: "acceptor_ok n" using n by (simp add: node_ok_def)
  show "promise_ok N' p b (pnHasAccepted n) (pnAcceptedNum n) (pnAcceptedVal n)"
    unfolding promise_ok_def
  proof (intro conjI allI impI)
    fix c w assume "(c, w) \<in> px_votes N' p"
    then have cw: "(c, w) \<in> set (pnAccepts n)" by (simp add: N'_def)
    then show "pnHasAccepted n" using acc by (auto simp: acceptor_ok_def)
    show "c \<le> pnAcceptedNum n"
      using sorted_last [OF _ cw] cw acc by (auto simp: acceptor_ok_def)
  next
    assume "pnHasAccepted n"
    then have l: "last (pnAccepts n) \<in> set (pnAccepts n)" "last (pnAccepts n) = (pnAcceptedNum n, pnAcceptedVal n)"
      using acc last_in_set [of "pnAccepts n"] unfolding acceptor_ok_def by metis+
    then show "(pnAcceptedNum n, pnAcceptedVal n) \<in> px_votes N' p" by (simp add: N'_def)
    show "pnAcceptedNum n < b" using l acc b by (fastforce simp: acceptor_ok_def)
  qed (simp add: N'_def)
qed

lemma px_bit_iff: "1 \<le> unat a \<Longrightarrow> bit (px_bit a) i \<Longrightarrow> unat a = Suc i"
  proof -
  assume a: "1 \<le> unat a" "bit (px_bit a) i"
  then have "i = unat (a - 1)" by (simp add: px_bit_def bit_exp_iff)
  moreover have "a \<noteq> 0" using a(1) by auto
  ultimately show ?thesis using a(1) by (simp add: unat_minus_one)
qed

lemma inv_collect:
  assumes inv: "paxos_inv ids k N W" and p: "N p = Some n" and ph: "pnPhase n = ph_preparing"
    and a: "a \<in> set ids" and prom: "promise_ok N a (pnMyNum n) has num val"
  shows "paxos_inv ids k (N(p \<mapsto> collectPromise a num val has n)) W"
proof -
  let ?n = "collectPromise a num val has n"
  have n: "node_ok ids k N p n" using inv p by (rule paxos_invD)
  have same: "pnAccepts ?n = pnAccepts n" "pnPromised ?n = pnPromised n" "pnPhase ?n = pnPhase n"
    "pnMyNum ?n = pnMyNum n" "pnMyVal ?n = pnMyVal n" "pnPromiseMask ?n = pnPromiseMask n OR px_bit a"
    "pnHasBest ?n = (has \<or> pnHasBest n)"
    by (auto simp: collectPromise_def Let_def)
  have best: "pnHasBest n \<Longrightarrow> pnBestNum n \<le> pnBestNum ?n" "has \<Longrightarrow> num \<le> pnBestNum ?n"
    "pnHasBest ?n \<Longrightarrow> pnHasBest n \<and> pnBestNum ?n = pnBestNum n \<and> pnBestVal ?n = pnBestVal n \<or>
       has \<and> pnBestNum ?n = num \<and> pnBestVal ?n = val"
    by (auto simp: collectPromise_def Let_def)
  have ext: "acc_ext N (N(p \<mapsto> ?n))" using same by (intro acc_ext_upd [of N p n, OF p]) auto
  have a1: "1 \<le> unat a" "N a \<noteq> None" using a paxos_invD(1) [OF inv] by (auto simp: ids_ok_def)
  have prep: "preparing_ok N n" using n by (simp add: node_ok_def)
  have "preparing_ok N ?n"
    unfolding preparing_ok_def same(4)
  proof (intro impI conjI allI)
    fix i assume "bit (pnPromiseMask ?n) i"
    then consider "bit (pnPromiseMask n) i" | "unat a = Suc i"
      using px_bit_iff [OF a1(1), of i] unfolding same(6) by (auto simp: bit_or_iff)
    then show "\<exists>a. N a \<noteq> None \<and> unat a = Suc i \<and> pnMyNum n \<le> px_prom N a \<and>
        (\<forall>c w. (c, w) \<in> px_votes N a \<longrightarrow> c < pnMyNum n \<longrightarrow> pnHasBest ?n \<and> c \<le> pnBestNum ?n)"
    proof cases
      case 1
      then show ?thesis using prep ph best(1) same(7) unfolding preparing_ok_def by (meson order.trans)
    next
      case 2
      then show ?thesis
        using a1(2) prom best(2) same(7) unfolding promise_ok_def by (meson order.trans)
    qed
  next
    assume hb: "pnHasBest ?n"
    show "pnBestNum ?n < pnMyNum n"
      using best(3) [OF hb] prep ph prom by (auto simp: preparing_ok_def promise_ok_def)
    show "\<exists>a. (pnBestNum ?n, pnBestVal ?n) \<in> px_votes N a"
      using best(3) [OF hb] prep ph prom by (auto simp: preparing_ok_def promise_ok_def)
  qed
  then have "node_ok ids k N p ?n"
    using n ph same by (auto simp: node_ok_def node_static_def acceptor_ok_def accepting_ok_def phase_two_def
        collectPromise_def Let_def)
  from node_ok_ext [OF this ext] show ?thesis
    by (intro inv_quiet [OF inv p]) (simp_all add: same phase_two_def)
qed

lemma node_number:
  assumes "paxos_inv ids k N W" and "N p = Some n"
  shows "unat (pnMyNum n) \<le> (2 * k + 1) * length ids"
proof -
  have n: "node_static ids k p n" "unat p \<le> length ids"
    using paxos_invD(1,2) [OF assms(1)] assms(2) by (auto simp: node_ok_def ids_ok_def)
  then have "unat (pnRound n) * length ids \<le> 2 * k * length ids"
    by (intro mult_le_mono1) (simp add: node_static_def)
  moreover have "unat (pnMyNum n) \<le> unat (pnRound n) * length ids + unat p"
    using n(1) by (auto simp: node_static_def)
  ultimately have "unat (pnMyNum n) \<le> 2 * k * length ids + length ids" using n(2) by linarith
  then show ?thesis by simp
qed

lemma residue_unique:
  assumes "1 \<le> x" "x \<le> l" "1 \<le> y" "y \<le> l" "x mod l = y mod (l :: nat)"
  shows "x = y"
proof (cases "x = l \<or> y = l")
  case True
  then show ?thesis using assms by (metis le_neq_implies_less mod_less mod_self not_one_le_zero)
next
  case False
  then show ?thesis using assms by (metis le_neq_implies_less mod_less)
qed

lemma preparing_not_proposed:
  assumes inv: "paxos_inv ids k N W" and p: "N p = Some n" and ph: "pnPhase n = ph_preparing"
  shows "\<not> proposed N W (pnMyNum n) w"
proof
  assume "proposed N W (pnMyNum n) w"
  then have "owned ids N (pnMyNum n) w" using paxos_invD(3) [OF inv] by (simp add: proposal_ok_def)
  then obtain q m where q: "N q = Some m" "unat (pnMyNum n) mod length ids = unat q mod length ids"
    "pnMyNum n = pnMyNum m \<longrightarrow> phase_two m" by (auto simp: owned_def)
  have "unat (pnMyNum n) = unat (pnRound n) * length ids + unat p"
    using paxos_invD(2) [OF inv p] ph by (simp add: node_ok_def node_static_def)
  then have m: "unat p mod length ids = unat q mod length ids" using q(2) by simp
  have "1 \<le> unat x \<and> unat x \<le> length ids" if "N x \<noteq> None" for x
    using paxos_invD(1) [OF inv] that unfolding ids_ok_def by blast
  then have "unat p = unat q" using p q(1) m residue_unique [of "unat p" "length ids" "unat q"] by simp
  then have "p = q" by (simp only: word_unat_eq_iff)
  then show False using q p ph by (simp add: phase_two_def)
qed

lemma popcount_card: "popcount msk = card (bits_of msk)"
proof -
  have "popcount_loop msk cnt = bitsSet_loop msk cnt" for cnt
  proof (induction msk cnt rule: popcount_loop.induct)
    case (1 msk cnt)
    then show ?case by (subst popcount_loop.simps, subst bitsSet_loop.simps) simp
  qed
  then show ?thesis by (simp add: popcount_def bitsSet_loop_card)
qed

lemma mask_majority:
  assumes ids: "ids_ok ids N" and quorum: "length ids div 2 + 1 \<le> popcount msk"
    and P: "\<And>i. bit msk i \<Longrightarrow> \<exists>a. N a \<noteq> None \<and> unat a = Suc i \<and> P a"
  shows "px_majority ids {a \<in> set ids. P a}"
proof -
  let ?S = "{a \<in> set ids. P a}"
  have "bits_of msk \<subseteq> (\<lambda>a. unat a - 1) ` ?S"
  proof
    fix i assume "i \<in> bits_of msk"
    then have "bit msk i" by simp
    then obtain a where "N a \<noteq> None" "unat a = Suc i" "P a" using P by blast
    then show "i \<in> (\<lambda>a. unat a - 1) ` ?S" using ids by (intro image_eqI [of _ _ a]) (auto simp: ids_ok_def)
  qed
  then have "card (bits_of msk) \<le> card ((\<lambda>a. unat a - 1) ` ?S)" by (rule card_mono [rotated]) simp
  also have "\<dots> \<le> card ?S" by (rule card_image_le) simp
  finally have "card (bits_of msk) \<le> card ?S" .
  then show ?thesis using quorum by (simp add: px_majority_def popcount_card)
qed

lemma filter_mset_none: "filter_mset P M = {#} \<longleftrightarrow> (\<forall>x \<in># M. \<not> P x)"
  unfolding set_mset_eq_empty_iff [symmetric] by auto

lemma chances_zero_iff:
  "chances N W a b = 0 \<longleftrightarrow> (\<forall>v. (b, v) \<notin> px_votes N a) \<and>
     (\<forall>m \<in># W. pmKind m = Accept \<longrightarrow> pmTo m = a \<longrightarrow> pmNum m \<noteq> b)"
  by (auto simp: chances_def px_votes_def filter_empty_conv filter_mset_none split: option.splits)

lemma inv_start:
  assumes inv: "paxos_inv ids k N W" and p: "N p = Some n" and ph: "pnPhase n = ph_preparing"
    and quorum: "px_quorum n \<le> popcount (pnPromiseMask n)"
  defines "n' \<equiv> (adoptBest n)\<lparr>pnPhase := ph_accepting, pnAcceptMask := 0\<rparr>"
  shows "paxos_inv ids k (N(p \<mapsto> n')) W \<and> (\<forall>a. chances (N(p \<mapsto> n')) W a (pnMyNum n) = 0)"
proof
  have n: "node_ok ids k N p n" using inv p by (rule paxos_invD)
  have free: "\<not> proposed N W (pnMyNum n) w" for w using inv p ph by (rule preparing_not_proposed)
  have same: "pnAccepts n' = pnAccepts n" "pnPromised n' = pnPromised n" "pnMyNum n' = pnMyNum n"
    "pnPhase n' = ph_accepting" "pnMyVal n' = (if pnHasBest n then pnBestVal n else pnMyVal n)"
    by (simp_all add: n'_def adoptBest_def Let_def)
  have votes: "px_votes (N(p \<mapsto> n')) = px_votes N"
    using p same by (auto simp: px_votes_def fun_eq_iff)
  show "\<forall>a. chances (N(p \<mapsto> n')) W a (pnMyNum n) = 0"
    unfolding chances_zero_iff votes using free by (auto simp: proposed_def)
  have ext: "acc_ext N (N(p \<mapsto> n'))" using same by (intro acc_ext_upd [of N p n, OF p]) auto
  let ?P = "\<lambda>a. pnMyNum n \<le> px_prom N a \<and>
    (\<forall>c w. (c, w) \<in> px_votes N a \<longrightarrow> c < pnMyNum n \<longrightarrow> pnHasBest n \<and> c \<le> pnBestNum n)"
  have prep: "preparing_ok N n" and st: "node_static ids k p n" using n by (simp_all add: node_ok_def)
  have Q: "px_majority ids {a \<in> set ids. ?P a}"
    using prep ph quorum st
    by (intro mask_majority [OF paxos_invD(1) [OF inv], of "pnPromiseMask n"])
      (auto simp: preparing_ok_def px_quorum_def node_static_def)
  have safe: "px_safe ids N (pnMyNum n) (pnMyVal n')"
  proof (rule px_voting.safe_choice [OF Q])
    assume hb: "pnHasBest n"
    then obtain a where "(pnBestNum n, pnBestVal n) \<in> px_votes N a" using prep ph by (auto simp: preparing_ok_def)
    then have "proposed N W (pnBestNum n) (pnBestVal n)" by (auto simp: proposed_def)
    then have best: "proposal_ok ids N W (pnBestNum n) (pnBestVal n)" by (rule paxos_invD(3) [OF inv])
    then show "px_safe ids N (pnBestNum n) (pnBestVal n)" by (simp add: proposal_ok_def)
    show "w = pnBestVal n" if "(pnBestNum n, w) \<in> px_votes N a" for a w
      using best that by (auto simp: proposal_ok_def proposed_def)
  qed (auto simp: same)
  show "paxos_inv ids k (N(p \<mapsto> n')) W"
  proof (rule inv_update [OF inv p refl ext, where bn = "pnMyNum n" and vn = "pnMyVal n'"])
    show "node_ok ids k (N(p \<mapsto> n')) p n'"
      using n ph same by (auto simp: node_ok_def node_static_def acceptor_ok_def preparing_ok_def
          accepting_ok_def phase_two_def n'_def adoptBest_def Let_def)
  next
    fix b v assume b: "proposed (N(p \<mapsto> n')) W b v"
    have "owned ids (N(p \<mapsto> n')) (pnMyNum n) (pnMyVal n')"
      unfolding owned_def using st same ph by (intro exI [of _ p] exI [of _ n']) (auto simp: node_static_def phase_two_def)
    moreover have "proposed N W b v \<or> (b, v) = (pnMyNum n, pnMyVal n')"
      using b same unfolding proposed_def votes by (auto split: if_splits)
    ultimately show "proposed N W b v \<or> (b, v) = (pnMyNum n, pnMyVal n') \<and> px_safe ids N (pnMyNum n) (pnMyVal n') \<and>
        owned ids (N(p \<mapsto> n')) (pnMyNum n) (pnMyVal n') \<and> (\<forall>w. proposed N W (pnMyNum n) w \<longrightarrow> w = pnMyVal n')"
      using safe free by blast
  next
    fix a b
    have "chances (N(p \<mapsto> n')) W a b = chances N W a b" using p same by (simp add: chances_def)
    then show "chances (N(p \<mapsto> n')) W a b \<le> 1" using paxos_invD(5) [OF inv] by simp
  qed (use ph in \<open>auto simp: same phase_two_def\<close>)
qed

end
