(* ===== verification/Paxos_Steps.thy ===== *)
theory Paxos_Steps
  imports Paxos_Inv
begin

text \<open>
  Every operation of a Paxos node keeps the invariant of the protocol: voting, phase two, answers,
  new rounds and ticks.
\<close>

lemma proposal_bound:
  assumes inv: "paxos_inv ids k N W" and "owned ids N b v"
  shows "unat b \<le> (2 * k + 1) * length ids"
proof -
  obtain q m where "N q = Some m" "b \<le> pnMyNum m" using assms(2) by (auto simp: owned_def)
  then show ?thesis using node_number [OF inv, of q m] by (simp add: word_le_nat_alt)
qed

definition cast_vote :: "u64 \<Rightarrow> u64 \<Rightarrow> px_Node \<Rightarrow> px_Node" where
  "cast_vote b v n = n\<lparr>pnPromised := b, pnAcceptedNum := b, pnAcceptedVal := v,
     pnHasAccepted := True, pnAccepts := pnAccepts n @ [(b, v)]\<rparr>"

lemma chances_vote:
  "N p = Some n \<Longrightarrow> chances (N(p \<mapsto> cast_vote b v n)) W a c =
     chances N W a c + (if a = p \<and> c = b then 1 else 0)"
  by (simp add: chances_def cast_vote_def)

lemma inv_vote:
  assumes inv: "paxos_inv ids k N W" and p: "N p = Some n"
    and ok: "proposal_ok ids N W b v" and b: "pnPromised n \<le> b" and free: "chances N W p b = 0"
  shows "paxos_inv ids k (N(p \<mapsto> cast_vote b v n)) W"
proof -
  let ?n = "cast_vote b v n" and ?N = "N(p \<mapsto> cast_vote b v n)"
  have n: "node_ok ids k N p n" using inv p by (rule paxos_invD)
  have own: "owned ids N b v" using ok by (simp add: proposal_ok_def)
  have same: "pnMyNum ?n = pnMyNum n" "pnMyVal ?n = pnMyVal n" "pnPhase ?n = pnPhase n"
    "pnAccepts ?n = pnAccepts n @ [(b, v)]" "pnPromised ?n = b"
    by (simp_all add: cast_vote_def)
  have ext: "acc_ext N ?N"
    using b by (intro acc_ext_upd [of N p n, OF p]) (auto simp: same)
  have acc: "acceptor_ok n" using n by (simp add: node_ok_def)
  then have "acceptor_ok ?n"
    using b by (fastforce simp: acceptor_ok_def cast_vote_def sorted_append)
  moreover have "node_static ids k p ?n"
    using n proposal_bound [OF inv own] by (auto simp: node_ok_def node_static_def cast_vote_def)
  moreover have "preparing_ok ?N ?n" "accepting_ok ?N ?n"
    using node_ok_ext [OF n ext]
    by (simp_all add: node_ok_def preparing_ok_def accepting_ok_def phase_two_def px_quorum_def cast_vote_def)
  ultimately have node: "node_ok ids k ?N p ?n" by (simp add: node_ok_def)
  show ?thesis
  proof (rule inv_update [OF inv p refl ext node, where bn = b and vn = v])
    fix c w assume c: "proposed ?N W c w"
    have "owned ids ?N b v" by (rule owned_upd [of N p n, OF p own]) (simp add: same phase_two_def)
    moreover have "proposed N W c w \<or> (c, w) = (b, v)"
    proof -
      have "(c, w) \<in> px_votes N a \<or> (c, w) = (b, v)" if "(c, w) \<in> px_votes ?N a" for a
        using that p same(4) by (auto simp: px_votes_def split: if_splits)
      moreover have "\<exists>m. N q = Some m \<and> phase_two m \<and> pnMyNum m = c \<and> pnMyVal m = w"
        if "?N q = Some m" "phase_two m" "pnMyNum m = c" "pnMyVal m = w" for q m
        using that p same by (cases "q = p") (auto simp: phase_two_def)
      ultimately show ?thesis using c unfolding proposed_def by metis
    qed
    ultimately show "proposed N W c w \<or> (c, w) = (b, v) \<and> px_safe ids N b v \<and> owned ids ?N b v \<and>
        (\<forall>w. proposed N W b w \<longrightarrow> w = v)"
      using ok unfolding proposal_ok_def by blast
  next
    fix a c
    show "chances ?N W a c \<le> 1"
      using chances_vote [of N p n b v W a c, OF p] free paxos_invD(5) [OF inv, of a c] by (cases "a = p \<and> c = b") auto
  qed (simp_all add: same phase_two_def)
qed

lemma inv_requests:
  assumes inv: "paxos_inv ids k N W" and p: "N p = Some n" and two: "phase_two n"
    and free: "\<And>a. a \<in> set ids - {p} \<Longrightarrow> chances N W a (pnMyNum n) = 0"
  defines "ms \<equiv> map (\<lambda>peer. (px_message Accept (pnId n) peer (pnMyNum n))\<lparr>pmVal := pnMyVal n\<rparr>) (pnPeers n)"
  shows "paxos_inv ids k (N(p \<mapsto> n\<lparr>pnOutbound := out\<rparr>)) (W + mset ms)"
proof -
  let ?n = "n\<lparr>pnOutbound := out\<rparr>" and ?N = "N(p \<mapsto> n\<lparr>pnOutbound := out\<rparr>)"
  have n: "node_ok ids k N p n" using inv p by (rule paxos_invD)
  then have st: "pnId n = p" "set (pnPeers n) \<subseteq> set ids - {p}" "distinct (pnPeers n)"
    by (simp_all add: node_ok_def node_static_def)
  have pids: "p \<in> set ids" using paxos_invD(1) [OF inv] p by (auto simp: ids_ok_def)
  have ext: "acc_ext N ?N" by (intro acc_ext_upd [of N p n, OF p]) auto
  have votes: "px_votes ?N = px_votes N" using p by (auto simp: px_votes_def fun_eq_iff)
  have ms: "pmKind m = Accept \<and> pmNum m = pnMyNum n \<and> pmVal m = pnMyVal n \<and> pmFrom m = p \<and>
      pmTo m \<in> set (pnPeers n)" if "m \<in> set ms" for m
    using that st(1) by (auto simp: ms_def px_message_def)
  show ?thesis
  proof (rule inv_update [OF inv p refl ext, where bn = 0 and vn = 0])
    show "node_ok ids k ?N p ?n" using node_ok_ext [OF n ext] by simp
    show "m \<in># W \<or> message_ok ids k ?N m" if "m \<in># W + mset ms" for m
      using that ms [of m] st pids node_number [OF inv p] by (auto simp: message_ok_def)
  next
    fix b v assume b: "proposed ?N (W + mset ms) b v"
    have "proposed N W b v"
    proof -
      have "\<exists>m. N q = Some m \<and> phase_two m \<and> pnMyNum m = b \<and> pnMyVal m = v"
        if "?N q = Some m" "phase_two m" "pnMyNum m = b" "pnMyVal m = v" for q m
        using that p by (cases "q = p") (auto simp: phase_two_def)
      moreover have "m \<in># W \<or> b = pnMyNum n \<and> v = pnMyVal n"
        if "m \<in># W + mset ms" "pmNum m = b" "pmVal m = v" for m
        using that ms [of m] by auto
      ultimately show ?thesis using b p two unfolding proposed_def votes by metis
    qed
    then show "proposed N W b v \<or> (b, v) = (0, 0) \<and> px_safe ids N 0 0 \<and> owned ids ?N 0 0 \<and>
        (\<forall>w. proposed N W 0 w \<longrightarrow> w = 0)" ..
  next
    fix a b
    let ?f = "\<lambda>m. pmKind m = Accept \<and> pmTo m = a \<and> pmNum m = b"
    have new: "size (filter_mset ?f (mset ms)) = (if b = pnMyNum n \<and> a \<in> set (pnPeers n) then 1 else 0)"
    proof -
      have "distinct ps \<Longrightarrow> size (filter_mset ?f (mset (map (\<lambda>peer.
          (px_message Accept (pnId n) peer (pnMyNum n))\<lparr>pmVal := pnMyVal n\<rparr>) ps))) =
          (if b = pnMyNum n \<and> a \<in> set ps then 1 else 0)" for ps
        by (induction ps) (auto simp: px_message_def)
      from this [OF st(3)] show ?thesis unfolding ms_def .
    qed
    have eq: "chances ?N (W + mset ms) a b = chances N W a b + size (filter_mset ?f (mset ms))"
      using p by (simp add: chances_def)
    show "chances ?N (W + mset ms) a b \<le> 1"
      unfolding eq new using free [of a] st(2) paxos_invD(5) [OF inv, of a b] by auto
  qed (use p two in \<open>simp_all add: phase_two_def\<close>)
qed

lemma inv_mask:
  assumes inv: "paxos_inv ids k N W" and p: "N p = Some n" and ph: "pnPhase n = ph_accepting"
    and a: "a \<in> set ids" and vote: "(pnMyNum n, v) \<in> px_votes N a"
  shows "paxos_inv ids k (N(p \<mapsto> n\<lparr>pnAcceptMask := pnAcceptMask n OR px_bit a\<rparr>)) W"
proof -
  let ?n = "n\<lparr>pnAcceptMask := pnAcceptMask n OR px_bit a\<rparr>"
  have n: "node_ok ids k N p n" using inv p by (rule paxos_invD)
  have a1: "1 \<le> unat a" "N a \<noteq> None" using a paxos_invD(1) [OF inv] by (auto simp: ids_ok_def)
  have ext: "acc_ext N (N(p \<mapsto> ?n))" by (intro acc_ext_upd [of N p n, OF p]) auto
  have "accepting_ok N ?n"
    using n ph a1(2) vote px_bit_iff [OF a1(1)] unfolding node_ok_def accepting_ok_def
    by (auto simp: bit_or_iff phase_two_def)
  then have "node_ok ids k N p ?n"
    using n by (simp add: node_ok_def node_static_def acceptor_ok_def preparing_ok_def)
  from node_ok_ext [OF this ext] show ?thesis
    by (intro inv_quiet [OF inv p]) (simp_all add: phase_two_def)
qed

lemma inv_decide:
  assumes inv: "paxos_inv ids k N W" and p: "N p = Some n" and ph: "pnPhase n = ph_accepting"
    and quorum: "px_quorum n \<le> popcount (pnAcceptMask n)"
  shows "paxos_inv ids k (N(p \<mapsto> n\<lparr>pnPhase := ph_decided\<rparr>)) W"
proof -
  let ?n = "n\<lparr>pnPhase := ph_decided\<rparr>"
  have n: "node_ok ids k N p n" using inv p by (rule paxos_invD)
  have ext: "acc_ext N (N(p \<mapsto> ?n))" by (intro acc_ext_upd [of N p n, OF p]) auto
  have "node_ok ids k N p ?n"
    using n ph quorum by (simp add: node_ok_def node_static_def acceptor_ok_def preparing_ok_def
        accepting_ok_def phase_two_def px_quorum_def)
  from node_ok_ext [OF this ext] show ?thesis
    using ph by (intro inv_quiet [OF inv p]) (simp_all add: phase_two_def)
qed

lemma onAccept_cast: "onAccept num val n = (if num < pnPromised n then (False, n) else (True, cast_vote num val n))"
  by (simp add: onAccept_def cast_vote_def)

lemma inv_acceptOwn:
  assumes inv: "paxos_inv ids k N W" and p: "N p = Some n" and ph: "pnPhase n = ph_accepting"
    and free: "\<And>a. chances N W a (pnMyNum n) = 0"
  shows "paxos_inv ids k (N(p \<mapsto> acceptOwn n)) W \<and> pnOutbound (acceptOwn n) = pnOutbound n \<and>
    pnPhase (acceptOwn n) = ph_accepting \<and>
    (\<forall>a. a \<noteq> p \<longrightarrow> chances (N(p \<mapsto> acceptOwn n)) W a (pnMyNum (acceptOwn n)) = 0)"
proof (cases "pnMyNum n < pnPromised n")
  case True
  then have "acceptOwn n = n" by (simp add: acceptOwn_def onAccept_def)
  then show ?thesis using inv p ph free by (simp add: fun_upd_idem)
next
  case False
  let ?n = "cast_vote (pnMyNum n) (pnMyVal n) n"
  have nid: "pnId n = p" "p \<in> set ids"
    using paxos_invD(1,2) [OF inv] p by (auto simp: node_ok_def node_static_def ids_ok_def)
  have "proposed N W (pnMyNum n) (pnMyVal n)" using p ph by (auto simp: proposed_def phase_two_def)
  then have inv1: "paxos_inv ids k (N(p \<mapsto> ?n)) W"
    using False free by (intro inv_vote [OF inv p] paxos_invD(3) [OF inv]) simp_all
  have "paxos_inv ids k ((N(p \<mapsto> ?n))(p \<mapsto> ?n\<lparr>pnAcceptMask := pnAcceptMask ?n OR px_bit p\<rparr>)) W"
    by (rule inv_mask [OF inv1, where v = "pnMyVal n"]) (use ph nid in \<open>simp_all add: cast_vote_def\<close>)
  moreover have own: "acceptOwn n = ?n\<lparr>pnAcceptMask := pnAcceptMask ?n OR px_bit p\<rparr>"
    using False nid by (simp add: acceptOwn_def onAccept_cast) (simp add: cast_vote_def)
  moreover have "chances (N(p \<mapsto> acceptOwn n)) W a (pnMyNum (acceptOwn n)) = 0" if "a \<noteq> p" for a
    using free [of a] that by (simp add: own chances_def cast_vote_def)
  ultimately show ?thesis using ph by (simp add: cast_vote_def)
qed

lemma inv_recordPromise:
  assumes inv: "paxos_inv ids k N W" and p: "N p = Some n" and ph: "pnPhase n = ph_preparing"
    and a: "a \<in> set ids" and prom: "promise_ok N a (pnMyNum n) has num val"
  shows "\<exists>new. pnOutbound (recordPromise a num val has n) = pnOutbound n @ new \<and>
    paxos_inv ids k (N(p \<mapsto> recordPromise a num val has n)) (W + mset new)"
proof -
  define n1 where "n1 = collectPromise a num val has n"
  have n1: "pnPhase n1 = ph_preparing" "pnOutbound n1 = pnOutbound n"
    using ph by (simp_all add: n1_def collectPromise_def Let_def)
  have inv1: "paxos_inv ids k (N(p \<mapsto> n1)) W"
    unfolding n1_def using inv p ph a prom by (rule inv_collect)
  show ?thesis
  proof (cases "popcount (pnPromiseMask n1) < px_quorum n1")
    case True
    then have "recordPromise a num val has n = n1" by (simp add: recordPromise_def n1_def Let_def)
    then show ?thesis using inv1 n1 by (intro exI [of _ "[]"]) simp
  next
    case False
    define n2 where "n2 = (adoptBest n1)\<lparr>pnPhase := ph_accepting, pnAcceptMask := 0\<rparr>"
    have n2: "pnPhase n2 = ph_accepting" "pnMyNum n2 = pnMyNum n1" "pnOutbound n2 = pnOutbound n"
      using n1 by (simp_all add: n2_def adoptBest_def Let_def)
    have inv2: "paxos_inv ids k (N(p \<mapsto> n2)) W" and free: "chances (N(p \<mapsto> n2)) W a (pnMyNum n2) = 0" for a
      using inv_start [of ids k "N(p \<mapsto> n1)" W p n1, OF inv1 _ n1(1)] False unfolding n2(2) by (simp_all add: n2_def)
    define n3 where "n3 = acceptOwn n2"
    have inv3: "paxos_inv ids k (N(p \<mapsto> n3)) W" "pnOutbound n3 = pnOutbound n" "pnPhase n3 = ph_accepting"
        "\<And>a. a \<noteq> p \<Longrightarrow> chances (N(p \<mapsto> n3)) W a (pnMyNum n3) = 0"
      using inv_acceptOwn [of ids k "N(p \<mapsto> n2)" W p n2, OF inv2 _ n2(1) free] n2(3) by (simp_all add: n3_def)
    have rp: "recordPromise a num val has n =
        (if popcount (pnAcceptMask n3) \<ge> px_quorum n3 then n3\<lparr>pnPhase := ph_decided\<rparr> else sendAccepts n3)"
      using False by (simp add: recordPromise_def Let_def n3_def n2_def n1_def)
    show ?thesis
    proof (cases "popcount (pnAcceptMask n3) \<ge> px_quorum n3")
      case True
      then show ?thesis
        using inv_decide [of ids k "N(p \<mapsto> n3)" W p n3, OF inv3(1) _ inv3(3) True] inv3(2) rp by (intro exI [of _ "[]"]) simp
    next
      case False
      have "paxos_inv ids k ((N(p \<mapsto> n3))(p \<mapsto> sendAccepts n3)) (W + mset (map (\<lambda>peer.
          (px_message Accept (pnId n3) peer (pnMyNum n3))\<lparr>pmVal := pnMyVal n3\<rparr>) (pnPeers n3)))"
        unfolding sendAccepts_def using inv3(3,4)
        by (intro inv_requests [OF inv3(1)]) (auto simp: phase_two_def)
      then show ?thesis using False inv3(2) rp by (auto simp: sendAccepts_def)
    qed
  qed
qed

lemma k_mono: "k \<le> k' \<Longrightarrow> (2 * k + 1) * l \<le> (2 * k' + 1) * (l :: nat)"
  by (intro mult_le_mono1) simp

lemma inv_k_mono:
  assumes "paxos_inv ids k N W" and "k \<le> k'"
  shows "paxos_inv ids k' N W"
proof -
  have "node_static ids k' p n" if "node_static ids k p n" for p n
    using that k_mono [OF assms(2), of "length ids"] assms(2)
    unfolding node_static_def by (meson mult_le_mono2 order.trans)
  moreover have "message_ok ids k' N m" if "message_ok ids k N m" for m
    using that k_mono [OF assms(2), of "length ids"] unfolding message_ok_def by (meson order.trans)
  ultimately show ?thesis using assms(1) unfolding paxos_inv_def node_ok_def by meson
qed

lemma startRound_number:
  assumes st: "node_static ids k p n" and p: "1 \<le> unat p" "unat p \<le> length ids"
    and room: "(2 * k + 3) * length ids < 2 ^ 64"
  shows "pnPromised n < pnMyNum (startRound v n) \<and> pnMyNum n < pnMyNum (startRound v n) \<and>
    unat (pnRound (startRound v n)) \<le> 2 * (k + 1) \<and>
    unat (pnMyNum (startRound v n)) = unat (pnRound (startRound v n)) * length ids + unat p"
proof -
  let ?l = "length ids" and ?r = "pnRound (startRound v n)" and ?num = "pnMyNum (startRound v n)"
  have sz: "pnSize n = ?l" "pnId n = p" and rnd: "unat (pnRound n) \<le> 2 * k"
    and prom: "unat (pnPromised n) \<le> (2 * k + 1) * ?l" using st by (auto simp: node_static_def)
  have l: "1 \<le> ?l" using p by simp
  then have small: "2 * k + 3 \<le> (2 * k + 3) * ?l" "?l \<le> (2 * k + 3) * ?l" by simp_all
  have ul: "unat (of_nat ?l :: u64) = ?l" by (intro unat_of_nat_u64 le_less_trans [OF small(2) room])
  have "unat (pnRound n) + 1 < 2 ^ 64" using rnd small(1) room by linarith
  then have r1: "unat (pnRound n + 1) = unat (pnRound n) + 1" by (rule unat_plus_one)
  have d: "unat (pnPromised n div of_nat ?l) = unat (pnPromised n) div ?l" by (simp add: unat_div ul)
  have dk: "unat (pnPromised n) div ?l \<le> 2 * k + 1"
    using div_le_mono [OF prom, of ?l] l by (simp only: div_mult_self_is_m)
  then have "unat (pnPromised n div of_nat ?l) + 1 < 2 ^ 64" using d small(1) room by linarith
  then have r2: "unat (pnPromised n div of_nat ?l + 1) = unat (pnPromised n) div ?l + 1"
    using d unat_plus_one [of "pnPromised n div of_nat ?l"] by simp
  have r: "unat ?r = max (unat (pnRound n) + 1) (unat (pnPromised n) div ?l + 1)"
    by (simp add: startRound_def Let_def sz unat_max_u64 r1 r2)
  then have rk: "unat ?r \<le> 2 * (k + 1)" using rnd dk by simp
  have "unat ?r * ?l \<le> 2 * (k + 1) * ?l" using rk by (rule mult_le_mono1)
  then have fits: "unat ?r * ?l + unat p < 2 ^ 64" using p(2) room by (simp add: algebra_simps)
  have "unat p < 2 ^ 64" using fits by linarith
  then have up: "unat (ucast p :: u64) = unat p" by (simp add: unsigned_ucast_eq take_bit_nat_eq_self)
  have m: "unat (?r * of_nat ?l) = unat ?r * ?l"
    using fits by (simp add: ul unat_word_ariths)
  have "?num = ?r * of_nat ?l + ucast p" by (simp add: startRound_def Let_def sz)
  then have num: "unat ?num = unat ?r * ?l + unat p"
    using fits m up by (simp add: unat_word_ariths)
  have "unat (pnPromised n) < (unat (pnPromised n) div ?l + 1) * ?l"
    using dividend_less_div_times [of ?l "unat (pnPromised n)"] l by (cases "ids = []") (simp_all add: algebra_simps)
  also have "\<dots> \<le> unat ?r * ?l" using r by (intro mult_le_mono1) simp
  finally have a: "unat (pnPromised n) < unat ?num" using num by simp
  have "unat (pnMyNum n) \<le> unat (pnRound n) * ?l + unat p" using st by (auto simp: node_static_def)
  also have "\<dots> < (unat (pnRound n) + 1) * ?l + unat p" using p by (cases ids) simp_all
  also have "\<dots> \<le> unat ?num" unfolding num using r by (intro add_right_mono mult_le_mono1) simp
  finally have b: "unat (pnMyNum n) < unat ?num" .
  show ?thesis using a b rk num by (simp add: word_less_nat_alt)
qed

lemma inv_Propose:
  assumes inv: "paxos_inv ids k N W" and p: "N p = Some n"
    and room: "(2 * k + 3) * length ids < 2 ^ 64"
  shows "\<exists>new. pnOutbound (px_Propose v n) = pnOutbound n @ new \<and>
    paxos_inv ids (k + 1) (N(p \<mapsto> px_Propose v n)) (W + mset new)"
proof -
  define n1 where "n1 = startRound v n"
  define n2 where "n2 = n1\<lparr>pnPromised := pnMyNum n1\<rparr>"
  have at: "(N(p \<mapsto> m)) p = Some m" for m by simp
  have inv0: "paxos_inv ids (k + 1) N W" using inv by (rule inv_k_mono) simp
  have st: "node_static ids k p n" and pid: "1 \<le> unat p" "unat p \<le> length ids" "p \<in> set ids"
    using paxos_invD(1,2) [OF inv] p by (auto simp: node_ok_def ids_ok_def)
  note num = startRound_number [OF st pid(1,2) room, of v, folded n1_def]
  have n1: "pnPromised n1 = pnPromised n" "pnPhase n1 = ph_preparing" "pnOutbound n1 = pnOutbound n"
    "pnAccepts n1 = pnAccepts n" "pnId n1 = p" "pnPromiseMask n1 = 0" "\<not> pnHasBest n1"
    using st by (simp_all add: n1_def startRound_def Let_def node_static_def)
  have "node_static ids (k + 1) p n1"
    using paxos_invD(2) [OF inv0 p] num n1
    by (simp add: node_ok_def node_static_def) (simp add: n1_def startRound_def Let_def)
  moreover have "acceptor_ok n1"
    using paxos_invD(2) [OF inv p] by (simp add: node_ok_def acceptor_ok_def n1_def startRound_def Let_def)
  ultimately have "node_ok ids (k + 1) (N(p \<mapsto> n1)) p n1"
    using n1 by (simp add: node_ok_def preparing_ok_def accepting_ok_def phase_two_def)
  then have inv1: "paxos_inv ids (k + 1) (N(p \<mapsto> n1)) W"
    using num n1 by (intro inv_quiet [OF inv0 p]) (simp_all add: phase_two_def)
  have lt: "pnPromised n1 < pnMyNum n1" using num n1 by simp
  have inv2: "paxos_inv ids (k + 1) (N(p \<mapsto> n2)) W"
    and prom: "promise_ok (N(p \<mapsto> n2)) p (pnMyNum n2) (pnHasAccepted n1) (pnAcceptedNum n1) (pnAcceptedVal n1)"
    using inv_promise [of ids "k + 1" "N(p \<mapsto> n1)" W p n1, OF inv1 _ lt node_number [of ids "k + 1" "N(p \<mapsto> n1)" W p n1, OF inv1]] by (simp_all add: n2_def)
  define n3 where "n3 = recordPromise p (pnAcceptedNum n1) (pnAcceptedVal n1) (pnHasAccepted n1) n2"
  have "pnPhase n2 = ph_preparing" "pnOutbound n2 = pnOutbound n" using n1 by (simp_all add: n2_def)
  then obtain new where new: "pnOutbound n3 = pnOutbound n @ new" "paxos_inv ids (k + 1) (N(p \<mapsto> n3)) (W + mset new)"
    using inv_recordPromise [of ids "k + 1" "N(p \<mapsto> n2)" W p n2, OF inv2 _ _ pid(3) prom] by (auto simp: n3_def)
  have pp: "px_Propose v n = sendPrepares n3"
    using lt n1 by (simp add: px_Propose_def onPrepare_def Let_def n1_def [symmetric] n2_def n3_def)
  let ?ms = "map (\<lambda>peer. px_message Prepare (pnId n3) peer (pnMyNum n3)) (pnPeers n3)"
  have st3: "node_static ids (k + 1) p n3" using paxos_invD(2) [OF new(2) at] by (simp add: node_ok_def)
  have "paxos_inv ids (k + 1) ((N(p \<mapsto> n3))(p \<mapsto> sendPrepares n3)) (W + mset new + mset ?ms)"
    unfolding sendPrepares_def
    using st3 node_number [OF new(2) at] pid(3)
    by (intro inv_send [OF new(2) at]) (auto simp: message_ok_def px_message_def node_static_def)
  then show ?thesis
    using new(1) pp by (intro exI [of _ "new @ ?ms"]) (simp add: sendPrepares_def ac_simps)
qed

lemma inv_Tick:
  assumes inv: "paxos_inv ids k N W" and p: "N p = Some n"
    and room: "(2 * k + 3) * length ids < 2 ^ 64"
  shows "\<exists>new. pnOutbound (px_Tick n) = pnOutbound n @ new \<and>
    paxos_inv ids (k + 1) (N(p \<mapsto> px_Tick n)) (W + mset new)"
proof -
  let ?n = "n\<lparr>pnElapsed := pnElapsed n + 1\<rparr>"
  have inv1: "paxos_inv ids k (N(p \<mapsto> ?n)) W" using inv p by (rule inv_elapsed)
  have same: "N(p \<mapsto> n) = N" using p by (simp add: fun_upd_idem_iff)
  have quiet: "paxos_inv ids (k + 1) (N(p \<mapsto> ?n)) W" "paxos_inv ids (k + 1) (N(p \<mapsto> n)) W"
    unfolding same using inv_k_mono [OF inv1, of "k + 1"] inv_k_mono [OF inv, of "k + 1"] by simp_all
  obtain new where "pnOutbound (px_Propose (pnMyVal n) ?n) = pnOutbound n @ new"
    "paxos_inv ids (k + 1) (N(p \<mapsto> px_Propose (pnMyVal n) ?n)) (W + mset new)"
    using inv_Propose [of ids k "N(p \<mapsto> ?n)" W p ?n "pnMyVal n", OF inv1 _ room] by auto
  moreover have "px_Tick n = n \<or> px_Tick n = ?n \<or> px_Tick n = px_Propose (pnMyVal n) ?n"
    by (simp add: px_Tick_def Let_def)
  ultimately show ?thesis
    using quiet by (elim disjE) (auto intro: exI [of _ "[]"])
qed

lemma inv_reply:
  assumes inv: "paxos_inv ids k (N(p \<mapsto> n)) W" and m: "message_ok ids k (N(p \<mapsto> n)) m" "pmKind m \<noteq> Accept"
  shows "paxos_inv ids k (N(p \<mapsto> n\<lparr>pnOutbound := pnOutbound n @ [m]\<rparr>)) (W + mset [m])"
  using inv_send [of ids k "N(p \<mapsto> n)" W p n "[m]", OF inv] m by simp

lemma inv_Prepare:
  assumes inv: "paxos_inv ids k N W" and m: "m \<in># W" "pmKind m = Prepare" and p: "N p = Some n"
  shows "\<exists>new. pnOutbound (px_Step m n) = pnOutbound n @ new \<and>
    paxos_inv ids k (N(p \<mapsto> px_Step m n)) (W + mset new)"
proof -
  have m_ok: "message_ok ids k N m" using inv m(1) by (rule paxos_invD)
  have pid: "pnId n = p" "p \<in> set ids" and same: "N(p \<mapsto> n) = N"
    using paxos_invD(1,2) [OF inv] p by (auto simp: node_ok_def node_static_def ids_ok_def fun_upd_idem_iff)
  let ?reply = "\<lambda>ok num val has. (px_message Promise p (pmFrom m) (pmNum m))
    \<lparr>pmOK := ok, pmAcceptedNum := num, pmAcceptedVal := val, pmHasAccepted := has\<rparr>"
  show ?thesis
  proof (cases "pmNum m \<le> pnPromised n")
    case True
    have "message_ok ids k (N(p \<mapsto> n)) (?reply False 0 0 False)"
      using m_ok pid unfolding same by (simp add: message_ok_def px_message_def)
    from inv_reply [OF _ this] show ?thesis
      using inv m(2) True pid unfolding same
      by (intro exI [of _ "[?reply False 0 0 False]"]) (simp add: px_Step_def onPrepare_def px_message_def)
  next
    case False
    let ?n = "n\<lparr>pnPromised := pmNum m\<rparr>"
    let ?r = "?reply True (pnAcceptedNum n) (pnAcceptedVal n) (pnHasAccepted n)"
    have n: "paxos_inv ids k (N(p \<mapsto> ?n)) W"
        "promise_ok (N(p \<mapsto> ?n)) p (pmNum m) (pnHasAccepted n) (pnAcceptedNum n) (pnAcceptedVal n)"
      using inv_promise [OF inv p, of "pmNum m"] False m_ok by (simp_all add: message_ok_def)
    then have "message_ok ids k (N(p \<mapsto> ?n)) ?r"
      using m_ok pid by (simp add: message_ok_def px_message_def)
    from inv_reply [OF n(1) this] show ?thesis
      using m(2) False pid
      by (intro exI [of _ "[?r]"]) (simp add: px_Step_def onPrepare_def px_message_def)
  qed
qed

lemma proposed_less: "proposed N (W - {#m#}) b v \<Longrightarrow> proposed N W b v"
  unfolding proposed_def by (meson in_diffD)

lemma inv_Accept:
  assumes inv: "paxos_inv ids k N W" and m: "m \<in># W" "pmKind m = Accept" "pmTo m = p" and p: "N p = Some n"
  shows "\<exists>new. pnOutbound (px_Step m n) = pnOutbound n @ new \<and>
    paxos_inv ids k (N(p \<mapsto> px_Step m n)) (W - {#m#} + mset new)"
proof -
  let ?W = "W - {#m#}"
  have m_ok: "message_ok ids k N m" using inv m(1) by (rule paxos_invD)
  have inv1: "paxos_inv ids k N ?W" using inv by (rule inv_loss) simp
  have pid: "pnId n = p" "p \<in> set ids" and same: "N(p \<mapsto> n) = N"
    using paxos_invD(1,2) [OF inv] p by (auto simp: node_ok_def node_static_def ids_ok_def fun_upd_idem_iff)
  let ?reply = "\<lambda>ok. (px_message Accepted p (pmFrom m) (pmNum m))\<lparr>pmOK := ok\<rparr>"
  show ?thesis
  proof (cases "pmNum m < pnPromised n")
    case True
    have "message_ok ids k (N(p \<mapsto> n)) (?reply False)"
      using m_ok pid unfolding same by (simp add: message_ok_def px_message_def)
    from inv_reply [OF _ this] show ?thesis
      using inv1 m(2) True pid unfolding same
      by (intro exI [of _ "[?reply False]"]) (simp add: px_Step_def onAccept_def px_message_def)
  next
    case False
    let ?n = "cast_vote (pmNum m) (pmVal m) n"
    have "proposed N W (pmNum m) (pmVal m)" using m by (auto simp: proposed_def)
    then have "proposal_ok ids N W (pmNum m) (pmVal m)" by (rule paxos_invD(3) [OF inv])
    then have ok: "proposal_ok ids N ?W (pmNum m) (pmVal m)"
      unfolding proposal_ok_def using proposed_less [of N W m] by blast
    have "chances N W p (pmNum m) = chances N ?W p (pmNum m) + 1"
      using m multi_member_split [OF m(1)] by (auto simp: chances_def)
    then have free: "chances N ?W p (pmNum m) = 0" using paxos_invD(5) [OF inv, of p "pmNum m"] by simp
    have inv2: "paxos_inv ids k (N(p \<mapsto> ?n)) ?W"
      using False by (intro inv_vote [OF inv1 p ok _ free]) simp
    have "message_ok ids k (N(p \<mapsto> ?n)) (?reply True)"
      using m_ok pid by (auto simp: message_ok_def px_message_def cast_vote_def)
    from inv_reply [OF inv2 this] show ?thesis
      using m(2) False pid
      by (intro exI [of _ "[?reply True]"]) (simp add: px_Step_def onAccept_cast px_message_def, simp add: cast_vote_def)
  qed
qed

lemma inv_Promise:
  assumes inv: "paxos_inv ids k N W" and m: "m \<in># W" "pmKind m = Promise" and p: "N p = Some n"
  shows "\<exists>new. pnOutbound (px_Step m n) = pnOutbound n @ new \<and>
    paxos_inv ids k (N(p \<mapsto> px_Step m n)) (W + mset new)"
proof (cases "pmNum m \<noteq> pnMyNum n \<or> pnPhase n \<noteq> ph_preparing \<or> \<not> pmOK m")
  case True
  then have "px_Step m n = n" using m by (simp add: px_Step_def)
  moreover have "N(p \<mapsto> n) = N" using p by (simp add: fun_upd_idem_iff)
  ultimately show ?thesis using inv by (intro exI [of _ "[]"]) simp
next
  case False
  have "message_ok ids k N m" using inv m(1) by (rule paxos_invD)
  then show ?thesis
    using False m(2) inv_recordPromise [OF inv p, of "pmFrom m"] by (simp add: message_ok_def px_Step_def)
qed

lemma inv_Accepted:
  assumes inv: "paxos_inv ids k N W" and m: "m \<in># W" "pmKind m = Accepted" and p: "N p = Some n"
  shows "pnOutbound (px_Step m n) = pnOutbound n \<and> paxos_inv ids k (N(p \<mapsto> px_Step m n)) W"
proof (cases "pmNum m \<noteq> pnMyNum n \<or> pnPhase n \<noteq> ph_accepting \<or> \<not> pmOK m")
  case True
  then have "px_Step m n = n" using m by (simp add: px_Step_def)
  moreover have "N(p \<mapsto> n) = N" using p by (simp add: fun_upd_idem_iff)
  ultimately show ?thesis using inv by simp
next
  case False
  let ?n = "n\<lparr>pnAcceptMask := pnAcceptMask n OR px_bit (pmFrom m)\<rparr>"
  have "message_ok ids k N m" using inv m(1) by (rule paxos_invD)
  then obtain v where "pmFrom m \<in> set ids" "(pnMyNum n, v) \<in> px_votes N (pmFrom m)"
    using False m(2) by (auto simp: message_ok_def)
  then have inv1: "paxos_inv ids k (N(p \<mapsto> ?n)) W" using False by (intro inv_mask [OF inv p]) auto
  have step: "px_Step m n = (if popcount (pnAcceptMask ?n) \<ge> px_quorum ?n then ?n\<lparr>pnPhase := ph_decided\<rparr> else ?n)"
    using False m(2) by (simp add: px_Step_def Let_def)
  show ?thesis
    unfolding step using inv1 inv_decide [of ids k "N(p \<mapsto> ?n)" W p ?n, OF inv1] False by auto
qed

lemma inv_Step:
  assumes inv: "paxos_inv ids k N W" and m: "m \<in># W" "pmTo m = p" and p: "N p = Some n"
  shows "\<exists>new. pnOutbound (px_Step m n) = pnOutbound n @ new \<and>
    paxos_inv ids k (N(p \<mapsto> px_Step m n)) (W - {#m#} + mset new)"
proof -
  have less: "paxos_inv ids k N' (W - {#m#} + mset new)" if "paxos_inv ids k N' (W + mset new)" for N' new
    using that by (rule inv_loss) simp
  show ?thesis
  proof (cases "pmKind m")
    case Prepare
    then show ?thesis using inv_Prepare [OF inv m(1) _ p] less by blast
  next
    case Promise
    then show ?thesis using inv_Promise [OF inv m(1) _ p] less by blast
  next
    case Accept
    then show ?thesis using inv_Accept [OF inv m(1) _ m(2) p] by blast
  next
    case Accepted
    then show ?thesis using inv_Accepted [OF inv m(1) _ p] less [of _ "[]"] by (intro exI [of _ "[]"]) simp
  qed
qed

end
