(* ===== verification/Paxos_Safety.thy ===== *)
theory Paxos_Safety
  imports Paxos_Steps
begin

text \<open>
  Agreement for the Paxos cluster. \<open>px_reach\<close> describes every run of the cluster on a network that
  delays, reorders and loses messages but does not duplicate them, which is what the engine provides;
  its index counts the proposals and ticks, so that a bound on it rules out a wrapped proposal number.
\<close>

subsection \<open>What the invariant gives\<close>

lemma inv_votes:
  assumes "paxos_inv ids k N W"
  shows "(b, v) \<in> px_votes N a \<Longrightarrow> px_safe ids N b v"
    "(b, v) \<in> px_votes N a \<Longrightarrow> (b, w) \<in> px_votes N a' \<Longrightarrow> v = w"
proof -
  have "proposal_ok ids N W b v" if "(b, v) \<in> px_votes N a" for b v a
    using that by (intro paxos_invD(3) [OF assms]) (auto simp: proposed_def)
  then show "(b, v) \<in> px_votes N a \<Longrightarrow> px_safe ids N b v"
    "(b, v) \<in> px_votes N a \<Longrightarrow> (b, w) \<in> px_votes N a' \<Longrightarrow> v = w"
    unfolding proposal_ok_def proposed_def by blast+
qed

lemma inv_agreement:
  assumes inv: "paxos_inv ids k N W"
    and "chosen_at (px_majority ids) (px_votes N) b v" "chosen_at (px_majority ids) (px_votes N) c w"
  shows "v = w"
  using inv_votes [OF inv] assms(2,3) by (rule px_voting.one_choice)

lemma acceptanceCounts_count: "acceptanceCounts c x = count (mset (allAcceptances c)) x"
proof -
  have "fold (\<lambda>a counts. counts(a := counts a + 1)) xs f x = f x + count (mset xs) x" for xs and f :: "Acceptance \<Rightarrow> nat"
    by (induction xs arbitrary: f) simp_all
  then show ?thesis by (simp add: acceptanceCounts_def)
qed

definition cl_inv :: "nat \<Rightarrow> px_Cluster \<Rightarrow> px_Message multiset \<Rightarrow> bool" where
  "cl_inv k c W \<longleftrightarrow> paxos_inv (pcIds c) k (pcNodes c) W"

lemma node_votes_once:
  assumes "paxos_inv ids k N W" and "N a = Some n"
  shows "count (mset (pnAccepts n)) x = (if x \<in> px_votes N a then 1 else 0)"
proof -
  have "count (mset xs) x \<le> length (filter (\<lambda>y. fst y = fst x) xs)" for xs
    by (induction xs) auto
  from this [of "pnAccepts n"] have "count (mset (pnAccepts n)) x \<le> length (filter (\<lambda>y. fst y = fst x) (pnAccepts n))" .
  also have "\<dots> \<le> 1" using paxos_invD(5) [OF assms(1), of a "fst x"] assms(2) by (simp add: chances_def)
  finally show ?thesis using assms(2) by (auto simp: px_votes_def le_Suc_eq count_eq_zero_iff)
qed

lemma counts_voters:
  assumes "cl_inv k c W"
  shows "acceptanceCounts c x = card {a \<in> set (pcIds c). x \<in> px_votes (pcNodes c) a}"
proof -
  have inv: "paxos_inv (pcIds c) k (pcNodes c) W" using assms by (simp add: cl_inv_def)
  have d: "distinct (pcIds c)" "\<And>a. a \<in> set (pcIds c) \<Longrightarrow> \<exists>n. pcNodes c a = Some n"
    using paxos_invD(1) [OF inv] by (auto simp: ids_ok_def)
  have "count (mset (concat (map (\<lambda>nid. px_Acceptances (the (pcNodes c nid))) xs))) x =
      card {a \<in> set xs. x \<in> px_votes (pcNodes c) a}"
    if "distinct xs" "set xs \<subseteq> set (pcIds c)" for xs
    using that
  proof (induction xs)
    case (Cons y xs)
    obtain n where n: "pcNodes c y = Some n" using d(2) [of y] Cons.prems by auto
    have "{a \<in> set (y # xs). x \<in> px_votes (pcNodes c) a} =
        (if x \<in> px_votes (pcNodes c) y then insert y else (\<lambda>s. s)) {a \<in> set xs. x \<in> px_votes (pcNodes c) a}"
      by auto
    then show ?case
      using Cons n node_votes_once [OF inv n, of x] by (simp add: px_Acceptances_def)
  qed simp
  from this [of "pcIds c"] show ?thesis using d by (simp add: acceptanceCounts_count allAcceptances_def)
qed

lemma counts_chosen:
  assumes "cl_inv k c W"
  shows "length (pcIds c) div 2 + 1 \<le> acceptanceCounts c (b, v) \<longleftrightarrow>
    chosen_at (px_majority (pcIds c)) (px_votes (pcNodes c)) b v"
proof -
  let ?S = "{a \<in> set (pcIds c). (b, v) \<in> px_votes (pcNodes c) a}"
  have "px_majority (pcIds c) ?S" if "length (pcIds c) div 2 + 1 \<le> card ?S"
    using that by (auto simp: px_majority_def)
  moreover have "length (pcIds c) div 2 + 1 \<le> card ?S"
    if S: "px_majority (pcIds c) S" "\<forall>a \<in> S. (b, v) \<in> px_votes (pcNodes c) a" for S
  proof -
    have "card S \<le> card ?S" using S by (intro card_mono) (auto simp: px_majority_def)
    then show ?thesis using S(1) by (simp add: px_majority_def)
  qed
  ultimately show ?thesis unfolding counts_voters [OF assms] chosen_at_def by blast
qed

lemma chosenValues_set:
  "set (chosenValues c) = {v. \<exists>b. (b, v) \<in> set (allAcceptances c) \<and> length (pcIds c) div 2 + 1 \<le> acceptanceCounts c (b, v)}"
  "distinct (chosenValues c)"
proof -
  let ?q = "length (pcIds c) div 2 + 1"
  let ?f = "\<lambda>a found. if acceptanceCounts c a \<ge> ?q \<and> snd a \<notin> set found then found @ [snd a] else found"
  have "set (fold ?f xs found) = set found \<union> {v. \<exists>b. (b, v) \<in> set xs \<and> ?q \<le> acceptanceCounts c (b, v)} \<and>
      (distinct found \<longrightarrow> distinct (fold ?f xs found))" for xs found
  proof (induction xs arbitrary: found)
    case (Cons x xs)
    obtain b v where x: "x = (b, v)" by fastforce
    show ?case unfolding fold.simps comp_def using Cons.IH [of "?f x found"] by (auto simp: x)
  qed simp
  from this [of "allAcceptances c" "[]"] show
    "set (chosenValues c) = {v. \<exists>b. (b, v) \<in> set (allAcceptances c) \<and> ?q \<le> acceptanceCounts c (b, v)}"
    "distinct (chosenValues c)"
    by (simp_all add: chosenValues_def Let_def)
qed

lemma chosen_single:
  assumes "cl_inv k c W"
  shows "length (chosenValues c) \<le> 1"
proof -
  have inv: "paxos_inv (pcIds c) k (pcNodes c) W" using assms by (simp add: cl_inv_def)
  have "v = w" if "v \<in> set (chosenValues c)" "w \<in> set (chosenValues c)" for v w
  proof -
    obtain b b' where "length (pcIds c) div 2 + 1 \<le> acceptanceCounts c (b, v)"
        "length (pcIds c) div 2 + 1 \<le> acceptanceCounts c (b', w)"
      using \<open>v \<in> _\<close> \<open>w \<in> _\<close> unfolding chosenValues_set by blast
    then show ?thesis unfolding counts_chosen [OF assms] by (rule inv_agreement [OF inv])
  qed
  then have "card (set (chosenValues c)) \<le> 1" by (metis card_le_Suc0_iff_eq List.finite_set One_nat_def)
  then show ?thesis using chosenValues_set(2) [of c] by (simp add: distinct_card)
qed

lemma firstError_none: "firstError check xs = None \<longleftrightarrow> (\<forall>x \<in> set xs. check x = None)"
  by (induction xs) (auto split: option.splits)

lemma historyRegression_none: "sorted (map fst xs) \<Longrightarrow> historyRegression nid xs = None"
  by (induction nid xs rule: historyRegression.induct) auto

lemma checks_pass:
  assumes "cl_inv k c W"
  shows "checkSingleChoice c = None" "checkPromiseRespected c = None" "checkHistoryMonotonic c = None"
proof -
  have inv: "paxos_inv (pcIds c) k (pcNodes c) W" using assms by (simp add: cl_inv_def)
  have node: "\<exists>n. pcNodes c a = Some n \<and> acceptor_ok n" if "a \<in> set (pcIds c)" for a
    using paxos_invD(1,2) [OF inv] that by (fastforce simp: ids_ok_def node_ok_def)
  show "checkSingleChoice c = None"
    using chosen_single [OF assms] by (simp add: checkSingleChoice_def Let_def)
  show "checkPromiseRespected c = None"
    unfolding checkPromiseRespected_def firstError_none
  proof
    fix a assume "a \<in> set (pcIds c)"
    then obtain n where n: "pcNodes c a = Some n" "acceptor_ok n" using node by blast
    have "pnAcceptedNum n \<le> pnPromised n" if "pnHasAccepted n"
      using n(2) that last_in_set [of "pnAccepts n"] unfolding acceptor_ok_def by (metis fst_conv)
    then show "(let n = the (pcNodes c a); (num, _, ok) = px_Accepted n in
       if ok \<and> num > px_Promised n
       then Some (''node '' @ decimal (unat a) @ '' accepted at '' @ decimal (unat num) @
         '' but promised only '' @ decimal (unat (px_Promised n)))
       else None) = None"
      by (auto simp: n px_Accepted_def px_Promised_def)
  qed
  show "checkHistoryMonotonic c = None"
    unfolding checkHistoryMonotonic_def firstError_none
  proof
    fix a assume "a \<in> set (pcIds c)"
    then obtain n where n: "pcNodes c a = Some n" "acceptor_ok n" using node by blast
    then show "historyRegression a (px_Acceptances (the (pcNodes c a))) = None"
      by (simp add: px_Acceptances_def acceptor_ok_def historyRegression_none)
  qed
qed

lemma decided_chosen:
  assumes "cl_inv k c W" and n: "pcNodes c a = Some n" "px_Decided n"
  shows "Chosen c = Some (pnMyVal n)"
proof -
  have inv: "paxos_inv (pcIds c) k (pcNodes c) W" using assms(1) by (simp add: cl_inv_def)
  have two: "phase_two n" using n(2) by (simp add: px_Decided_def phase_two_def)
  have ok: "node_ok (pcIds c) k (pcNodes c) a n" using inv n(1) by (rule paxos_invD)
  have mine: "proposal_ok (pcIds c) (pcNodes c) W (pnMyNum n) (pnMyVal n)"
    using n(1) two by (intro paxos_invD(3) [OF inv]) (auto simp: proposed_def)
  let ?P = "\<lambda>b. (pnMyNum n, pnMyVal n) \<in> px_votes (pcNodes c) b"
  have "px_majority (pcIds c) {b \<in> set (pcIds c). ?P b}"
  proof (rule mask_majority [OF paxos_invD(1) [OF inv], of "pnAcceptMask n"])
    show "length (pcIds c) div 2 + 1 \<le> popcount (pnAcceptMask n)"
      using ok n(2) two by (auto simp: node_ok_def accepting_ok_def node_static_def px_Decided_def px_quorum_def)
    fix i assume "bit (pnAcceptMask n) i"
    then obtain b v where b: "pcNodes c b \<noteq> None" "unat b = Suc i" "(pnMyNum n, v) \<in> px_votes (pcNodes c) b"
      using ok two unfolding node_ok_def accepting_ok_def by blast
    then have "v = pnMyVal n" using mine unfolding proposal_ok_def proposed_def by blast
    then show "\<exists>b. pcNodes c b \<noteq> None \<and> unat b = Suc i \<and> ?P b" using b by blast
  qed
  then have ch: "chosen_at (px_majority (pcIds c)) (px_votes (pcNodes c)) (pnMyNum n) (pnMyVal n)"
    unfolding chosen_at_def by blast
  then have q: "length (pcIds c) div 2 + 1 \<le> acceptanceCounts c (pnMyNum n, pnMyVal n)"
    unfolding counts_chosen [OF assms(1)] .
  then have "count (mset (allAcceptances c)) (pnMyNum n, pnMyVal n) \<noteq> 0"
    unfolding acceptanceCounts_count by linarith
  then have "(pnMyNum n, pnMyVal n) \<in> set (allAcceptances c)" by simp
  then have "pnMyVal n \<in> set (chosenValues c)" using q unfolding chosenValues_set by blast
  then have "chosenValues c = [pnMyVal n]"
    using chosen_single [OF assms(1)] by (cases "chosenValues c") auto
  then show ?thesis by (simp add: Chosen_def)
qed

subsection \<open>Runs of the cluster\<close>

inductive px_reach :: "nat \<Rightarrow> nat \<Rightarrow> px_Cluster \<Rightarrow> px_Message multiset \<Rightarrow> bool" for cnt where
  init: "px_New cnt = Some c \<Longrightarrow> px_reach cnt 0 c {#}"
| tick: "px_reach cnt k c W \<Longrightarrow> pc_Tick a c = Some c' \<Longrightarrow> px_reach cnt (k + 1) c' W"
| propose: "px_reach cnt k c W \<Longrightarrow> pc_Propose a v c = Some c' \<Longrightarrow> px_reach cnt (k + 1) c' W"
| drain: "px_reach cnt k c W \<Longrightarrow> pc_Drain a [] c = Some (ms, c') \<Longrightarrow> px_reach cnt k c' (W + mset ms)"
| deliver: "px_reach cnt k c W \<Longrightarrow> m \<in># W \<Longrightarrow> pc_Deliver (pmTo m) m c = Some c' \<Longrightarrow>
    px_reach cnt k c' (W - {#m#})"
| lose: "px_reach cnt k c W \<Longrightarrow> px_reach cnt k c (W - {#m#})"

definition outs :: "px_nodes \<Rightarrow> px_Message multiset" where
  "outs N = (\<Sum>a \<in> dom N. mset (pnOutbound (the (N a))))"

lemma outs_upd:
  assumes "finite (dom N)" and "N p = Some n"
  shows "outs (N(p \<mapsto> n')) + mset (pnOutbound n) = outs N + mset (pnOutbound n')"
proof -
  have dom: "dom (N(p \<mapsto> n')) = dom N" "p \<in> dom N" using assms(2) by auto
  have "outs (N(p \<mapsto> n')) = mset (pnOutbound n') + (\<Sum>a \<in> dom N - {p}. mset (pnOutbound (the (N a))))"
    unfolding outs_def dom(1) by (subst sum.remove [OF assms(1) dom(2)]) (auto intro!: sum.cong)
  moreover have "outs N = mset (pnOutbound n) + (\<Sum>a \<in> dom N - {p}. mset (pnOutbound (the (N a))))"
    unfolding outs_def by (subst sum.remove [OF assms(1) dom(2)]) (simp add: assms(2))
  ultimately show ?thesis by simp
qed

lemma outs_append:
  assumes "finite (dom N)" and "N p = Some n" and "pnOutbound n' = pnOutbound n @ new"
  shows "outs (N(p \<mapsto> n')) = outs N + mset new"
  using outs_upd [OF assms(1,2), of n'] assms(3) by simp

definition cluster_ok :: "nat \<Rightarrow> nat \<Rightarrow> px_Cluster \<Rightarrow> px_Message multiset \<Rightarrow> bool" where
  "cluster_ok cnt k c W \<longleftrightarrow> length (pcIds c) = cnt \<and> cl_inv k c (W + outs (pcNodes c))"

lemma cluster_finite: "cl_inv k c W \<Longrightarrow> finite (dom (pcNodes c))"
  by (simp add: cl_inv_def paxos_inv_def ids_ok_def)

lemma px_update_Some:
  "px_update a f c = Some c' \<longleftrightarrow> (\<exists>n. pcNodes c a = Some n \<and> c' = c\<lparr>pcNodes := (pcNodes c)(a \<mapsto> f n)\<rparr>)"
  by (auto simp: px_update_def bind_eq_Some_conv)

lemma cluster_ok_step:
  assumes ok: "cluster_ok cnt k c W" and upd: "px_update a f c = Some c'"
    and step: "\<And>N n V. paxos_inv (pcIds c) k N V \<Longrightarrow> N a = Some n \<Longrightarrow> \<exists>new. pnOutbound (f n) = pnOutbound n @ new \<and>
      paxos_inv (pcIds c) k' (N(a \<mapsto> f n)) (V + mset new)"
  shows "cluster_ok cnt k' c' W"
proof -
  obtain n where n: "pcNodes c a = Some n" and c': "c' = c\<lparr>pcNodes := (pcNodes c)(a \<mapsto> f n)\<rparr>"
    using upd by (auto simp: px_update_Some)
  have inv: "paxos_inv (pcIds c) k (pcNodes c) (W + outs (pcNodes c))"
    using ok by (simp add: cluster_ok_def cl_inv_def)
  have fin: "finite (dom (pcNodes c))" using ok cluster_finite by (auto simp: cluster_ok_def)
  obtain new where "pnOutbound (f n) = pnOutbound n @ new"
      "paxos_inv (pcIds c) k' ((pcNodes c)(a \<mapsto> f n)) (W + outs (pcNodes c) + mset new)"
    using step [OF inv n] by blast
  then show ?thesis
    using outs_append [OF fin n, of "f n" new] ok by (simp add: cluster_ok_def cl_inv_def c' add.assoc)
qed

lemma new_nodes:
  assumes "foldM (px_addNode cnt) xs c0 = Some c"
  shows "pcIds c = pcIds c0 @ map of_nat xs \<and>
    (\<forall>a. a \<in> of_nat ` set xs \<longrightarrow> (\<exists>t. pcNodes c a = px_NewNode a cnt t \<and> pcNodes c a \<noteq> None)) \<and>
    (\<forall>a. a \<notin> of_nat ` set xs \<longrightarrow> pcNodes c a = pcNodes c0 a)"
  using assms
proof (induction xs arbitrary: c0)
  case (Cons i xs)
  then obtain c1 where c1: "px_addNode cnt i c0 = Some c1" and rest: "foldM (px_addNode cnt) xs c1 = Some c"
    by (auto simp: bind_eq_Some_conv)
  obtain n where n: "px_NewNode (of_nat i) cnt (12 + of_nat i * 3) = Some n"
    and c1': "pcIds c1 = pcIds c0 @ [of_nat i]" "pcNodes c1 = (pcNodes c0)(of_nat i \<mapsto> n)"
    using c1 by (auto simp: px_addNode_def bind_eq_Some_conv)
  have "pcNodes c (of_nat i) = Some n" if "(of_nat i :: u32) \<notin> of_nat ` set xs"
    using Cons.IH [OF rest] that c1' by simp
  then have "\<exists>t. pcNodes c (of_nat i) = px_NewNode (of_nat i) cnt t \<and> pcNodes c (of_nat i) \<noteq> None"
    using Cons.IH [OF rest] n by (metis option.distinct(1))
  then show ?case using Cons.IH [OF rest] c1' by auto
qed simp

lemma of_nat_u32: "n < 2 ^ 32 \<Longrightarrow> unat (of_nat n :: u32) = n"
  by (simp add: unat_of_nat)

lemma px_New_ids:
  assumes "px_New cnt = Some c" and "cnt < 2 ^ 32"
  shows "ids_ok (pcIds c) (pcNodes c) \<and> length (pcIds c) = cnt \<and>
    (\<forall>a n. pcNodes c a = Some n \<longrightarrow> (\<exists>t. px_NewNode a cnt t = Some n))"
proof -
  have c: "pcIds c = map of_nat [1 ..< Suc cnt]"
    "\<And>a. a \<in> of_nat ` {1 ..< Suc cnt} \<Longrightarrow> \<exists>t. pcNodes c a = px_NewNode a cnt t \<and> pcNodes c a \<noteq> None"
    "\<And>a. a \<notin> of_nat ` {1 ..< Suc cnt} \<Longrightarrow> pcNodes c a = None"
    using assms(1) new_nodes [of cnt "[1 ..< Suc cnt]" _ c] by (auto simp: px_New_def split: if_splits simp del: upt_Suc)
  have inj: "inj_on (of_nat :: nat \<Rightarrow> u32) {1 ..< Suc cnt}"
    using assms(2) by (intro inj_on_inverseI [of _ unat]) (simp add: of_nat_u32)
  have "dom (pcNodes c) = of_nat ` {1 ..< Suc cnt}" using c(2,3) by fastforce
  moreover have "1 \<le> unat a \<and> unat a \<le> cnt" if "a \<in> of_nat ` {1 ..< Suc cnt}" for a :: u32
    using that assms(2) by (auto simp: of_nat_u32)
  moreover have "\<exists>t. px_NewNode a cnt t = Some n" if "pcNodes c a = Some n" for a n
    using that c(2,3) [of a] by (cases "a \<in> of_nat ` {1 ..< Suc cnt}") auto
  ultimately show ?thesis using inj by (simp add: ids_ok_def c(1) distinct_map del: upt_Suc)
qed

lemma cluster_ok_init:
  assumes "px_New cnt = Some c" and "cnt < 2 ^ 32"
  shows "cluster_ok cnt 0 c {#}"
proof -
  note new = px_New_ids [OF assms]
  have node: "pnAccepts n = [] \<and> pnPhase n = ph_idle \<and> pnOutbound n = [] \<and> node_ok (pcIds c) 0 (pcNodes c) a n"
    if st: "pcNodes c a = Some n" for a n
  proof -
    obtain t where t: "px_NewNode a cnt t = Some n" using st new by blast
    define ps where "ps = filter (\<lambda>i. i \<noteq> a) (map of_nat [1 ..< Suc cnt] :: u32 list)"
    have "pcIds c = map of_nat [1 ..< Suc cnt]"
      using assms(1) new_nodes [of cnt "[1 ..< Suc cnt]" "\<lparr>pcIds = [], pcNodes = Map.empty\<rparr>" c]
      by (simp add: px_New_def split: if_splits del: upt_Suc)
    then have ps: "set ps \<subseteq> set (pcIds c) - {a}" "distinct ps"
      using new by (auto simp: ps_def ids_ok_def simp del: upt_Suc)
    have "n = \<lparr>pnId = a, pnSize = cnt, pnPeers = ps, pnPromised = 0, pnAcceptedNum = 0, pnAcceptedVal = 0,
        pnHasAccepted = False, pnAccepts = [], pnPhase = ph_idle, pnRound = 0, pnMyNum = 0, pnMyVal = 0,
        pnPromiseMask = 0, pnAcceptMask = 0, pnBestNum = 0, pnBestVal = 0, pnHasBest = False,
        pnElapsed = 0, pnTimeout = t, pnAdopted = 0, pnOutbound = []\<rparr>"
      using t unfolding px_NewNode_def ps_def by (simp split: if_splits del: upt_Suc)
    then show ?thesis
      using new ps by (simp add: node_ok_def node_static_def acceptor_ok_def preparing_ok_def
          accepting_ok_def phase_two_def)
  qed
  have "outs (pcNodes c) = {#}" unfolding outs_def using node by (intro sum.neutral) auto
  moreover have "\<not> proposed (pcNodes c) {#} b v" for b v
    using node by (auto simp: proposed_def px_votes_def phase_two_def split: option.splits)
  moreover have "chances (pcNodes c) {#} a b \<le> 1" for a b
    using node by (auto simp: chances_def split: option.splits)
  ultimately show ?thesis
    using new node by (simp add: cluster_ok_def cl_inv_def paxos_inv_def)
qed

lemma reach_ok:
  assumes "px_reach cnt k c W" and "cnt < 2 ^ 32" and "(2 * k + 1) * cnt < 2 ^ 64"
  shows "cluster_ok cnt k c W"
  using assms
proof (induction rule: px_reach.induct)
  case (init c)
  then show ?case by (intro cluster_ok_init)
next
  case (tick k c W a c')
  have "(2 * k + 1) * cnt \<le> (2 * (k + 1) + 1) * cnt" by (intro mult_le_mono1) simp
  then have ok: "cluster_ok cnt k c W" using tick by simp
  then have room: "(2 * k + 3) * length (pcIds c) < 2 ^ 64" using tick.prems(2) by (simp add: cluster_ok_def algebra_simps)
  show ?case
    by (rule cluster_ok_step [OF ok tick.hyps(2) [unfolded pc_Tick_def]]) (rule inv_Tick [OF _ _ room])
next
  case (propose k c W a v c')
  have "(2 * k + 1) * cnt \<le> (2 * (k + 1) + 1) * cnt" by (intro mult_le_mono1) simp
  then have ok: "cluster_ok cnt k c W" using propose by simp
  then have room: "(2 * k + 3) * length (pcIds c) < 2 ^ 64" using propose.prems(2) by (simp add: cluster_ok_def algebra_simps)
  show ?case
    by (rule cluster_ok_step [OF ok propose.hyps(2) [unfolded pc_Propose_def]]) (rule inv_Propose [OF _ _ room])
next
  case (drain k c W a ms c')
  then have ok: "cluster_ok cnt k c W" by simp
  obtain n where n: "pcNodes c a = Some n" "ms = pnOutbound n"
      "c' = c\<lparr>pcNodes := (pcNodes c)(a \<mapsto> n\<lparr>pnOutbound := []\<rparr>)\<rparr>"
    using drain.hyps(2) by (auto simp: pc_Drain_def px_Drain_def bind_eq_Some_conv)
  have inv: "paxos_inv (pcIds c) k (pcNodes c) (W + outs (pcNodes c))"
    using ok by (simp add: cluster_ok_def cl_inv_def)
  have fin: "finite (dom (pcNodes c))" using ok cluster_finite by (auto simp: cluster_ok_def)
  have "outs (pcNodes c') + mset ms = outs (pcNodes c)"
    using outs_upd [OF fin n(1), of "n\<lparr>pnOutbound := []\<rparr>"] n by simp
  moreover have "paxos_inv (pcIds c) k (pcNodes c') (W + outs (pcNodes c) + mset [])"
    unfolding n(3) using inv_send [OF inv n(1), of "[]" "[]"] by simp
  ultimately show ?case using ok n(3) by (simp add: cluster_ok_def cl_inv_def ac_simps)
next
  case (deliver k c W m c')
  then have ok: "cluster_ok cnt k c W" by simp
  obtain n where n: "pcNodes c (pmTo m) = Some n" "c' = c\<lparr>pcNodes := (pcNodes c)(pmTo m \<mapsto> px_Step m n)\<rparr>"
    using deliver.hyps(3) by (auto simp: pc_Deliver_def px_update_Some)
  have inv: "paxos_inv (pcIds c) k (pcNodes c) (W + outs (pcNodes c))"
    using ok by (simp add: cluster_ok_def cl_inv_def)
  have fin: "finite (dom (pcNodes c))" using ok cluster_finite by (auto simp: cluster_ok_def)
  have m: "m \<in># W + outs (pcNodes c)" using deliver.hyps(2) by simp
  obtain new where new: "pnOutbound (px_Step m n) = pnOutbound n @ new"
      "paxos_inv (pcIds c) k ((pcNodes c)(pmTo m \<mapsto> px_Step m n)) (W + outs (pcNodes c) - {#m#} + mset new)"
    using inv_Step [OF inv m refl n(1)] by blast
  have "W + outs (pcNodes c) - {#m#} + mset new = W - {#m#} + outs (pcNodes c')"
    using outs_append [OF fin n(1) new(1)] n(2) deliver.hyps(2) by (simp add: multiset_eq_iff)
  then show ?case using new(2) ok n(2) by (simp add: cluster_ok_def cl_inv_def)
next
  case (lose k c W m)
  then have ok: "cluster_ok cnt k c W" by simp
  then have "paxos_inv (pcIds c) k (pcNodes c) (W - {#m#} + outs (pcNodes c))"
    unfolding cluster_ok_def cl_inv_def by (auto elim!: inv_loss)
  then show ?case using ok by (simp add: cluster_ok_def cl_inv_def)
qed

subsection \<open>Agreement\<close>

text \<open>
  C19: At most one value is ever chosen. In every run of a cluster of any size, with messages lost,
  delayed and reordered arbitrarily, the three invariants the package registers hold: at most one
  distinct value reaches a quorum of acceptances, no acceptor accepted above its promise, and no
  acceptance history regresses. The bound on the number of proposals and ticks keeps the proposal
  numbers below \<open>2^64\<close>.
\<close>

theorem paxos_agreement:
  assumes "px_reach cnt k c W" and "cnt < 2 ^ 32" and "(2 * k + 1) * cnt < 2 ^ 64"
  shows "length (chosenValues c) \<le> 1 \<and> checkSingleChoice c = None \<and>
    checkPromiseRespected c = None \<and> checkHistoryMonotonic c = None"
proof -
  have "cl_inv k c (W + outs (pcNodes c))" using reach_ok [OF assms] by (simp add: cluster_ok_def)
  then show ?thesis using chosen_single checks_pass by blast
qed

text \<open>A run as a script, for the witnesses: the messages on the network are a list.\<close>

datatype px_cmd = do_tick u32 | do_propose u32 u64 | do_drain u32 | do_deliver nat

fun px_exec :: "px_cmd \<Rightarrow> nat \<times> px_Cluster \<times> px_Message list \<Rightarrow> (nat \<times> px_Cluster \<times> px_Message list) option" where
  "px_exec (do_tick a) (k, c, net) = do { c' \<leftarrow> pc_Tick a c; Some (k + 1, c', net) }"
| "px_exec (do_propose a v) (k, c, net) = do { c' \<leftarrow> pc_Propose a v c; Some (k + 1, c', net) }"
| "px_exec (do_drain a) (k, c, net) = do { (ms, c') \<leftarrow> pc_Drain a [] c; Some (k, c', net @ ms) }"
| "px_exec (do_deliver i) (k, c, net) = do {
     m \<leftarrow> go_index net i;
     c' \<leftarrow> pc_Deliver (pmTo m) m c;
     Some (k, c', remove1 m net) }"

definition px_script :: "nat \<Rightarrow> px_cmd list \<Rightarrow> (nat \<times> px_Cluster \<times> px_Message list) option" where
  "px_script cnt cmds = do { c \<leftarrow> px_New cnt; foldM px_exec cmds (0, c, []) }"

lemma px_exec_reach:
  assumes "px_exec cmd s = Some (k', c', net')" and "px_reach cnt (fst s) (fst (snd s)) (mset (snd (snd s)))"
  shows "px_reach cnt k' c' (mset net')"
proof (cases cmd)
  case (do_deliver i)
  then show ?thesis
    using assms px_reach.deliver [of cnt "fst s" "fst (snd s)" "mset (snd (snd s))" "snd (snd s) ! i" c']
    by (cases s) (auto simp: bind_eq_Some_conv go_index_eq_Some_iff)
qed (use assms in \<open>(cases s; auto simp: bind_eq_Some_conv intro: px_reach.intros [simplified])+\<close>)

lemma px_script_reach:
  assumes "px_script cnt cmds = Some (k, c, net)"
  shows "px_reach cnt k c (mset net)"
proof -
  obtain c0 where c0: "px_New cnt = Some c0" "foldM px_exec cmds (0, c0, []) = Some (k, c, net)"
    using assms by (auto simp: px_script_def bind_eq_Some_conv)
  have "px_reach cnt (fst s) (fst (snd s)) (mset (snd (snd s)))"
    if "foldM px_exec cmds (0, c0, []) = Some s" for s
    using that
    by (rule foldM_invariant [where P = "\<lambda>s. px_reach cnt (fst s) (fst (snd s)) (mset (snd (snd s)))"])
      (use px_reach.init [OF c0(1)] px_exec_reach in \<open>auto simp: px_exec_reach\<close>)
  from this [OF c0(2)] show ?thesis by simp
qed

definition px_demo :: "px_cmd list" where
  "px_demo = [do_propose 1 7, do_drain 1, do_deliver 0, do_drain 2, do_deliver 1, do_drain 1,
     do_deliver 1, do_drain 2, do_deliver 2]"

lemma px_demo_runs:
  "map_option (\<lambda>(k, c, net). (k, Chosen c, length net, map_option (\<lambda>n. (px_Decided n, pnMyVal n)) (pcNodes c 1)))
     (px_script 3 px_demo) = Some (1, Some 7, 2, Some (True, 7))"
  by code_simp

lemma px_demo_state:
  obtains c net n where "px_reach 3 1 c (mset net)" "Chosen c = Some 7" "pcNodes c 1 = Some n" "px_Decided n" "pnMyVal n = 7"
proof -
  obtain k c net where run: "px_script 3 px_demo = Some (k, c, net)"
    using px_demo_runs by (cases "px_script 3 px_demo") auto
  then show ?thesis
    using px_demo_runs px_script_reach [OF run] that by auto
qed

theorem paxos_agreement_witness:
  "\<exists>c W. px_reach 3 1 c W \<and> Chosen c = Some 7 \<and> length (chosenValues c) \<le> 1 \<and> checkSingleChoice c = None"
proof -
  obtain c net n where "px_reach 3 1 c (mset net)" "Chosen c = Some 7" by (rule px_demo_state)
  then show ?thesis using paxos_agreement [of 3 1 c "mset net"] by auto
qed

text \<open>
  C20: A decision is final. Whenever a node has seen its proposal decided, the value it holds is the one
  value chosen by the cluster, so two nodes that have decided agree.
\<close>

theorem paxos_decided_is_chosen:
  assumes "px_reach cnt k c W" and "cnt < 2 ^ 32" and "(2 * k + 1) * cnt < 2 ^ 64"
    and "pcNodes c a = Some n" and "px_Decided n"
  shows "Chosen c = Some (pnMyVal n)"
proof -
  have "cl_inv k c (W + outs (pcNodes c))" using reach_ok [OF assms(1-3)] by (simp add: cluster_ok_def)
  then show ?thesis using assms(4,5) by (rule decided_chosen)
qed

theorem paxos_decided_is_chosen_witness:
  "\<exists>c W n. px_reach 3 1 c W \<and> pcNodes c 1 = Some n \<and> px_Decided n \<and> Chosen c = Some (pnMyVal n)"
proof -
  obtain c net n where c: "px_reach 3 1 c (mset net)" "pcNodes c 1 = Some n" "px_Decided n"
    by (rule px_demo_state)
  then have "Chosen c = Some (pnMyVal n)" by (intro paxos_decided_is_chosen [of 3 1 c "mset net" 1 n]) simp_all
  then show ?thesis using c by blast
qed

end
