(* ===== verification/Paxos_Engine.thy ===== *)
theory Paxos_Engine
  imports Paxos_Safety
begin

text \<open>
  The Paxos cluster under the deterministic engine: every state the engine drives the cluster to is a
  state of \<open>px_reach\<close>, so a checked run never reports a violation; and a step of the engine always
  ends, because a delivery turns a message into messages of a smaller weight.
\<close>

subsection \<open>The engine only performs network steps\<close>

definition in_flight :: "(px_Cluster, px_Message, 'r) Engine \<Rightarrow> px_Message multiset" where
  "in_flight e = image_mset evMsg (mset (gQueue e))"

definition engine_ok :: "nat \<Rightarrow> nat \<Rightarrow> px_Message multiset \<Rightarrow> (px_Cluster, px_Message, 'r) Engine \<Rightarrow> bool" where
  "engine_ok cnt k W e \<longleftrightarrow> heap (gQueue e) \<and> (\<forall>ev \<in> set (gQueue e). evTo ev = pmTo (evMsg ev)) \<and>
     px_reach cnt k (gCluster e) (in_flight e + W)"

definition paxos_env :: "(px_Cluster, px_Message, 'r) Env \<Rightarrow> bool" where
  "paxos_env X \<longleftrightarrow> xCluster X = paxosCluster \<and> xWire X = paxosWire"

lemma engine_ok_cong:
  "gQueue e' = gQueue e \<Longrightarrow> gCluster e' = gCluster e \<Longrightarrow> engine_ok cnt k W e' = engine_ok cnt k W e"
  by (simp add: engine_ok_def in_flight_def)

lemma engine_ok_lose: "engine_ok cnt k (add_mset m W) e \<Longrightarrow> engine_ok cnt k W e"
  unfolding engine_ok_def using px_reach.lose [of cnt k "gCluster e" "in_flight e + add_mset m W" m] by simp

lemma schedule_ok:
  assumes "paxos_env X" and "engine_ok cnt k (add_mset m W) e"
  shows "engine_ok cnt k W (schedule X m d e)"
proof (cases "blockedBy e (pmFrom m) (pmTo m) d = ''''")
  case True
  let ?ev = "\<lparr>evAt = gNow e + d, evSeq = gSeq e + 1, evFrom = pmFrom m, evTo = pmTo m, evMsg = m\<rparr>"
  have "schedule X m d e = e\<lparr>gSeq := gSeq e + 1, gQueue := push ?ev (gQueue e)\<rparr>"
    using True assms(1) by (simp add: schedule_def paxos_env_def paxosWire_def pc_Route_def Let_def)
  moreover have "set (push ?ev (gQueue e)) = insert ?ev (set (gQueue e))"
    by (metis mset_push set_mset_mset set_mset_add_mset_insert)
  ultimately show ?thesis
    using assms(2) by (auto simp: engine_ok_def in_flight_def mset_push push_heap)
next
  case False
  then have "gQueue (schedule X m d e) = gQueue e" "gCluster (schedule X m d e) = gCluster e"
    using assms(1) by (simp_all add: schedule_def paxos_env_def paxosWire_def pc_Route_def Let_def)
  then show ?thesis using engine_ok_lose [OF assms(2)] engine_ok_cong by metis
qed

lemma collectMessage_ok:
  assumes "paxos_env X" and "engine_ok cnt k (add_mset m W) e" and "collectMessage X m e = Some e'"
  shows "engine_ok cnt k W e'"
proof -
  obtain lost rng where l: "drawLoss (xRand X) (gDrop e) (gRng e) = (lost, rng)" by fastforce
  show ?thesis
  proof (cases lost)
    case True
    then have "e' = e\<lparr>gRng := rng\<rparr>" using assms(3) l by (simp add: collectMessage_def)
    then show ?thesis using engine_ok_lose [OF assms(2)] by (simp add: engine_ok_def in_flight_def)
  next
    case False
    then obtain d rng' where "e' = schedule X m d (e\<lparr>gRng := rng'\<rparr>)"
      using assms(3) l by (auto simp: collectMessage_def bind_eq_Some_conv)
    moreover have "engine_ok cnt k (add_mset m W) (e\<lparr>gRng := rng'\<rparr>)"
      using assms(2) by (simp add: engine_ok_def in_flight_def)
    ultimately show ?thesis using schedule_ok [OF assms(1)] by simp
  qed
qed

lemma collectMessages_ok:
  assumes "paxos_env X" and "engine_ok cnt k (mset ms + W) e" and "foldM (collectMessage X) ms e = Some e'"
  shows "engine_ok cnt k W e'"
  using assms(2,3)
proof (induction ms arbitrary: e)
  case (Cons m ms)
  then obtain e1 where e1: "collectMessage X m e = Some e1" "foldM (collectMessage X) ms e1 = Some e'"
    by (auto simp: bind_eq_Some_conv)
  have "engine_ok cnt k (mset ms + W) e1"
    using Cons.prems(1) by (intro collectMessage_ok [OF assms(1) _ e1(1)]) simp
  then show ?case using e1(2) by (rule Cons.IH)
qed simp

lemma collectNode_ok:
  assumes "paxos_env X" and "engine_ok cnt k W e" and "collectNode X a e = Some e'"
  shows "engine_ok cnt k W e'"
proof -
  obtain ms c where d: "pc_Drain a [] (gCluster e) = Some (ms, c)"
      and m: "foldM (collectMessage X) ms (e\<lparr>gCluster := c\<rparr>) = Some e'"
    using assms(1,3) by (auto simp: collectNode_def bind_eq_Some_conv paxos_env_def paxosCluster_def)
  have "px_reach cnt k c (in_flight e + W + mset ms)"
    using assms(2) d unfolding engine_ok_def by (blast intro: px_reach.drain)
  then have "engine_ok cnt k (mset ms + W) (e\<lparr>gCluster := c\<rparr>)"
    using assms(2) by (simp add: engine_ok_def in_flight_def ac_simps)
  then show ?thesis using m by (rule collectMessages_ok [OF assms(1)])
qed

lemma Collect_ok:
  assumes "paxos_env X" and "engine_ok cnt k W e" and "Collect X e = Some e'"
  shows "engine_ok cnt k W e'"
  using assms(3,2) unfolding Collect_def
  by (rule foldM_invariant) (rule collectNode_ok [OF assms(1)])

lemma tickAll_ok:
  assumes X: "paxos_env X" and ok: "engine_ok cnt k W e" and t: "tickAll X e = Some e'"
  shows "engine_ok cnt (k + length (pcIds (gCluster e))) W e'"
proof -
  have "engine_ok cnt (k + length as) W e'"
    if "foldM (\<lambda>nid e. do { c \<leftarrow> clTick (xCluster X) nid (gCluster e); Some (e\<lparr>gCluster := c\<rparr>) }) as e = Some e'"
      "engine_ok cnt k W e" for as k and e e' :: "(px_Cluster, px_Message, 'a) Engine"
    using that
  proof (induction as arbitrary: k e)
    case (Cons a as)
    then obtain c where c: "pc_Tick a (gCluster e) = Some c"
        "foldM (\<lambda>nid e. do { c \<leftarrow> clTick (xCluster X) nid (gCluster e); Some (e\<lparr>gCluster := c\<rparr>) }) as
          (e\<lparr>gCluster := c\<rparr>) = Some e'"
      using X by (auto simp: bind_eq_Some_conv paxos_env_def paxosCluster_def)
    have "engine_ok cnt (k + 1) W (e\<lparr>gCluster := c\<rparr>)"
      using Cons.prems(2) px_reach.tick [OF _ c(1)] by (auto simp: engine_ok_def in_flight_def)
    then show ?case using Cons.IH [OF c(2), of "k + 1"] by simp
  qed simp
  then show ?thesis using t ok X by (simp add: tickAll_def paxos_env_def paxosCluster_def)
qed

lemma deliverNext_ok:
  assumes X: "paxos_env X" and ok: "engine_ok cnt k {#} e" and d: "deliverNext X e = Some (Some e')"
  shows "engine_ok cnt k {#} e'"
proof -
  obtain ev q c where p: "pop (gQueue e) = Some (ev, q)"
    and c: "pc_Deliver (evTo ev) (evMsg ev) (gCluster e) = Some c"
    and col: "Collect X ((recordDelivery X ev (e\<lparr>gQueue := q\<rparr>))\<lparr>gCluster := c\<rparr>) = Some e'"
    using d X by (auto simp: deliverNext_def bind_eq_Some_conv Let_def paxos_env_def paxosCluster_def split: if_splits)
  have "gQueue e \<noteq> []" using p by (auto simp: pop_def)
  then have q: "heap q" "mset (gQueue e) = add_mset ev (mset q)"
    using pop_spec [of "gQueue e"] ok p by (auto simp: engine_ok_def)
  then have s: "set (gQueue e) = insert ev (set q)" by (metis set_mset_mset set_mset_add_mset_insert)
  have fl: "in_flight e = add_mset (evMsg ev) (image_mset evMsg (mset q))" by (simp add: in_flight_def q(2))
  have "px_reach cnt k (gCluster e) (in_flight e)" "evTo ev = pmTo (evMsg ev)"
    using ok s by (simp_all add: engine_ok_def)
  then have "px_reach cnt k c (image_mset evMsg (mset q))"
    using px_reach.deliver [of cnt k "gCluster e" "in_flight e" "evMsg ev" c] c by (simp add: fl)
  then have "engine_ok cnt k {#} ((recordDelivery X ev (e\<lparr>gQueue := q\<rparr>))\<lparr>gCluster := c\<rparr>)"
    using ok q(1) s by (simp add: engine_ok_def in_flight_def)
  then show ?thesis using col by (rule Collect_ok [OF X])
qed

lemma deliverLoop_ok:
  assumes "deliverLoop X e = Some e'" and "paxos_env X" and "engine_ok cnt k {#} e"
  shows "engine_ok cnt k {#} e'"
proof -
  have "paxos_env X \<longrightarrow> engine_ok cnt k {#} e \<longrightarrow> engine_ok cnt k {#} e'"
  proof (rule deliverLoop.raw_induct [where P = "\<lambda>X e e'. paxos_env X \<longrightarrow> engine_ok cnt k {#} e \<longrightarrow>
        engine_ok cnt k {#} e'", OF _ assms(1)])
    fix loop and X :: "(px_Cluster, px_Message, 'a) Env" and e e'
    assume IH: "\<And>X e e'. loop X e = Some e' \<Longrightarrow> paxos_env X \<longrightarrow> engine_ok cnt k {#} e \<longrightarrow> engine_ok cnt k {#} e'"
      and eq: "deliverNext X e \<bind> case_option (Some e) (loop X) = Some e'"
    then obtain r where r: "deliverNext X e = Some r" "(case r of None \<Rightarrow> Some e | Some e1 \<Rightarrow> loop X e1) = Some e'"
      by (auto simp: bind_eq_Some_conv)
    show "paxos_env X \<longrightarrow> engine_ok cnt k {#} e \<longrightarrow> engine_ok cnt k {#} e'"
      using r IH deliverNext_ok [of X cnt k e] by (cases r) auto
  qed
  with assms(2,3) show ?thesis by blast
qed

lemma reach_ids: "px_reach cnt k c W \<Longrightarrow> length (pcIds c) = cnt"
proof (induction rule: px_reach.induct)
  case (init c)
  then show ?case using new_nodes [of cnt "[1 ..< Suc cnt]" _ c] by (auto simp: px_New_def split: if_splits simp del: upt_Suc)
next
  case (drain k c W a ms c')
  then show ?case by (auto simp: pc_Drain_def px_Drain_def bind_eq_Some_conv)
qed (auto simp: pc_Tick_def pc_Propose_def pc_Deliver_def px_update_Some)

lemma EngineStep_ok:
  assumes X: "paxos_env X" and ok: "engine_ok cnt k {#} e" and step: "EngineStep X e = Some e'"
  shows "engine_ok cnt (k + cnt) {#} e'"
proof -
  obtain e1 e2 where e: "tickAll X (e\<lparr>gNow := gNow e + 1\<rparr>) = Some e1" "Collect X e1 = Some e2"
      "deliverLoop X e2 = Some e'"
    using step by (auto simp: EngineStep_def bind_eq_Some_conv)
  have "length (pcIds (gCluster e)) = cnt" using ok reach_ids unfolding engine_ok_def by blast
  then have "engine_ok cnt (k + cnt) {#} e1"
    using tickAll_ok [OF X _ e(1), of cnt k "{#}"] ok by (simp add: engine_ok_def in_flight_def)
  then show ?thesis using Collect_ok [OF X _ e(2)] deliverLoop_ok [OF e(3) X] by blast
qed

subsection \<open>What a step leaves alone\<close>

lemma deliverNext_frame:
  assumes "deliverNext X e = Some (Some e')"
  shows "gInvariants e' = gInvariants e \<and> gDelay e' = gDelay e"
proof -
  obtain ev q c where "Collect X ((recordDelivery X ev (e\<lparr>gQueue := q\<rparr>))\<lparr>gCluster := c\<rparr>) = Some e'"
    using assms by (auto simp: deliverNext_def bind_eq_Some_conv Let_def split: if_splits)
  then show ?thesis
    using Collect_settled by (fastforce simp: settled_def recordDelivery_def split: prod.splits)
qed

lemma deliverLoop_frame:
  assumes "deliverLoop X e = Some e'"
  shows "gInvariants e' = gInvariants e \<and> gDelay e' = gDelay e"
proof (rule deliverLoop.raw_induct [where P = "\<lambda>X e e'. gInvariants e' = gInvariants e \<and> gDelay e' = gDelay e", OF _ assms])
  fix loop and X :: "('a, 'b, 'c) Env" and e e'
  assume IH: "\<And>X e e'. loop X e = Some e' \<Longrightarrow> gInvariants e' = gInvariants e \<and> gDelay e' = gDelay e"
    and eq: "deliverNext X e \<bind> case_option (Some e) (loop X) = Some e'"
  then obtain r where r: "deliverNext X e = Some r" "(case r of None \<Rightarrow> Some e | Some e1 \<Rightarrow> loop X e1) = Some e'"
    by (auto simp: bind_eq_Some_conv)
  show "gInvariants e' = gInvariants e \<and> gDelay e' = gDelay e"
  proof (cases r)
    case (Some e1)
    then show ?thesis using r IH [of X e1 e'] deliverNext_frame [of X e e1] by simp
  qed (use r in simp)
qed

lemma EngineStep_frame:
  assumes "EngineStep X e = Some e'"
  shows "gInvariants e' = gInvariants e \<and> gDelay e' = gDelay e"
proof -
  obtain e1 e2 where e: "tickAll X (e\<lparr>gNow := gNow e + 1\<rparr>) = Some e1" "Collect X e1 = Some e2"
      "deliverLoop X e2 = Some e'"
    using assms by (auto simp: EngineStep_def bind_eq_Some_conv)
  have "gInvariants e1 = gInvariants e \<and> gDelay e1 = gDelay e"
    using e(1) unfolding tickAll_def
    by (rule foldM_invariant [where P = "\<lambda>f. gInvariants f = gInvariants e \<and> gDelay f = gDelay e"])
      (auto simp: bind_eq_Some_conv)
  then show ?thesis using Collect_settled [OF e(2)] deliverLoop_frame [OF e(3)] by (simp add: settled_def)
qed

subsection \<open>A step ends\<close>

fun px_weight :: "nat \<Rightarrow> px_Kind \<Rightarrow> nat" where
  "px_weight cnt Prepare = 2 * cnt + 2"
| "px_weight cnt Promise = 2 * cnt + 1"
| "px_weight cnt Accept = 2"
| "px_weight cnt Accepted = 1"

abbreviation weigh :: "nat \<Rightarrow> px_Message multiset \<Rightarrow> nat" where
  "weigh cnt M \<equiv> \<Sum>\<^sub># (image_mset (\<lambda>m. px_weight cnt (pmKind m)) M)"

lemma weigh_mono: "M \<subseteq># M' \<Longrightarrow> weigh cnt M \<le> weigh cnt M'"
  by (auto simp: mset_subset_eq_exists_conv)

lemma weigh_accepts:
  "weigh cnt (mset (map (\<lambda>peer. (px_message Accept a peer b)\<lparr>pmVal := v\<rparr>) ps)) = 2 * length ps"
  by (induction ps) (simp_all add: px_message_def)

lemma recordPromise_sends:
  "\<exists>new. pnOutbound (recordPromise a num val has n) = pnOutbound n @ new \<and>
     weigh cnt (mset new) \<le> 2 * length (pnPeers n)"
proof -
  define n1 where "n1 = collectPromise a num val has n"
  define n2 where "n2 = acceptOwn ((adoptBest n1)\<lparr>pnPhase := ph_accepting, pnAcceptMask := 0\<rparr>)"
  have n1: "pnOutbound n1 = pnOutbound n" "pnPeers n1 = pnPeers n"
    by (simp_all add: n1_def collectPromise_def Let_def)
  then have n2: "pnOutbound n2 = pnOutbound n" "pnPeers n2 = pnPeers n"
    by (simp_all add: n2_def adoptBest_def acceptOwn_def onAccept_def Let_def)
  let ?ms = "map (\<lambda>peer. (px_message Accept (pnId n2) peer (pnMyNum n2))\<lparr>pmVal := pnMyVal n2\<rparr>) (pnPeers n2)"
  have "recordPromise a num val has n = n1 \<or> recordPromise a num val has n = n2\<lparr>pnPhase := ph_decided\<rparr> \<or>
      recordPromise a num val has n = sendAccepts n2"
    by (simp add: recordPromise_def Let_def n1_def n2_def)
  moreover have "pnOutbound (sendAccepts n2) = pnOutbound n @ ?ms" by (simp add: sendAccepts_def n2)
  moreover have "weigh cnt (mset ?ms) = 2 * length (pnPeers n)" by (simp only: weigh_accepts n2)
  ultimately show ?thesis using n1 n2 by (elim disjE) (auto intro: exI [of _ "[]"] exI [of _ ?ms])
qed

lemma px_Step_weight:
  assumes "length (pnPeers n) \<le> cnt"
  shows "\<exists>new. pnOutbound (px_Step m n) = pnOutbound n @ new \<and> weigh cnt (mset new) < px_weight cnt (pmKind m)"
proof (cases "pmKind m")
  case Prepare
  then show ?thesis by (auto simp: px_Step_def onPrepare_def px_message_def)
next
  case Promise
  obtain new where "pnOutbound (recordPromise (pmFrom m) (pmAcceptedNum m) (pmAcceptedVal m) (pmHasAccepted m) n) = pnOutbound n @ new"
      "weigh cnt (mset new) \<le> 2 * length (pnPeers n)"
    using recordPromise_sends by blast
  then show ?thesis using Promise assms
    by (cases "pmNum m \<noteq> pnMyNum n \<or> pnPhase n \<noteq> ph_preparing \<or> \<not> pmOK m")
      (auto simp: px_Step_def intro: exI [of _ "[]"] exI [of _ new])
next
  case Accept
  then show ?thesis by (auto simp: px_Step_def onAccept_def px_message_def)
next
  case Accepted
  then show ?thesis by (auto simp: px_Step_def Let_def intro: exI [of _ "[]"])
qed

definition all_messages :: "(px_Cluster, px_Message, 'r) Engine \<Rightarrow> px_Message multiset" where
  "all_messages e = in_flight e + outs (pcNodes (gCluster e))"

text \<open>The facts about the cluster that a step needs to return.\<close>

definition ready :: "nat \<Rightarrow> px_Cluster \<Rightarrow> px_Message multiset \<Rightarrow> bool" where
  "ready cnt c W \<longleftrightarrow> finite (dom (pcNodes c)) \<and> dom (pcNodes c) = set (pcIds c) \<and>
     (\<forall>m \<in># W. pmTo m \<in> set (pcIds c)) \<and> (\<forall>a n. pcNodes c a = Some n \<longrightarrow> length (pnPeers n) \<le> cnt)"

lemma reach_ready:
  assumes "px_reach cnt k c W" and "cnt < 2 ^ 32" and "(2 * k + 1) * cnt < 2 ^ 64"
  shows "ready cnt c W"
proof -
  have ok: "length (pcIds c) = cnt" "paxos_inv (pcIds c) k (pcNodes c) (W + outs (pcNodes c))"
    using reach_ok [OF assms] by (simp_all add: cluster_ok_def cl_inv_def)
  have ids: "dom (pcNodes c) = set (pcIds c)" using paxos_invD(1) [OF ok(2)] by (simp add: ids_ok_def)
  have "pmTo m \<in> set (pcIds c)" if "m \<in># W" for m
    using paxos_invD(4) [OF ok(2), of m] that by (simp add: message_ok_def)
  moreover have "length (pnPeers n) \<le> cnt" if n: "pcNodes c a = Some n" for a n
  proof -
    have "distinct (pnPeers n)" "set (pnPeers n) \<subseteq> set (pcIds c)"
      using paxos_invD(2) [OF ok(2) n] by (auto simp: node_ok_def node_static_def)
    then have "length (pnPeers n) \<le> card (set (pcIds c))" by (metis card_mono distinct_card List.finite_set)
    then show ?thesis using card_length [of "pcIds c"] ok(1) by simp
  qed
  ultimately show ?thesis by (simp add: ready_def ids)
qed

lemma collectMessage_total:
  assumes X: "paxos_env X" and "unat (gDelay e) + 1 < 2 ^ 63"
  shows "\<exists>e'. collectMessage X m e = Some e' \<and> gCluster e' = gCluster e \<and> gDelay e' = gDelay e \<and>
    in_flight e' \<subseteq># in_flight e + {#m#}"
proof -
  obtain lost rng1 where l: "drawLoss (xRand X) (gDrop e) (gRng e) = (lost, rng1)" by fastforce
  have "drawDelay (xRand X) (gDelay e) rng1 \<noteq> None" using assms(2) by (simp add: drawDelay_panics_iff)
  then obtain d rng2 where d: "drawDelay (xRand X) (gDelay e) rng1 = Some (d, rng2)" by auto
  have "in_flight (schedule X m d e1) \<subseteq># in_flight e1 + {#m#}" for e1
    by (auto simp: schedule_def in_flight_def mset_push Let_def split: prod.splits)
  from this [of "e\<lparr>gRng := rng2\<rparr>"] show ?thesis
    using l d by (cases lost) (auto simp: collectMessage_def in_flight_def)
qed

lemma collectMessages_total:
  assumes X: "paxos_env X" and "unat (gDelay e) + 1 < 2 ^ 63"
  shows "\<exists>e'. foldM (collectMessage X) ms e = Some e' \<and> gCluster e' = gCluster e \<and> gDelay e' = gDelay e \<and>
    in_flight e' \<subseteq># in_flight e + mset ms"
  using assms(2)
proof (induction ms arbitrary: e)
  case (Cons m ms)
  obtain e1 where e1: "collectMessage X m e = Some e1" "gCluster e1 = gCluster e" "gDelay e1 = gDelay e"
      "in_flight e1 \<subseteq># in_flight e + {#m#}"
    using collectMessage_total [OF X Cons.prems] by blast
  obtain e2 where e2: "foldM (collectMessage X) ms e1 = Some e2" "gCluster e2 = gCluster e" "gDelay e2 = gDelay e"
      "in_flight e2 \<subseteq># in_flight e1 + mset ms"
    using Cons.IH [of e1] Cons.prems e1 by auto
  have "in_flight e1 + mset ms \<subseteq># in_flight e + mset (m # ms)"
    using subset_mset.add_right_mono [OF e1(4), of "mset ms"] by simp
  with e2(4) have "in_flight e2 \<subseteq># in_flight e + mset (m # ms)" by (rule subset_mset.order_trans)
  then show ?case using e1(1) e2(1-3) by simp
qed simp

lemma collectNode_total:
  assumes X: "paxos_env X" and delay: "unat (gDelay e) + 1 < 2 ^ 63"
    and a: "a \<in> dom (pcNodes (gCluster e))" and fin: "finite (dom (pcNodes (gCluster e)))"
  shows "\<exists>e'. collectNode X a e = Some e' \<and> gDelay e' = gDelay e \<and>
    dom (pcNodes (gCluster e')) = dom (pcNodes (gCluster e)) \<and> all_messages e' \<subseteq># all_messages e"
proof -
  obtain n where n: "pcNodes (gCluster e) a = Some n" using a by blast
  let ?n = "n\<lparr>pnOutbound := []\<rparr>"
  let ?c = "(gCluster e)\<lparr>pcNodes := (pcNodes (gCluster e))(a \<mapsto> ?n)\<rparr>"
  have d: "clDrain (xCluster X) a [] (gCluster e) = Some (pnOutbound n, ?c)"
    using X n by (simp add: paxos_env_def paxosCluster_def pc_Drain_def px_Drain_def)
  obtain e' where e': "foldM (collectMessage X) (pnOutbound n) (e\<lparr>gCluster := ?c\<rparr>) = Some e'" "gCluster e' = ?c"
      "gDelay e' = gDelay e" "in_flight e' \<subseteq># in_flight e + mset (pnOutbound n)"
    using collectMessages_total [OF X, of "e\<lparr>gCluster := ?c\<rparr>" "pnOutbound n"] delay by (auto simp: in_flight_def)
  have o: "outs (pcNodes (gCluster e)) = mset (pnOutbound n) + outs (pcNodes ?c)"
    using outs_upd [OF fin n, of ?n] by (simp add: ac_simps)
  have "all_messages e' \<subseteq># all_messages e"
    unfolding all_messages_def e'(2) o using e'(4) by (simp add: add.assoc [symmetric])
  moreover have "dom (pcNodes (gCluster e')) = dom (pcNodes (gCluster e))" unfolding e'(2) using n by auto
  moreover have "collectNode X a e = Some e'" unfolding collectNode_def using d e'(1) by simp
  ultimately show ?thesis using e'(3) by blast
qed

lemma Collect_total:
  fixes e :: "(px_Cluster, px_Message, 'r) Engine"
  assumes X: "paxos_env X" and delay: "unat (gDelay e) + 1 < 2 ^ 63"
    and fin: "finite (dom (pcNodes (gCluster e)))" and ids: "set (pcIds (gCluster e)) \<subseteq> dom (pcNodes (gCluster e))"
  shows "\<exists>e'. Collect X e = Some e' \<and> all_messages e' \<subseteq># all_messages e"
proof -
  let ?P = "\<lambda>f :: (px_Cluster, px_Message, 'r) Engine. gDelay f = gDelay e \<and> dom (pcNodes (gCluster f)) = dom (pcNodes (gCluster e)) \<and>
    all_messages f \<subseteq># all_messages e"
  have "\<exists>e'. foldM (collectNode X) (pcIds (gCluster e)) e = Some e' \<and> ?P e'"
  proof (rule foldM_inv_total)
    fix a f assume a: "a \<in> set (pcIds (gCluster e))" and f: "?P f"
    then show "\<exists>f'. collectNode X a f = Some f' \<and> ?P f'"
      using collectNode_total [OF X, of f a] delay fin ids subset_mset.order_trans by fastforce
  qed simp
  then show ?thesis using X by (auto simp: Collect_def paxos_env_def paxosCluster_def)
qed

lemma deliverNext_total:
  assumes X: "paxos_env X" and ok: "engine_ok cnt k {#} e" and rd: "ready cnt (gCluster e) (in_flight e)"
    and delay: "unat (gDelay e) + 1 < 2 ^ 63"
  shows "\<exists>r. deliverNext X e = Some r \<and>
    (\<forall>e'. r = Some e' \<longrightarrow> weigh cnt (all_messages e') < weigh cnt (all_messages e))"
proof (cases "length (gQueue e) > 0 \<and> evAt (gQueue e ! 0) \<le> gNow e")
  case False
  then have "deliverNext X e = Some None" by (auto simp: deliverNext_def)
  then show ?thesis by simp
next
  case True
  then obtain ev q where p: "pop (gQueue e) = Some (ev, q)" "mset (gQueue e) = add_mset ev (mset q)"
    using pop_spec [of "gQueue e"] ok by (auto simp: engine_ok_def)
  have fl: "in_flight e = add_mset (evMsg ev) (image_mset evMsg (mset q))" by (simp add: in_flight_def p(2))
  have "ev \<in> set (gQueue e)" using p(2) by (metis set_mset_mset union_single_eq_member)
  then have to: "evTo ev = pmTo (evMsg ev)" using ok by (simp add: engine_ok_def)
  have "evTo ev \<in> dom (pcNodes (gCluster e))" using rd fl to by (auto simp: ready_def)
  then obtain n where n: "pcNodes (gCluster e) (evTo ev) = Some n" by blast
  have fin: "finite (dom (pcNodes (gCluster e)))" using rd by (simp add: ready_def)
  have "length (pnPeers n) \<le> cnt" using rd n by (simp add: ready_def)
  then obtain new where new: "pnOutbound (px_Step (evMsg ev) n) = pnOutbound n @ new"
      "weigh cnt (mset new) < px_weight cnt (pmKind (evMsg ev))"
    using px_Step_weight by blast
  let ?c = "(gCluster e)\<lparr>pcNodes := (pcNodes (gCluster e))(evTo ev \<mapsto> px_Step (evMsg ev) n)\<rparr>"
  let ?e = "(recordDelivery X ev (e\<lparr>gQueue := q\<rparr>))\<lparr>gCluster := ?c\<rparr>"
  have dom: "dom (pcNodes ?c) = dom (pcNodes (gCluster e))" "pcIds ?c = pcIds (gCluster e)" using n by auto
  have c: "clDeliver (xCluster X) (evTo ev) (evMsg ev) (gCluster e) = Some ?c"
    using X n by (simp add: paxos_env_def paxosCluster_def pc_Deliver_def px_update_def)
  have "gDelay ?e = gDelay e" by (simp add: recordDelivery_def split: prod.splits)
  then obtain e' where e': "Collect X ?e = Some e'" "all_messages e' \<subseteq># all_messages ?e"
    using Collect_total [OF X, of ?e] delay fin rd dom by (auto simp: ready_def)
  have "weigh cnt (all_messages e') \<le> weigh cnt (all_messages ?e)" using e'(2) by (rule weigh_mono)
  also have "all_messages ?e = image_mset evMsg (mset q) + outs (pcNodes (gCluster e)) + mset new"
    using outs_append [OF fin n new(1)] by (simp add: all_messages_def in_flight_def)
  also have "weigh cnt \<dots> < weigh cnt (all_messages e)" using new(2) by (simp add: all_messages_def fl)
  finally have "weigh cnt (all_messages e') < weigh cnt (all_messages e)" .
  moreover have "deliverNext X e = Some (Some e')" using True p(1) c e'(1) by (simp add: deliverNext_def Let_def)
  ultimately show ?thesis by simp
qed

lemma deliverLoop_total:
  assumes X: "paxos_env X" and ok: "engine_ok cnt k {#} e" and cnt: "cnt < 2 ^ 32" "(2 * k + 1) * cnt < 2 ^ 64"
    and delay: "unat (gDelay e) + 1 < 2 ^ 63"
  shows "\<exists>e'. deliverLoop X e = Some e'"
  using ok delay
proof (induction "weigh cnt (all_messages e)" arbitrary: e rule: less_induct)
  case less
  have "ready cnt (gCluster e) (in_flight e)"
    using less.prems(1) cnt by (intro reach_ready [of cnt k]) (simp_all add: engine_ok_def)
  then obtain r where r: "deliverNext X e = Some r"
      "\<forall>e'. r = Some e' \<longrightarrow> weigh cnt (all_messages e') < weigh cnt (all_messages e)"
    using deliverNext_total [OF X less.prems(1) _ less.prems(2)] by blast
  show ?case
  proof (cases r)
    case None
    then show ?thesis using r(1) by (subst deliverLoop.simps) simp
  next
    case (Some e1)
    then have "engine_ok cnt k {#} e1" "gDelay e1 = gDelay e"
      using deliverNext_ok [OF X less.prems(1)] deliverNext_frame r(1) by blast+
    then obtain e' where "deliverLoop X e1 = Some e'" using less.hyps [of e1] r(2) Some less.prems(2) by auto
    then show ?thesis using r(1) Some by (subst deliverLoop.simps) simp
  qed
qed

lemma tickAll_total:
  fixes e :: "(px_Cluster, px_Message, 'r) Engine"
  assumes X: "paxos_env X" and ids: "set (pcIds (gCluster e)) \<subseteq> dom (pcNodes (gCluster e))"
  shows "\<exists>e'. tickAll X e = Some e' \<and> gDelay e' = gDelay e"
proof -
  let ?P = "\<lambda>f :: (px_Cluster, px_Message, 'r) Engine.
    dom (pcNodes (gCluster f)) = dom (pcNodes (gCluster e)) \<and> gDelay f = gDelay e"
  have "\<exists>e'. foldM (\<lambda>nid e. do { c \<leftarrow> clTick (xCluster X) nid (gCluster e); Some (e\<lparr>gCluster := c\<rparr>) })
      (pcIds (gCluster e)) e = Some e' \<and> ?P e'"
  proof (rule foldM_inv_total)
    fix a and f :: "(px_Cluster, px_Message, 'r) Engine" assume a: "a \<in> set (pcIds (gCluster e))" and f: "?P f"
    then obtain n where "pcNodes (gCluster f) a = Some n" using ids by blast
    then show "\<exists>f'. (do { c \<leftarrow> clTick (xCluster X) a (gCluster f); Some (f\<lparr>gCluster := c\<rparr>) }) = Some f' \<and> ?P f'"
      using X f by (auto simp: paxos_env_def paxosCluster_def pc_Tick_def px_update_def)
  qed simp
  then show ?thesis using X by (auto simp: tickAll_def paxos_env_def paxosCluster_def)
qed

lemma EngineStep_total:
  assumes X: "paxos_env X" and ok: "engine_ok cnt k {#} e"
    and cnt: "cnt < 2 ^ 32" "(2 * (k + cnt) + 1) * cnt < 2 ^ 64" and delay: "unat (gDelay e) + 1 < 2 ^ 63"
  shows "\<exists>e'. EngineStep X e = Some e'"
proof -
  let ?e = "e\<lparr>gNow := gNow e + 1\<rparr>"
  have bound: "(2 * k + 1) * cnt < 2 ^ 64"
    by (rule le_less_trans [OF mult_le_mono1 cnt(2)]) simp
  have ids: "length (pcIds (gCluster e)) = cnt" using ok reach_ids unfolding engine_ok_def by blast
  have rd: "ready cnt (gCluster e) (in_flight e)"
    using ok cnt(1) bound by (intro reach_ready [of cnt k]) (simp_all add: engine_ok_def)
  obtain e1 where e1: "tickAll X ?e = Some e1" "gDelay e1 = gDelay e"
    using tickAll_total [OF X, of ?e] rd by (auto simp: ready_def)
  have ok1: "engine_ok cnt (k + cnt) {#} e1"
    using tickAll_ok [OF X _ e1(1), of cnt k "{#}"] ok ids by (simp add: engine_ok_def in_flight_def)
  then have "ready cnt (gCluster e1) (in_flight e1)"
    using cnt by (intro reach_ready [of cnt "k + cnt"]) (simp_all add: engine_ok_def)
  then obtain e2 where e2: "Collect X e1 = Some e2"
    using Collect_total [OF X, of e1] delay e1(2) by (auto simp: ready_def)
  have "engine_ok cnt (k + cnt) {#} e2" "gDelay e2 = gDelay e"
    using Collect_ok [OF X ok1 e2] Collect_settled [OF e2] e1(2) by (simp_all add: settled_def)
  then obtain e' where "deliverLoop X e2 = Some e'"
    using deliverLoop_total [OF X _ cnt, of e2] delay by auto
  then show ?thesis using e1 e2 by (simp add: EngineStep_def)
qed

text \<open>
  C21: Within two bounds a step of the engine over a Paxos cluster ends. The bounds are \<open>MaxDelay + 1 < 2^63\<close>, from
  which on drawing a delay panics, and room in the 64-bit ballot numbers: with \<open>k\<close> ticks and proposals so far
  and \<open>cnt\<close> nodes, \<open>(2 (k + cnt) + 1) cnt < 2^64\<close>. From every state that a network execution and the engine's schedule
  can be in, \<open>Step\<close> then returns: no node is missing, no message is misrouted, and the delivery loop, which keeps
  delivering the messages its own deliveries produce, runs out of due messages. The state it returns is again
  such a state, with the \<open>cnt\<close> ticks of the step added.
\<close>

theorem paxos_step_terminates:
  assumes "paxos_env X" and "engine_ok cnt k {#} e" and "cnt < 2 ^ 32"
    and "(2 * (k + cnt) + 1) * cnt < 2 ^ 64" and "unat (gDelay e) + 1 < 2 ^ 63"
  shows "\<exists>e'. EngineStep X e = Some e' \<and> engine_ok cnt (k + cnt) {#} e'"
  using EngineStep_total [OF assms] EngineStep_ok [OF assms(1,2)] by blast

subsection \<open>Checked campaigns\<close>

lemma safety_invariants_hold:
  assumes "engine_ok cnt k {#} e" and "cnt < 2 ^ 32" and "(2 * k + 1) * cnt < 2 ^ 64"
    and "gInvariants e = px_SafetyInvariants"
  shows "CheckInvariants e = None"
proof -
  have "px_reach cnt k (gCluster e) (in_flight e)" using assms(1) by (simp add: engine_ok_def)
  then have "cl_inv k (gCluster e) (in_flight e + outs (pcNodes (gCluster e)))"
    using reach_ok assms(2,3) by (auto simp: cluster_ok_def)
  then show ?thesis using checks_pass by (auto simp: CheckInvariants_def assms(4) px_SafetyInvariants_def)
qed

lemma RunChecked_clean:
  assumes X: "paxos_env X" and "engine_ok cnt k {#} e" and cnt: "cnt < 2 ^ 32"
    and "(2 * (k + n * cnt) + 1) * cnt < 2 ^ 64" and "unat (gDelay e) + 1 < 2 ^ 63"
    and "gInvariants e = px_SafetyInvariants"
  shows "\<exists>e'. RunChecked X n e = Some (None, e')"
  using assms(2,4-6)
proof (induction n arbitrary: k e)
  case (Suc n)
  have b: "(2 * (k + cnt) + 1) * cnt < 2 ^ 64"
    by (rule le_less_trans [OF mult_le_mono1 Suc.prems(2)]) simp
  obtain e1 where e1: "EngineStep X e = Some e1" using EngineStep_total [OF X Suc.prems(1) cnt b Suc.prems(3)] by blast
  have ok: "engine_ok cnt (k + cnt) {#} e1" using X Suc.prems(1) e1 by (rule EngineStep_ok)
  have fr: "gInvariants e1 = px_SafetyInvariants" "gDelay e1 = gDelay e"
    using EngineStep_frame [OF e1] Suc.prems(4) by simp_all
  have "CheckInvariants e1 = None" using safety_invariants_hold [OF ok cnt b fr(1)] .
  moreover have "\<exists>e'. RunChecked X n e1 = Some (None, e')"
    using Suc.IH [OF ok] Suc.prems(2,3) fr by (simp add: algebra_simps)
  ultimately show ?case using e1 by (simp add: StepChecked_def)
qed simp

text \<open>
  C22: Checked campaigns are clean. Take a cluster of any size with any initial proposals, any seed and
  loss rate, any set of network faults and any delay bound below \<open>2^63 - 1\<close>: \<open>RunChecked\<close> over the
  package's safety invariants runs to the end and reports no violation, as long as the number of
  ticks and proposals leaves the proposal numbers below \<open>2^64\<close>.
\<close>

theorem paxos_campaign_clean:
  assumes X: "paxos_env X" and c: "px_New cnt = Some c" and cnt: "cnt < 2 ^ 32"
    and ps: "foldM (\<lambda>(a, v). pc_Propose a v) ps c = Some c0"
    and room: "(2 * (length ps + n * cnt) + 1) * cnt < 2 ^ 64" and delay: "unat (cfMaxDelay cfg) + 1 < 2 ^ 63"
  shows "\<exists>e'. RunChecked X n (Watch px_SafetyInvariants (Inject js (NewEngine X cfg c0))) = Some (None, e')"
proof -
  have "px_reach cnt (k + length ps) c' {#}"
    if "foldM (\<lambda>(a, v). pc_Propose a v) ps c = Some c'" "px_reach cnt k c {#}" for k c c'
    using that
  proof (induction ps arbitrary: k c)
    case (Cons p ps)
    then obtain c1 where c1: "pc_Propose (fst p) (snd p) c = Some c1" "foldM (\<lambda>(a, v). pc_Propose a v) ps c1 = Some c'"
      by (auto simp: bind_eq_Some_conv split: prod.splits)
    have "px_reach cnt (k + 1) c1 {#}" using Cons.prems(2) c1(1) by (rule px_reach.propose)
    then show ?case using Cons.IH [OF c1(2)] by fastforce
  qed simp
  from this [OF ps px_reach.init [OF c]] have "px_reach cnt (length ps) c0 {#}" by simp
  then show ?thesis
    using room delay
    by (intro RunChecked_clean [OF X _ cnt, of "length ps"])
      (simp_all add: engine_ok_def in_flight_def NewEngine_def Watch_def Inject_def heap_from_def)
qed

definition calm_env :: "(px_Cluster, px_Message, unit) Env" where
  "calm_env = \<lparr>xCluster = paxosCluster, xWire = paxosWire,
     xRand = \<lparr>rIntn = (\<lambda>n r. (0, r)), rInt63n = (\<lambda>n r. (0, r))\<rparr>, xSource = (\<lambda>_. ()),
     xSha256 = (\<lambda>_. replicate 32 1)\<rparr>"

definition calm_config :: Config where
  "calm_config = \<lparr>cfSeed = 1, cfDropPermille = 50, cfMaxDelay = 4\<rparr>"

lemma calm_start:
  "(case px_New 3 of None \<Rightarrow> False | Some c \<Rightarrow>
     (case foldM (\<lambda>(a, v). pc_Propose a v) [(1, 7), (2, 9)] c of None \<Rightarrow> False | Some _ \<Rightarrow> True))"
  by code_simp

lemma calm_cluster:
  obtains c c0 where "px_New 3 = Some c" "foldM (\<lambda>(a, v). pc_Propose a v) [(1, 7), (2, 9)] c = Some c0"
  using calm_start by (auto split: option.splits)

theorem paxos_campaign_clean_witness:
  "\<exists>c c0 e'. px_New 3 = Some c \<and> foldM (\<lambda>(a, v). pc_Propose a v) [(1, 7), (2, 9)] c = Some c0 \<and>
     RunChecked calm_env 600 (Watch px_SafetyInvariants (Inject [Split [1] [2, 3]] (NewEngine calm_env calm_config c0))) =
       Some (None, e')"
proof -
  obtain c c0 where c: "px_New 3 = Some c" "foldM (\<lambda>(a, v). pc_Propose a v) [(1, 7), (2, 9)] c = Some c0"
    by (rule calm_cluster)
  have "\<exists>e'. RunChecked calm_env 600 (Watch px_SafetyInvariants
      (Inject [Split [1] [2, 3]] (NewEngine calm_env calm_config c0))) = Some (None, e')"
    by (rule paxos_campaign_clean [OF _ c(1) _ c(2)]) (simp_all add: paxos_env_def calm_env_def calm_config_def)
  then show ?thesis using c by blast
qed

theorem paxos_step_terminates_witness:
  "\<exists>c e'. px_New 3 = Some c \<and> EngineStep calm_env (NewEngine calm_env calm_config c) = Some e'"
proof -
  obtain c c0 where c: "px_New 3 = Some c" by (rule calm_cluster)
  then have "engine_ok 3 0 {#} (NewEngine calm_env calm_config c)"
    by (simp add: engine_ok_def in_flight_def NewEngine_def heap_from_def px_reach.init)
  then have "\<exists>e'. EngineStep calm_env (NewEngine calm_env calm_config c) = Some e' \<and> engine_ok 3 (0 + 3) {#} e'"
    by (intro paxos_step_terminates) (simp_all add: paxos_env_def calm_env_def calm_config_def NewEngine_def)
  then show ?thesis using c by blast
qed

end
