(* ===== verification/State_Machine.thy ===== *)
theory State_Machine
  imports Raft_Types "HOL-Library.Finite_Map"
begin

text \<open>
  The replicated key-value machine, \<^verbatim>\<open>statemachine/machine.go\<close>: \<open>Apply\<close> with its per-client
  deduplication, the reads, and the checksummed image of \<open>Snapshot\<close> and \<open>Restore\<close>. Go maps are
  finite maps. The order in which Go ranges over a map is unspecified, so \<open>Snapshot\<close> takes the two
  orders as arguments; the theorems hold for every order.
\<close>

subsection \<open>The machine\<close>

record Result =
  rsClientID :: u64
  rsRequestID :: u64
  rsValue :: u64
  rsFound :: bool

definition zero_Result :: Result where
  "zero_Result = \<lparr>rsClientID = 0, rsRequestID = 0, rsValue = 0, rsFound = False\<rparr>"

record clientRecord =
  crRequestID :: u64
  crValue :: u64
  crFound :: bool

record Machine =
  mcValues :: "(u64, u64) fmap"
  mcClients :: "(u64, clientRecord) fmap"

definition sm_New :: Machine where
  "sm_New = \<lparr>mcValues = fmempty, mcClients = fmempty\<rparr>"

text \<open>The mutation of the \<open>switch\<close>; \<open>None\<close> is its default branch.\<close>

definition mutate :: "Entry \<Rightarrow> (u64, u64) fmap \<Rightarrow> ((u64 \<times> bool) \<times> (u64, u64) fmap) option" where
  "mutate e vs =
     (if eOperation e = CommandPut then Some ((eValue e, True), fmupd (eKey e) (eValue e) vs)
      else if eOperation e = CommandDelete then
        Some (case fmlookup vs (eKey e) of Some v \<Rightarrow> (v, True) | None \<Rightarrow> (0, False), fmdrop (eKey e) vs)
      else None)"

definition perform :: "Entry \<Rightarrow> Machine \<Rightarrow> (error + Result) \<times> Machine" where
  "perform e m =
     (case mutate e (mcValues m) of
        None \<Rightarrow> (Inl ErrUnsupportedOperation, m)
      | Some ((v, found), vs) \<Rightarrow>
          (Inr \<lparr>rsClientID = eClientID e, rsRequestID = eRequestID e, rsValue = v, rsFound = found\<rparr>,
           m\<lparr>mcValues := vs, mcClients := fmupd (eClientID e)
             \<lparr>crRequestID = eRequestID e, crValue = v, crFound = found\<rparr> (mcClients m)\<rparr>))"

definition sm_Apply :: "Entry \<Rightarrow> Machine \<Rightarrow> (error + Result) \<times> Machine" where
  "sm_Apply e m =
     (if eOperation e = CommandLegacy then (Inr zero_Result, m)
      else
        case fmlookup (mcClients m) (eClientID e) of
          Some previous \<Rightarrow>
            (if crRequestID previous = eRequestID e then
               (Inr \<lparr>rsClientID = eClientID e, rsRequestID = crRequestID previous,
                  rsValue = crValue previous, rsFound = crFound previous\<rparr>, m)
             else if eRequestID e < crRequestID previous then (Inl ErrStaleRequest, m)
             else perform e m)
        | None \<Rightarrow> perform e m)"

definition sm_Get :: "u64 \<Rightarrow> Machine \<Rightarrow> u64 \<times> bool" where
  "sm_Get key m = (case fmlookup (mcValues m) key of Some v \<Rightarrow> (v, True) | None \<Rightarrow> (0, False))"

definition Cached :: "u64 \<Rightarrow> u64 \<Rightarrow> Machine \<Rightarrow> error + (Result \<times> bool)" where
  "Cached clientID requestID m =
     (case fmlookup (mcClients m) clientID of
        None \<Rightarrow> Inr (zero_Result, False)
      | Some record \<Rightarrow>
          if requestID > crRequestID record then Inr (zero_Result, False)
          else if requestID < crRequestID record then Inl ErrStaleRequest
          else Inr (\<lparr>rsClientID = clientID, rsRequestID = requestID, rsValue = crValue record,
            rsFound = crFound record\<rparr>, True))"

subsection \<open>The image\<close>

definition hysm :: bytes where
  "hysm = [0x48, 0x59, 0x53, 0x4D]"

definition valueBytes :: "Machine \<Rightarrow> u64 \<Rightarrow> bytes" where
  "valueBytes m key = PutUint64 key @ PutUint64 (the (fmlookup (mcValues m) key))"

definition clientBytes :: "Machine \<Rightarrow> u64 \<Rightarrow> bytes" where
  "clientBytes m client =
     (let record = the (fmlookup (mcClients m) client) in
      PutUint64 client @ PutUint64 (crRequestID record) @ PutUint64 (crValue record) @
      (if crFound record then 1 else 0) # replicate 7 0)"

definition imageBody :: "u64 list \<Rightarrow> u64 list \<Rightarrow> Machine \<Rightarrow> bytes" where
  "imageBody keyOrder clientOrder m =
     (let keys = sort keyOrder; cs = sort clientOrder in
      hysm @ PutUint16 1 @ [0, 0] @ PutUint32 (of_nat (length keys)) @ PutUint32 (of_nat (length cs)) @
      concat (map (valueBytes m) keys) @ concat (map (clientBytes m) cs))"

definition sm_Snapshot :: "u64 list \<Rightarrow> u64 list \<Rightarrow> Machine \<Rightarrow> bytes" where
  "sm_Snapshot keyOrder clientOrder m =
     (let body = imageBody keyOrder clientOrder m in body @ PutUint32 (Checksum body))"

fun restoreValues :: "nat \<Rightarrow> bytes \<Rightarrow> nat \<Rightarrow> (u64, u64) fmap \<Rightarrow> (u64, u64) fmap" where
  "restoreValues 0 snap off vs = vs"
| "restoreValues (Suc n) snap off vs =
     restoreValues n snap (off + 16)
       (fmupd (Uint64 (go_slice off (off + 8) snap)) (Uint64 (go_slice (off + 8) (off + 16) snap)) vs)"

fun restoreClients :: "nat \<Rightarrow> bytes \<Rightarrow> nat \<Rightarrow> (u64, clientRecord) fmap \<Rightarrow> (u64, clientRecord) fmap" where
  "restoreClients 0 snap off cs = cs"
| "restoreClients (Suc n) snap off cs =
     restoreClients n snap (off + 32)
       (fmupd (Uint64 (go_slice off (off + 8) snap))
          \<lparr>crRequestID = Uint64 (go_slice (off + 8) (off + 16) snap),
           crValue = Uint64 (go_slice (off + 16) (off + 24) snap),
           crFound = snap ! (off + 24) = 1\<rparr> cs)"

definition Restore :: "bytes \<Rightarrow> error + Machine" where
  "Restore snap =
     (if length snap < 20 \<or> go_slice 0 4 snap \<noteq> hysm \<or> Uint16 (go_slice 4 6 snap) \<noteq> 1
      then Inl ErrBadSnapshot
      else if Checksum (go_slice 0 (length snap - 4) snap) \<noteq> Uint32 (go_slice (length snap - 4) (length snap) snap)
      then Inl ErrBadSnapshot
      else
        let keyCount = unat (Uint32 (go_slice 8 12 snap)); clientCount = unat (Uint32 (go_slice 12 16 snap)) in
        if 20 + keyCount * 16 + clientCount * 32 \<noteq> length snap then Inl ErrBadSnapshot
        else Inr \<lparr>mcValues = restoreValues keyCount snap 16 fmempty,
          mcClients = restoreClients clientCount snap (16 + keyCount * 16) fmempty\<rparr>)"

subsection \<open>Exactly-once application\<close>

text \<open>
  The contract of deduplication: a log of client commands takes effect like the plain key-value
  replay of its accepted commands, those that carry a larger request number than every command
  accepted before from the same client.
\<close>

definition isMutation :: "Entry \<Rightarrow> bool" where
  "isMutation e \<longleftrightarrow> eOperation e = CommandPut \<or> eOperation e = CommandDelete"

fun accepted :: "(u64 \<Rightarrow> u64 option) \<Rightarrow> Entry list \<Rightarrow> Entry list" where
  "accepted seen [] = []"
| "accepted seen (e # es) =
     (if isMutation e \<and> (case seen (eClientID e) of None \<Rightarrow> True | Some r \<Rightarrow> r < eRequestID e)
      then e # accepted (seen(eClientID e \<mapsto> eRequestID e)) es
      else accepted seen es)"

definition kv :: "Entry \<Rightarrow> (u64 \<Rightarrow> u64 option) \<Rightarrow> u64 \<Rightarrow> u64 option" where
  "kv e st = (if eOperation e = CommandPut then st(eKey e \<mapsto> eValue e) else st(eKey e := None))"

definition applyAll :: "Entry list \<Rightarrow> Machine \<Rightarrow> Machine" where
  "applyAll es m = fold (\<lambda>e m. snd (sm_Apply e m)) es m"

definition seen_of :: "Machine \<Rightarrow> u64 \<Rightarrow> u64 option" where
  "seen_of m c = map_option crRequestID (fmlookup (mcClients m) c)"

lemma fmempty_fun: "fmlookup fmempty = Map.empty"
  by (simp add: fun_eq_iff)

lemma mutate_None: "mutate e vs = None \<longleftrightarrow> \<not> isMutation e"
  by (auto simp: mutate_def isMutation_def)

lemma perform_mutation:
  assumes "isMutation e"
  shows "fmlookup (mcValues (snd (perform e m))) = kv e (fmlookup (mcValues m)) \<and>
    seen_of (snd (perform e m)) = (seen_of m)(eClientID e \<mapsto> eRequestID e)"
  using assms
  by (auto simp: perform_def mutate_def isMutation_def kv_def seen_of_def fun_eq_iff split: option.splits)

lemma perform_other: "\<not> isMutation e \<Longrightarrow> perform e m = (Inl ErrUnsupportedOperation, m)"
  using mutate_None [of e "mcValues m"] by (simp add: perform_def)

lemma apply_step:
  "snd (sm_Apply e m) =
     (if isMutation e \<and> (case seen_of m (eClientID e) of None \<Rightarrow> True | Some r \<Rightarrow> r < eRequestID e)
      then snd (perform e m) else m)"
proof (cases "isMutation e")
  case True
  then have "eOperation e \<noteq> 0" by (auto simp: isMutation_def)
  then show ?thesis
    using True by (auto simp: sm_Apply_def seen_of_def not_less_iff_gr_or_eq split: option.splits)
next
  case False
  then show ?thesis by (auto simp: sm_Apply_def perform_other split: option.splits)
qed

lemma applyAll_accepted:
  "fmlookup (mcValues (applyAll es m)) = fold kv (accepted (seen_of m) es) (fmlookup (mcValues m))"
proof (induction es arbitrary: m)
  case (Cons e es)
  have "applyAll (e # es) m = applyAll es (snd (sm_Apply e m))" by (simp add: applyAll_def)
  then show ?case
    using Cons.IH [of "snd (sm_Apply e m)"] perform_mutation [of e m] by (simp add: apply_step fun_upd_def)
qed (simp add: applyAll_def)

lemma accepted_increasing:
  "sorted_wrt (<) (map eRequestID (filter (\<lambda>e. eClientID e = c) (accepted seen es))) \<and>
   (\<forall>e \<in> set (accepted seen es). eClientID e = c \<longrightarrow> (case seen c of None \<Rightarrow> True | Some r \<Rightarrow> r < eRequestID e))"
proof (induction es arbitrary: seen)
  case (Cons e es)
  show ?case
  proof (cases "isMutation e \<and> (case seen (eClientID e) of None \<Rightarrow> True | Some r \<Rightarrow> r < eRequestID e)")
    case False
    then have "accepted seen (e # es) = accepted seen es" by (simp only: accepted.simps if_False)
    then show ?thesis using Cons.IH [of seen] by simp
  next
    case True
    define seen' where "seen' = seen(eClientID e \<mapsto> eRequestID e)"
    have a: "accepted seen (e # es) = e # accepted seen' es"
      using True by (simp add: seen'_def)
    have "seen' c = (if c = eClientID e then Some (eRequestID e) else seen c)" by (simp add: seen'_def)
    then show ?thesis
      using Cons.IH [of seen'] True unfolding a
      by (cases "eClientID e = c") (fastforce split: option.splits)+
  qed
qed simp

text \<open>
  C23: Commands take effect exactly once. Whatever duplicates, retries and reorderings of requests the
  log holds, applying it leaves the values of the plain key-value replay of its accepted commands,
  and the accepted commands of each client carry strictly increasing request numbers, so no request
  is replayed twice.
\<close>

theorem apply_exactly_once:
  "fmlookup (mcValues (applyAll es sm_New)) = fold kv (accepted Map.empty es) Map.empty \<and>
   sorted_wrt (<) (map eRequestID (filter (\<lambda>e. eClientID e = c) (accepted Map.empty es))) \<and>
   set (accepted Map.empty es) \<subseteq> {e \<in> set es. isMutation e}"
proof -
  have "seen_of sm_New = Map.empty" by (simp add: seen_of_def sm_New_def fun_eq_iff)
  moreover have "set (accepted seen es) \<subseteq> {e \<in> set es. isMutation e}" for seen
    by (induction es arbitrary: seen) (auto split: option.splits)
  ultimately show ?thesis
    using applyAll_accepted [of es sm_New] accepted_increasing [of c Map.empty es]
    by (simp add: sm_New_def fmempty_fun)
qed

text \<open>
  Retries get the same answer. After a command was applied, applying it again returns the recorded
  result and changes nothing, and \<open>Cached\<close> answers it; an older request of the client is refused as
  stale by both, and a newer one is not cached.
\<close>

theorem apply_retry:
  assumes "sm_Apply e m = (Inr r, m')" and "eOperation e \<noteq> CommandLegacy"
  shows "sm_Apply e m' = (Inr r, m') \<and> Cached (eClientID e) (eRequestID e) m' = Inr (r, True) \<and>
    (eClientID e' = eClientID e \<and> eRequestID e' < eRequestID e \<and> eOperation e' \<noteq> CommandLegacy \<longrightarrow>
      sm_Apply e' m' = (Inl ErrStaleRequest, m') \<and>
      Cached (eClientID e') (eRequestID e') m' = Inl ErrStaleRequest) \<and>
    (eRequestID e < newer \<longrightarrow> Cached (eClientID e) newer m' = Inr (zero_Result, False))"
proof -
  have rec: "fmlookup (mcClients m') (eClientID e) =
      Some \<lparr>crRequestID = eRequestID e, crValue = rsValue r, crFound = rsFound r\<rparr> \<and>
      r = \<lparr>rsClientID = eClientID e, rsRequestID = eRequestID e, rsValue = rsValue r, rsFound = rsFound r\<rparr>"
    using assms by (auto simp: sm_Apply_def perform_def split: option.splits if_splits prod.splits)
  then show ?thesis
    using assms(2) by (auto simp: sm_Apply_def Cached_def)
qed

definition put_entry :: Entry where
  "put_entry = zero_Entry\<lparr>eOperation := CommandPut, eClientID := 3, eRequestID := 2, eKey := 5, eValue := 9\<rparr>"

theorem apply_retry_witness:
  "sm_Apply put_entry (snd (sm_Apply put_entry sm_New)) = sm_Apply put_entry sm_New"
proof -
  obtain r m' where a: "sm_Apply put_entry sm_New = (Inr r, m')"
    by (simp add: sm_Apply_def perform_def mutate_def put_entry_def sm_New_def zero_Entry_def)
  have "eOperation put_entry \<noteq> 0" by (simp add: put_entry_def)
  from apply_retry [OF a this] a show ?thesis by simp
qed

subsection \<open>Images\<close>

lemma length_hysm [simp]: "length hysm = 4"
  by (simp add: hysm_def)

lemma length_valueBytes [simp]: "length (valueBytes m k) = 16"
  by (simp add: valueBytes_def)

lemma length_clientBytes [simp]: "length (clientBytes m k) = 32"
  by (simp add: clientBytes_def Let_def)

lemma length_concat_const: "(\<And>x. length (f x) = n) \<Longrightarrow> length (concat (map f xs)) = length xs * n"
  by (induction xs) simp_all

lemma restoreValues_image:
  "length pre = off \<Longrightarrow> restoreValues (length ks) (pre @ concat (map (valueBytes m) ks) @ post) off vs =
     fold (\<lambda>k. fmupd k (the (fmlookup (mcValues m) k))) ks vs"
proof (induction ks arbitrary: pre off vs)
  case (Cons k ks)
  have IH: "restoreValues (length ks) ((pre @ valueBytes m k) @ concat (map (valueBytes m) ks) @ post) (off + 16) vs' =
      fold (\<lambda>k. fmupd k (the (fmlookup (mcValues m) k))) ks vs'" for vs'
    using Cons.prems by (intro Cons.IH) simp
  have "go_slice off (off + 8) (pre @ concat (map (valueBytes m) (k # ks)) @ post) = PutUint64 k"
    "go_slice (off + 8) (off + 16) (pre @ concat (map (valueBytes m) (k # ks)) @ post) =
      PutUint64 (the (fmlookup (mcValues m) k))"
    using Cons.prems by (simp_all add: valueBytes_def)
  then show ?case using IH by simp
qed simp

lemma restoreClients_image:
  assumes "\<And>c. c \<in> set cs \<Longrightarrow> fmlookup (mcClients m) c \<noteq> None"
  shows "length pre = off \<Longrightarrow> restoreClients (length cs) (pre @ concat (map (clientBytes m) cs) @ post) off acc =
     fold (\<lambda>c. fmupd c (the (fmlookup (mcClients m) c))) cs acc"
  using assms
proof (induction cs arbitrary: pre off acc)
  case (Cons c cs)
  let ?r = "the (fmlookup (mcClients m) c)"
  let ?d = "pre @ concat (map (clientBytes m) (c # cs)) @ post"
  have IH: "restoreClients (length cs) ((pre @ clientBytes m c) @ concat (map (clientBytes m) cs) @ post) (off + 32) acc' =
      fold (\<lambda>c. fmupd c (the (fmlookup (mcClients m) c))) cs acc'" for acc'
    using Cons.prems by (intro Cons.IH) simp_all
  have fields: "go_slice off (off + 8) ?d = PutUint64 c" "go_slice (off + 8) (off + 16) ?d = PutUint64 (crRequestID ?r)"
    "go_slice (off + 16) (off + 24) ?d = PutUint64 (crValue ?r)"
    using Cons.prems(1) by (simp_all add: clientBytes_def Let_def)
  have "?d ! (off + 24) = (if crFound ?r then 1 else 0)"
    using Cons.prems(1) by (simp add: clientBytes_def Let_def nth_append)
  then have "\<lparr>crRequestID = Uint64 (go_slice (off + 8) (off + 16) ?d), crValue = Uint64 (go_slice (off + 16) (off + 24) ?d),
      crFound = ?d ! (off + 24) = 1\<rparr> = ?r"
    unfolding fields by simp
  then show ?case using IH fields(1) by simp
qed simp

lemma fold_fmupd_all:
  assumes "set ks = fset (fmdom m)"
  shows "fold (\<lambda>k. fmupd k (the (fmlookup m k))) ks fmempty = m"
proof (rule fmap_ext)
  fix x
  have "fmlookup (fold (\<lambda>k. fmupd k (the (fmlookup m k))) ks acc) x =
      (if x \<in> set ks then Some (the (fmlookup m x)) else fmlookup acc x)" for acc
    by (induction ks arbitrary: acc) auto
  then show "fmlookup (fold (\<lambda>k. fmupd k (the (fmlookup m k))) ks fmempty) x = fmlookup m x"
    using assms by (cases "fmlookup m x") (auto simp: fmdomI fmdom_notD dest: fmdomI)
qed

text \<open>The orders in which a range loop can visit the two maps: each key exactly once.\<close>

definition range_orders :: "u64 list \<Rightarrow> u64 list \<Rightarrow> Machine \<Rightarrow> bool" where
  "range_orders ks cs m \<longleftrightarrow> distinct ks \<and> set ks = fset (fmdom (mcValues m)) \<and>
     distinct cs \<and> set cs = fset (fmdom (mcClients m))"

text \<open>
  The image does not depend on map iteration order: two ranges over the same machine in any
  orders give the same bytes.
\<close>

theorem snapshot_deterministic:
  assumes "range_orders ks cs m" and "range_orders ks' cs' m"
  shows "sm_Snapshot ks cs m = sm_Snapshot ks' cs' m"
proof -
  have "sort ks = sort ks'" "sort cs = sort cs'"
    using assms by (auto simp: range_orders_def sorted_list_of_set_sort_remdups [symmetric] distinct_remdups_id
        intro!: sorted_distinct_set_unique)
  then show ?thesis by (simp add: sm_Snapshot_def imageBody_def)
qed

definition two_keys :: Machine where
  "two_keys = applyAll [put_entry, put_entry\<lparr>eRequestID := 4, eKey := 6\<rparr>] sm_New"

lemma two_keys_orders: "range_orders [5, 6] [3] two_keys" "range_orders [6, 5] [3] two_keys"
  by (auto simp: range_orders_def two_keys_def applyAll_def sm_Apply_def perform_def mutate_def put_entry_def
      sm_New_def zero_Entry_def)

theorem snapshot_deterministic_witness: "sm_Snapshot [5, 6] [3] two_keys = sm_Snapshot [6, 5] [3] two_keys"
  by (rule snapshot_deterministic [OF two_keys_orders])

lemma length_imageBody: "length (imageBody ks cs m) = 16 + length ks * 16 + length cs * 32"
  by (simp add: imageBody_def Let_def length_concat_const)

lemma Restore_Snapshot:
  assumes "range_orders ks cs m" and "length ks < 2 ^ 32" and "length cs < 2 ^ 32"
  shows "Restore (sm_Snapshot ks cs m) = Inr m"
proof -
  let ?body = "imageBody ks cs m" and ?img = "sm_Snapshot ks cs m"
  let ?pre = "hysm @ PutUint16 1 @ [0, 0] @ PutUint32 (of_nat (length ks)) @ PutUint32 (of_nat (length cs))"
  let ?vs = "concat (map (valueBytes m) (sort ks))" and ?cs = "concat (map (clientBytes m) (sort cs))"
  let ?crc = "PutUint32 (Checksum ?body)"
  have body: "?body = ?pre @ ?vs @ ?cs" by (simp add: imageBody_def Let_def)
  have img: "?img = ?body @ ?crc" by (simp add: sm_Snapshot_def Let_def)
  have pre: "length ?pre = 16" by simp
  have len: "length ?img = 20 + length ks * 16 + length cs * 32" by (simp add: img length_imageBody)
  have head: "go_slice 0 4 ?img = hysm" "go_slice 4 6 ?img = PutUint16 1"
    "go_slice 8 12 ?img = PutUint32 (of_nat (length ks))" "go_slice 12 16 ?img = PutUint32 (of_nat (length cs))"
    by (simp_all add: img body)
  have counts: "unat (of_nat (length ks) :: u32) = length ks" "unat (of_nat (length cs) :: u32) = length cs"
    using assms(2,3) by (simp_all add: unat_of_nat)
  have "go_slice 0 (length ?img - 4) ?img = ?body" "go_slice (length ?img - 4) (length ?img) ?img = ?crc"
    by (simp_all add: img)
  then have crc: "Checksum (go_slice 0 (length ?img - 4) ?img) =
      Uint32 (go_slice (length ?img - 4) (length ?img) ?img)" by simp
  have "restoreValues (length ks) ?img 16 fmempty = mcValues m"
    using restoreValues_image [OF pre, of "sort ks" m "?cs @ ?crc" fmempty] fold_fmupd_all [of "sort ks" "mcValues m"] assms(1)
    by (simp add: img body range_orders_def)
  moreover have "restoreClients (length cs) ?img (16 + length ks * 16) fmempty = mcClients m"
    using restoreClients_image [of "sort cs" m "?pre @ ?vs" "16 + length ks * 16" ?crc fmempty]
      fold_fmupd_all [of "sort cs" "mcClients m"] assms(1) pre
    by (simp add: img body range_orders_def length_concat_const fmlookup_dom_iff)
  ultimately show ?thesis
    unfolding Restore_def head Uint_Put counts Let_def using crc len by simp
qed

text \<open>
  C24: Snapshots round trip. Restoring the image of any machine gives the machine back, values and
  client records alike, when the counts fit the 32-bit fields of the header.
\<close>

theorem snapshot_roundtrip:
  assumes "range_orders ks cs m" and "length ks < 2 ^ 32" and "length cs < 2 ^ 32"
  shows "Restore (sm_Snapshot ks cs m) = Inr m"
  using assms by (rule Restore_Snapshot)

theorem snapshot_roundtrip_witness: "Restore (sm_Snapshot [6, 5] [3] two_keys) = Inr two_keys"
  by (rule snapshot_roundtrip [OF two_keys_orders(2)]) simp_all

text \<open>
  C25: A corrupted image is refused. Changing any single byte of an image that \<open>Restore\<close> accepts makes
  it return \<open>ErrBadSnapshot\<close>.
\<close>

theorem restore_detects_corruption:
  assumes "Restore snap = Inr m" and "i < length snap" and "b \<noteq> snap ! i"
  shows "Restore (snap[i := b]) = Inl ErrBadSnapshot"
proof -
  let ?n = "length snap - 4" and ?snap = "snap[i := b]"
  have ok: "20 \<le> length snap" "Checksum (go_slice 0 ?n snap) = Uint32 (go_slice ?n (length snap) snap)"
    using assms(1) by (auto simp: Restore_def Let_def split: if_splits)
  have "Checksum (go_slice 0 ?n ?snap) \<noteq> Uint32 (go_slice ?n (length snap) ?snap)"
  proof (cases "i < ?n")
    case True
    then have "go_slice 0 ?n ?snap = (go_slice 0 ?n snap)[i := b]"
      "go_slice ?n (length snap) ?snap = go_slice ?n (length snap) snap"
      using go_slice_list_update_inside [of 0 i ?n snap b] go_slice_list_update_outside [of i ?n "length snap" snap b]
      by simp_all
    moreover have "b \<noteq> go_slice 0 ?n snap ! i" "i < length (go_slice 0 ?n snap)"
      using True assms(3) by (simp_all add: go_slice_def)
    ultimately show ?thesis using Checksum_single_byte ok(2) by metis
  next
    case False
    then have "go_slice 0 ?n ?snap = go_slice 0 ?n snap"
      "go_slice ?n (length snap) ?snap = (go_slice ?n (length snap) snap)[i - ?n := b]"
      using assms(2) go_slice_list_update_outside [of i 0 ?n snap b] go_slice_list_update_inside [of ?n i "length snap" snap b]
      by simp_all
    moreover have "(go_slice ?n (length snap) snap)[i - ?n := b] \<noteq> go_slice ?n (length snap) snap"
    proof
      assume "(go_slice ?n (length snap) snap)[i - ?n := b] = go_slice ?n (length snap) snap"
      then have "go_slice ?n (length snap) snap ! (i - ?n) = b"
        using False assms(2) ok(1) by (metis length_go_slice nth_list_update_eq diff_less_mono min.idem not_less)
      then show False using False assms(2,3) by (simp add: go_slice_def)
    qed
    ultimately show ?thesis using ok by (simp add: Uint32_inj)
  qed
  then show ?thesis by (simp add: Restore_def)
qed

theorem restore_detects_corruption_witness:
  "\<exists>snap. Restore snap = Inr two_keys \<and> Restore (snap[9 := snap ! 9 + 1]) = Inl ErrBadSnapshot"
proof (intro exI conjI)
  let ?snap = "sm_Snapshot [5, 6] [3] two_keys"
  show r: "Restore ?snap = Inr two_keys" by (rule Restore_Snapshot [OF two_keys_orders(1)]) simp_all
  have "9 < length ?snap" by (simp add: sm_Snapshot_def Let_def length_imageBody)
  moreover have "?snap ! 9 + 1 \<noteq> ?snap ! 9"
    by simp
  ultimately show "Restore (?snap[9 := ?snap ! 9 + 1]) = Inl ErrBadSnapshot"
    using restore_detects_corruption [OF r] by blast
qed

end
