(* ===== verification/Protocol.thy ===== *)
theory Protocol
  imports Raft_Types
begin

text \<open>
  The wire format, \<^verbatim>\<open>protocol/frame.go\<close>, \<^verbatim>\<open>protocol/peer.go\<close> and \<^verbatim>\<open>protocol/client.go\<close>: framing over
  byte streams and the codecs of peer messages, client requests and client responses. An \<open>io.Writer\<close>
  is a function that takes some bytes and reports how many it wrote; an \<open>io.Reader\<close> read with
  \<open>io.ReadFull\<close> is the list of the bytes still to come.
\<close>

subsection \<open>protocol/frame.go\<close>

definition Version :: u16 where "Version = 1"
definition HeaderSize :: nat where "HeaderSize = 16"
definition MaxFrameSize :: nat where "MaxFrameSize = 2 ^ 20"

type_synonym FrameKind = u16

abbreviation (input) KindPeer :: FrameKind where "KindPeer \<equiv> 1"
abbreviation (input) KindClientRequest :: FrameKind where "KindClientRequest \<equiv> 2"
abbreviation (input) KindClientResponse :: FrameKind where "KindClientResponse \<equiv> 3"

definition frameMagic :: bytes where
  "frameMagic = [0x48, 0x59, 0x50, 0x52]"

type_synonym 'w writer = "bytes \<Rightarrow> 'w \<Rightarrow> (nat \<times> error option) \<times> 'w"

text \<open>\<open>None\<close> is the panic of \<open>data[n:]\<close> when the writer claims more than it was given.\<close>

function writeFull :: "'w writer \<Rightarrow> bytes \<Rightarrow> 'w \<Rightarrow> (error option \<times> 'w) option" where
  "writeFull write bs w =
     (if length bs = 0 then Some (None, w)
      else
        case write bs w of ((n, err), w') \<Rightarrow>
          if err \<noteq> None then Some (err, w')
          else if n = 0 then Some (Some ErrShortWrite, w')
          else if n > length bs then None
          else writeFull write (drop n bs) w')"
  by pat_completeness auto
termination
  by (relation "measure (\<lambda>(write, bs, w). length bs)") auto

declare writeFull.simps [simp del]

definition frameHeader :: "FrameKind \<Rightarrow> bytes \<Rightarrow> bytes" where
  "frameHeader kind payload =
     frameMagic @ PutUint16 Version @ PutUint16 kind @ PutUint32 (of_nat (length payload)) @
     PutUint32 (Checksum payload)"

definition WriteFrame :: "'w writer \<Rightarrow> FrameKind \<Rightarrow> bytes \<Rightarrow> 'w \<Rightarrow> (error option \<times> 'w) option" where
  "WriteFrame write kind payload w =
     (if length payload > MaxFrameSize then Some (Some ErrFrameTooLarge, w)
      else do {
        (err, w1) \<leftarrow> writeFull write (frameHeader kind payload) w;
        if err \<noteq> None then Some (err, w1) else writeFull write payload w1 })"

text \<open>\<open>io.ReadFull\<close> into a buffer of \<open>n\<close> bytes.\<close>

definition ReadFull :: "nat \<Rightarrow> bytes \<Rightarrow> (error + bytes) \<times> bytes" where
  "ReadFull n s =
     (if n \<le> length s then (Inr (take n s), drop n s)
      else (Inl (if s = [] then ErrEOF else ErrUnexpectedEOF), []))"

definition ReadFrame :: "bytes \<Rightarrow> (error + (FrameKind \<times> bytes)) \<times> bytes" where
  "ReadFrame s =
     (case ReadFull HeaderSize s of
        (Inl err, s1) \<Rightarrow> (Inl err, s1)
      | (Inr header, s1) \<Rightarrow>
          if go_slice 0 4 header \<noteq> frameMagic then (Inl ErrFrame, s1)
          else if Uint16 (go_slice 4 6 header) \<noteq> Version then (Inl ErrVersion, s1)
          else
            let len = Uint32 (go_slice 8 12 header) in
            if unat len > MaxFrameSize then (Inl ErrFrameTooLarge, s1)
            else
              case ReadFull (unat len) s1 of
                (Inl err, s2) \<Rightarrow> (Inl err, s2)
              | (Inr payload, s2) \<Rightarrow>
                  if Checksum payload \<noteq> Uint32 (go_slice 12 16 header) then (Inl ErrFrame, s2)
                  else (Inr (Uint16 (go_slice 6 8 header), payload), s2))"

subsection \<open>protocol/peer.go\<close>

definition peerFixedSize :: nat where "peerFixedSize = 176"

definition boolByte :: "bool \<Rightarrow> u8" where
  "boolByte b = (if b then 1 else 0)"

definition entryBytes :: "Entry \<Rightarrow> bytes" where
  "entryBytes e =
     PutUint64 (eTerm e) @ PutUint64 (eCommand e) @ [eKind e, eOperation e] @ replicate 6 0 @
     PutUint64 (eOldVoters e) @ PutUint64 (eNewVoters e) @ PutUint64 (eClientID e) @
     PutUint64 (eRequestID e) @ PutUint64 (eKey e) @ PutUint64 (eValue e)"

definition EncodePeer :: "Message \<Rightarrow> bytes" where
  "EncodePeer m =
     [mType m, boolByte (mReject m), boolByte (mHasEntry m), 0] @ PutUint32 (mFrom m) @ PutUint32 (mTo m) @
     concat (map PutUint64 [mTerm m, mLogIndex m, mLogTerm m, mCommit m, mMatch m, mContext m,
       mSnapshotIndex m, mSnapshotTerm m]) @
     entryBytes (mEntry m) @
     PutUint64 (mSnapshotOld m) @ PutUint64 (mSnapshotNew m) @ PutUint32 (of_nat (length (mSnapshot m))) @
     replicate 8 0 @ mSnapshot m"

definition fieldAt :: "nat \<Rightarrow> bytes \<Rightarrow> u64" where
  "fieldAt off bs = Uint64 (go_slice off (off + 8) bs)"

definition decodeEntry :: "bytes \<Rightarrow> nat \<Rightarrow> Entry" where
  "decodeEntry bs off =
     \<lparr>eTerm = fieldAt off bs, eCommand = fieldAt (off + 8) bs, eKind = bs ! (off + 16),
      eOldVoters = fieldAt (off + 24) bs, eNewVoters = fieldAt (off + 32) bs,
      eOperation = bs ! (off + 17), eClientID = fieldAt (off + 40) bs,
      eRequestID = fieldAt (off + 48) bs, eKey = fieldAt (off + 56) bs, eValue = fieldAt (off + 64) bs\<rparr>"

definition DecodePeer :: "bytes \<Rightarrow> error + Message" where
  "DecodePeer bs =
     (if length bs < peerFixedSize then Inl ErrFrame
      else if unat (Uint32 (go_slice 164 168 bs)) \<noteq> length bs - peerFixedSize then Inl ErrFrame
      else Inr
        \<lparr>mType = bs ! 0, mFrom = Uint32 (go_slice 4 8 bs), mTo = Uint32 (go_slice 8 12 bs),
         mTerm = fieldAt 12 bs, mLogIndex = fieldAt 20 bs, mLogTerm = fieldAt 28 bs,
         mEntry = decodeEntry bs 76, mHasEntry = (bs ! 2 \<noteq> 0), mCommit = fieldAt 36 bs,
         mReject = (bs ! 1 \<noteq> 0), mMatch = fieldAt 44 bs, mContext = fieldAt 52 bs,
         mSnapshotIndex = fieldAt 60 bs, mSnapshotTerm = fieldAt 68 bs,
         mSnapshot = drop peerFixedSize bs, mSnapshotOld = fieldAt 148 bs, mSnapshotNew = fieldAt 156 bs\<rparr>)"

subsection \<open>protocol/client.go\<close>

type_synonym ClientOp = u8

abbreviation (input) ClientPut :: ClientOp where "ClientPut \<equiv> 1"
abbreviation (input) ClientDelete :: ClientOp where "ClientDelete \<equiv> 2"
abbreviation (input) ClientGet :: ClientOp where "ClientGet \<equiv> 3"
abbreviation (input) ClientStatus :: ClientOp where "ClientStatus \<equiv> 4"

type_synonym Status = u16

abbreviation (input) StatusOK :: Status where "StatusOK \<equiv> 0"
abbreviation (input) StatusNotLeader :: Status where "StatusNotLeader \<equiv> 1"
abbreviation (input) StatusBusy :: Status where "StatusBusy \<equiv> 2"
abbreviation (input) StatusInvalid :: Status where "StatusInvalid \<equiv> 3"
abbreviation (input) StatusNotFound :: Status where "StatusNotFound \<equiv> 4"
abbreviation (input) StatusTimeout :: Status where "StatusTimeout \<equiv> 5"
abbreviation (input) StatusInternal :: Status where "StatusInternal \<equiv> 6"

record ClientRequest =
  qOperation :: ClientOp
  qClientID :: u64
  qRequestID :: u64
  qKey :: u64
  qValue :: u64

record ClientResponse =
  pStatus :: Status
  pLeader :: u32
  pRequestID :: u64
  pValue :: u64
  pCommit :: u64

definition clientRequestSize :: nat where "clientRequestSize = 40"
definition clientResponseSize :: nat where "clientResponseSize = 32"

definition EncodeClientRequest :: "ClientRequest \<Rightarrow> bytes" where
  "EncodeClientRequest q = [qOperation q] @ replicate 7 0 @ PutUint64 (qClientID q) @
     PutUint64 (qRequestID q) @ PutUint64 (qKey q) @ PutUint64 (qValue q)"

definition DecodeClientRequest :: "bytes \<Rightarrow> error + ClientRequest" where
  "DecodeClientRequest bs =
     (if length bs \<noteq> clientRequestSize then Inl ErrFrame
      else
        let q = \<lparr>qOperation = bs ! 0, qClientID = fieldAt 8 bs, qRequestID = fieldAt 16 bs,
                 qKey = fieldAt 24 bs, qValue = fieldAt 32 bs\<rparr> in
        if qOperation q < ClientPut \<or> qOperation q > ClientStatus then Inl ErrInvalidClientOperation
        else Inr q)"

definition EncodeClientResponse :: "ClientResponse \<Rightarrow> bytes" where
  "EncodeClientResponse p = PutUint16 (pStatus p) @ [0, 0] @ PutUint32 (pLeader p) @
     PutUint64 (pRequestID p) @ PutUint64 (pValue p) @ PutUint64 (pCommit p)"

definition DecodeClientResponse :: "bytes \<Rightarrow> error + ClientResponse" where
  "DecodeClientResponse bs =
     (if length bs \<noteq> clientResponseSize then Inl ErrFrame
      else Inr \<lparr>pStatus = Uint16 (go_slice 0 2 bs), pLeader = Uint32 (go_slice 4 8 bs),
        pRequestID = fieldAt 8 bs, pValue = fieldAt 16 bs, pCommit = fieldAt 24 bs\<rparr>)"

subsection \<open>Codecs\<close>

lemma length_entryBytes [simp]: "length (entryBytes e) = 72"
  by (simp add: entryBytes_def)

lemma fieldAt_skip: "length xs \<le> off \<Longrightarrow> fieldAt off (xs @ ys) = fieldAt (off - length xs) ys"
  by (simp add: fieldAt_def)

lemma fieldAt_Cons: "0 < off \<Longrightarrow> fieldAt off (x # xs) = fieldAt (off - 1) xs"
  by (simp add: fieldAt_def)

lemma fieldAt_here [simp]: "fieldAt 0 (PutUint64 v @ ys) = v"
  by (simp add: fieldAt_def)

lemma fieldAt_whole: "fieldAt 0 (PutUint64 v) = v"
  using fieldAt_here [of v "[]"] by simp

lemma one_le_u8: "1 \<le> (x :: u8) \<longleftrightarrow> x \<noteq> 0"
  by (metis linorder_not_le unat_eq_zero word_gt_0 word_le_0_iff word_less_1)

lemma decodeEntry_entryBytes:
  assumes "length pre = off"
  shows "decodeEntry (pre @ entryBytes e @ post) off = e"
  using assms
  by (simp add: decodeEntry_def entryBytes_def fieldAt_skip fieldAt_Cons nth_append numeral_nat)

text \<open>
  C28: Peer messages survive the wire. Decoding the encoding of any raft message gives the message back,
  entry, flags, configuration masks and snapshot included, as long as the snapshot length fits its
  32-bit field.
\<close>

theorem peer_roundtrip:
  assumes "length (mSnapshot m) < 2 ^ 32"
  shows "DecodePeer (EncodePeer m) = Inr m"
proof -
  let ?bs = "EncodePeer m"
  let ?pre = "[mType m, boolByte (mReject m), boolByte (mHasEntry m), 0] @ PutUint32 (mFrom m) @ PutUint32 (mTo m) @
     concat (map PutUint64 [mTerm m, mLogIndex m, mLogTerm m, mCommit m, mMatch m, mContext m,
       mSnapshotIndex m, mSnapshotTerm m])"
  let ?post = "PutUint64 (mSnapshotOld m) @ PutUint64 (mSnapshotNew m) @ PutUint32 (of_nat (length (mSnapshot m))) @
     replicate 8 0 @ mSnapshot m"
  have bs: "?bs = ?pre @ entryBytes (mEntry m) @ ?post" by (simp add: EncodePeer_def)
  have pre: "length ?pre = 76" by simp
  have len: "length ?bs = 176 + length (mSnapshot m)" unfolding bs by simp
  have snap: "unat (Uint32 (go_slice 164 168 ?bs)) = length (mSnapshot m)"
    unfolding bs using assms by (simp add: unat_of_nat)
  have tail: "fieldAt 148 ?bs = mSnapshotOld m" "fieldAt 156 ?bs = mSnapshotNew m" "drop 176 ?bs = mSnapshot m"
    unfolding bs by (simp_all add: fieldAt_skip fieldAt_Cons)
  have head: "?bs ! 0 = mType m" "?bs ! Suc 0 = boolByte (mReject m)" "?bs ! 2 = boolByte (mHasEntry m)"
    "Uint32 (go_slice 4 8 ?bs) = mFrom m" "Uint32 (go_slice 8 12 ?bs) = mTo m"
    unfolding bs by simp_all
  have fields: "fieldAt 12 ?bs = mTerm m" "fieldAt 20 ?bs = mLogIndex m" "fieldAt 28 ?bs = mLogTerm m"
    "fieldAt 36 ?bs = mCommit m" "fieldAt 44 ?bs = mMatch m" "fieldAt 52 ?bs = mContext m"
    "fieldAt 60 ?bs = mSnapshotIndex m" "fieldAt 68 ?bs = mSnapshotTerm m"
    unfolding bs by (simp_all add: fieldAt_skip fieldAt_Cons)
  have entry: "decodeEntry ?bs 76 = mEntry m" unfolding bs by (rule decodeEntry_entryBytes [OF pre])
  have "boolByte b \<noteq> 0 \<longleftrightarrow> b" for b by (simp add: boolByte_def)
  then show ?thesis
    unfolding DecodePeer_def peerFixedSize_def using len snap by (simp add: head fields entry tail)
qed

definition sample_message :: Message where
  "sample_message = zero_Message\<lparr>mType := MsgInstallSnapshot, mFrom := 1, mTo := 2, mTerm := 7, mSnapshot := [1, 2, 3]\<rparr>"

theorem peer_roundtrip_witness: "DecodePeer (EncodePeer sample_message) = Inr sample_message"
  by (rule peer_roundtrip) (simp add: sample_message_def)

text \<open>
  Client requests and responses survive the wire; a request with an operation outside the four
  defined ones is refused, and so is every payload of another size.
\<close>

theorem client_roundtrip:
  "DecodeClientRequest (EncodeClientRequest q) =
     (if 1 \<le> qOperation q \<and> qOperation q \<le> 4 then Inr q else Inl ErrInvalidClientOperation) \<and>
   DecodeClientResponse (EncodeClientResponse p) = Inr p \<and>
   (if length bs = 40 then True else DecodeClientRequest bs = Inl ErrFrame) \<and>
   (if length bs = 32 then True else DecodeClientResponse bs = Inl ErrFrame)"
proof (intro conjI)
  show "DecodeClientRequest (EncodeClientRequest q) =
     (if 1 \<le> qOperation q \<and> qOperation q \<le> 4 then Inr q else Inl ErrInvalidClientOperation)"
    by (simp add: DecodeClientRequest_def EncodeClientRequest_def clientRequestSize_def Let_def
        fieldAt_skip fieldAt_Cons fieldAt_whole one_le_u8) (auto simp: not_less)
  show "DecodeClientResponse (EncodeClientResponse p) = Inr p"
    by (simp add: DecodeClientResponse_def EncodeClientResponse_def clientResponseSize_def
        fieldAt_skip fieldAt_Cons fieldAt_whole)
qed (simp_all add: DecodeClientRequest_def DecodeClientResponse_def clientRequestSize_def clientResponseSize_def)

subsection \<open>Frames\<close>

text \<open>
  A writer that appends to a stream \<open>sink\<close>. All that is asked of it is that it reports truthfully how many bytes of
  those it was given it took; it may take any number of them, and it may return an error with any of its answers.
  \<open>failed\<close> is a history of the writer: the first error it returned, where taking nothing without an error counts
  as a short write.
\<close>

definition accounts :: "'w writer \<Rightarrow> ('w \<Rightarrow> bytes) \<Rightarrow> ('w \<Rightarrow> error option) \<Rightarrow> bool" where
  "accounts write sink failed \<longleftrightarrow> (\<forall>bs w n err w'. bs \<noteq> [] \<and> write bs w = ((n, err), w') \<longrightarrow>
     n \<le> length bs \<and> sink w' = sink w @ take n bs \<and>
     failed w' = (if failed w \<noteq> None then failed w else if err \<noteq> None then err
       else if n = 0 then Some ErrShortWrite else None))"

lemma writeFull_accounts:
  assumes "accounts write sink failed" and "failed w = None"
  shows "\<exists>w' k. writeFull write bs w = Some (failed w', w') \<and> sink w' = sink w @ take k bs \<and>
    (failed w' = None \<longrightarrow> length bs \<le> k)"
  using assms(2)
proof (induction bs arbitrary: w rule: length_induct)
  case (1 bs)
  show ?case
  proof (cases "bs = []")
    case True
    then show ?thesis using 1(2) by (subst writeFull.simps) (auto intro: exI [of _ w])
  next
    case False
    obtain n err w1 where n: "write bs w = ((n, err), w1)" by (metis surj_pair)
    have w1: "n \<le> length bs" "sink w1 = sink w @ take n bs"
        "failed w1 = (if err \<noteq> None then err else if n = 0 then Some ErrShortWrite else None)"
      using assms(1) n False 1(2) unfolding accounts_def by auto
    show ?thesis
    proof (cases "err = None \<and> n \<noteq> 0")
      case True
      then have "length (drop n bs) < length bs" "failed w1 = None" using False w1(3) by simp_all
      then obtain w' k where w': "writeFull write (drop n bs) w1 = Some (failed w', w')"
          "sink w' = sink w1 @ take k (drop n bs)" "failed w' = None \<longrightarrow> length (drop n bs) \<le> k"
        using 1(1) by metis
      have "sink w' = sink w @ take (n + k) bs" using w'(2) w1(2) by (simp add: take_add)
      then show ?thesis
        using n False True w1(1) w'(1,3)
        by (subst writeFull.simps) (auto intro!: exI [of _ w'] exI [of _ "n + k"])
    next
      case False
      then show ?thesis
        using n \<open>bs \<noteq> []\<close> w1
        by (subst writeFull.simps) (auto intro!: exI [of _ w1] exI [of _ n])
    qed
  qed
qed

lemma length_frameMagic [simp]: "length frameMagic = 4"
  by (simp add: frameMagic_def)

lemma length_frameHeader [simp]: "length (frameHeader kind payload) = 16"
  by (simp add: frameHeader_def)

lemma ReadFrame_frame:
  assumes "length payload \<le> MaxFrameSize"
  shows "ReadFrame (frameHeader kind payload @ payload @ rest) = (Inr (kind, payload), rest)"
proof -
  let ?h = "frameHeader kind payload"
  have "ReadFull HeaderSize (?h @ payload @ rest) = (Inr ?h, payload @ rest)"
    by (simp add: ReadFull_def HeaderSize_def)
  moreover have "go_slice 0 4 ?h = frameMagic" "Uint16 (go_slice 4 6 ?h) = Version" "Uint16 (go_slice 6 8 ?h) = kind"
    "Uint32 (go_slice 8 12 ?h) = of_nat (length payload)" "Uint32 (go_slice 12 16 ?h) = Checksum payload"
    by (simp_all add: frameHeader_def)
  moreover have "unat (of_nat (length payload) :: u32) = length payload"
    using assms by (simp add: MaxFrameSize_def unat_of_nat)
  moreover have "ReadFull (length payload) (payload @ rest) = (Inr payload, rest)" by (simp add: ReadFull_def)
  ultimately show ?thesis using assms by (simp add: ReadFrame_def Let_def)
qed

lemma ReadFrame_cut:
  assumes "length payload \<le> MaxFrameSize" and "k < 16 + length payload"
  shows "\<exists>e. ReadFrame (take k (frameHeader kind payload @ payload)) = (Inl e, [])"
proof (cases "k < 16")
  case True
  then show ?thesis by (simp add: ReadFrame_def ReadFull_def HeaderSize_def)
next
  case False
  let ?h = "frameHeader kind payload" and ?cut = "take (k - 16) payload"
  have "ReadFull HeaderSize (?h @ ?cut) = (Inr ?h, ?cut)" by (simp add: ReadFull_def HeaderSize_def)
  moreover have "go_slice 0 4 ?h = frameMagic" "Uint16 (go_slice 4 6 ?h) = Version"
    "Uint32 (go_slice 8 12 ?h) = of_nat (length payload)"
    by (simp_all add: frameHeader_def)
  moreover have "unat (of_nat (length payload) :: u32) = length payload"
    using assms(1) by (simp add: MaxFrameSize_def unat_of_nat)
  moreover have "\<exists>e. ReadFull (length payload) ?cut = (Inl e, [])" using assms(2) False by (simp add: ReadFull_def)
  ultimately show ?thesis using assms(1) False by (auto simp: ReadFrame_def Let_def)
qed

text \<open>
  C26: Frames survive the stream, or the failure is known. However the writer splits the writes and whenever it
  fails, \<open>WriteFrame\<close> of a payload within the size limit returns the first error the writer returned, and none
  only if there was none. Without an error, reading the stream back returns the kind and the payload and leaves
  exactly what followed. With an error the stream holds a prefix of the frame, and reading a frame that was cut
  short fails. An oversized payload is refused before anything is written.
\<close>

theorem frame_roundtrip:
  assumes "accounts write sink failed" and "failed w = None"
  shows "if length payload \<le> MaxFrameSize
    then \<exists>w' k. WriteFrame write kind payload w = Some (failed w', w') \<and>
      sink w' = sink w @ take k (frameHeader kind payload @ payload) \<and>
      (if failed w' = None
       then ReadFrame (take k (frameHeader kind payload @ payload) @ rest) = (Inr (kind, payload), rest)
       else k < 16 + length payload \<longrightarrow> (\<exists>e. ReadFrame (take k (frameHeader kind payload @ payload)) = (Inl e, [])))
    else WriteFrame write kind payload w = Some (Some ErrFrameTooLarge, w)"
proof (cases "length payload \<le> MaxFrameSize")
  case True
  obtain w1 k1 where w1: "writeFull write (frameHeader kind payload) w = Some (failed w1, w1)"
      "sink w1 = sink w @ take k1 (frameHeader kind payload)" "failed w1 = None \<longrightarrow> 16 \<le> k1"
    using writeFull_accounts [OF assms, of "frameHeader kind payload"] by auto
  show ?thesis
  proof (cases "failed w1 = None")
    case None: True
    obtain w2 k2 where w2: "writeFull write payload w1 = Some (failed w2, w2)" "sink w2 = sink w1 @ take k2 payload"
        "failed w2 = None \<longrightarrow> length payload \<le> k2"
      using writeFull_accounts [OF assms(1) None, of payload] by metis
    have "WriteFrame write kind payload w = Some (failed w2, w2)" using True None w1 w2 by (simp add: WriteFrame_def)
    moreover have "sink w2 = sink w @ take (16 + k2) (frameHeader kind payload @ payload)"
      using w1(2,3) w2(2) None by simp
    moreover have "ReadFrame (take (16 + k2) (frameHeader kind payload @ payload) @ rest) = (Inr (kind, payload), rest)"
      if "failed w2 = None" using ReadFrame_frame [OF True] w2(3) that by simp
    ultimately show ?thesis
      using True ReadFrame_cut [OF True, of "16 + k2"] by (auto intro!: exI [of _ w2] exI [of _ "16 + k2"])
  next
    case False
    then have "WriteFrame write kind payload w = Some (failed w1, w1)" using True w1 by (simp add: WriteFrame_def)
    moreover have "sink w1 = sink w @ take (min k1 16) (frameHeader kind payload @ payload)" using w1(2) by (simp add: min_def)
    ultimately show ?thesis using True False ReadFrame_cut [OF True, of "min k1 16"] by (auto intro!: exI [of _ w1] exI [of _ "min k1 16"])
  qed
qed (simp add: WriteFrame_def)

text \<open>A writer that takes at most three bytes at a time, and one that takes one byte and breaks.\<close>

definition small_writer :: "bytes writer" where
  "small_writer bs w = ((min 3 (length bs), None), w @ take 3 bs)"

definition broken_writer :: "(bytes \<times> error option) writer" where
  "broken_writer bs = (\<lambda>(out, e). ((min 1 (length bs), Some (ErrWrite 7)),
     (out @ take 1 bs, if e = None then Some (ErrWrite 7) else e)))"

theorem frame_roundtrip_witness:
  "(\<exists>w'. WriteFrame small_writer 2 [1, 2, 3, 4, 5] [] = Some (None, w') \<and>
     ReadFrame (w' @ [9]) = (Inr (2, [1, 2, 3, 4, 5]), [9])) \<and>
   (\<exists>w' e. WriteFrame broken_writer 2 [1, 2, 3, 4, 5] ([], None) = Some (Some (ErrWrite 7), w') \<and>
     ReadFrame (fst w') = (Inl e, []))"
proof
  have small: "accounts small_writer (\<lambda>w. w) (\<lambda>_. None)"
    unfolding accounts_def small_writer_def by (auto simp: min_def)
  from frame_roundtrip [OF this, where w = "[]" and payload = "[1, 2, 3, 4, 5]" and kind = 2 and rest = "[9]"]
  show "\<exists>w'. WriteFrame small_writer 2 [1, 2, 3, 4, 5] [] = Some (None, w') \<and>
     ReadFrame (w' @ [9]) = (Inr (2, [1, 2, 3, 4, 5]), [9])" by (auto simp: MaxFrameSize_def)
  have broken: "accounts broken_writer fst snd"
    unfolding accounts_def broken_writer_def by (auto simp: min_def)
  have ne: "frameHeader 2 [1, 2, 3, 4, 5] \<noteq> []" by (simp add: frameHeader_def frameMagic_def)
  have one: "writeFull broken_writer (frameHeader 2 [1, 2, 3, 4, 5]) ([], None) =
      Some (Some (ErrWrite 7), (take 1 (frameHeader 2 [1, 2, 3, 4, 5]), Some (ErrWrite 7)))"
    using ne by (subst writeFull.simps) (simp add: broken_writer_def)
  let ?f = "frameHeader 2 [1, 2, 3, 4, 5] @ [1, 2, 3, 4, 5]" and ?w = "(take 1 (frameHeader 2 [1, 2, 3, 4, 5]), Some (ErrWrite 7))"
  have w: "WriteFrame broken_writer 2 [1, 2, 3, 4, 5] ([], None) = Some (Some (ErrWrite 7), ?w)"
    using one by (simp add: WriteFrame_def MaxFrameSize_def)
  obtain k where k: "fst ?w = take k ?f" "k < 21 \<longrightarrow> (\<exists>e. ReadFrame (take k ?f) = (Inl e, []))"
    using frame_roundtrip [OF broken, where w = "([], None)" and payload = "[1, 2, 3, 4, 5]" and kind = 2 and rest = "[]"] w
    by (auto simp: MaxFrameSize_def)
  have "k < 21" using k(1) by (auto dest!: arg_cong [where f = length])
  then show "\<exists>w' e. WriteFrame broken_writer 2 [1, 2, 3, 4, 5] ([], None) = Some (Some (ErrWrite 7), w') \<and>
     ReadFrame (fst w') = (Inl e, [])" using w k by auto
qed

text \<open>
  C27: What \<open>ReadFrame\<close> returns is bounded and authentic. A frame it accepts carries at most
  \<open>MaxFrameSize\<close> bytes, consumes exactly its header and payload from the stream, and the payload has
  the checksum of the header; so with any one byte of the payload changed the frame is refused.
\<close>

theorem ReadFrame_authentic:
  assumes "ReadFrame s = (Inr (kind, payload), rest)"
  shows "length payload \<le> MaxFrameSize \<and> s = take 16 s @ payload @ rest \<and>
    (i < length payload \<and> b \<noteq> payload ! i \<longrightarrow>
      ReadFrame (take 16 s @ payload[i := b] @ rest) = (Inl ErrFrame, rest))"
proof -
  let ?h = "take 16 s" and ?n = "unat (Uint32 (go_slice 8 12 (take 16 s)))"
  have h: "16 \<le> length s" "go_slice 0 4 ?h = frameMagic" "Uint16 (go_slice 4 6 ?h) = Version" "?n \<le> MaxFrameSize"
    and p: "?n \<le> length (drop 16 s)" "payload = take ?n (drop 16 s)" "rest = drop ?n (drop 16 s)"
      "Checksum payload = Uint32 (go_slice 12 16 ?h)"
    using assms by (auto simp: ReadFrame_def ReadFull_def HeaderSize_def Let_def split: if_splits)
  have len: "length payload = ?n" using p(1,2) by simp
  have "s = ?h @ payload @ rest" using p by (metis append_take_drop_id)
  moreover have "ReadFrame (?h @ payload[i := b] @ rest) = (Inl ErrFrame, rest)"
    if "i < length payload" "b \<noteq> payload ! i"
  proof -
    have "Checksum (payload[i := b]) \<noteq> Checksum payload" using that by (rule Checksum_single_byte)
    then have c: "Checksum (payload[i := b]) \<noteq> Uint32 (go_slice 12 16 ?h)" unfolding p(4) .
    have "ReadFull HeaderSize (?h @ payload[i := b] @ rest) = (Inr ?h, payload[i := b] @ rest)"
      using h(1) by (simp add: ReadFull_def HeaderSize_def)
    moreover have "ReadFull ?n (payload[i := b] @ rest) = (Inr (payload[i := b]), rest)"
      by (simp add: ReadFull_def len [symmetric])
    ultimately show ?thesis using h(2-4) c unfolding ReadFrame_def Let_def by simp
  qed
  ultimately show ?thesis using len h(4) by simp
qed

theorem ReadFrame_authentic_witness:
  "ReadFrame (frameHeader 1 [5, 6] @ [5, 7] @ [8]) = (Inl ErrFrame, [8])"
proof -
  have r: "ReadFrame (frameHeader 1 [5, 6] @ [5, 6] @ [8]) = (Inr (1, [5, 6]), [8])"
    by (rule ReadFrame_frame) (simp add: MaxFrameSize_def)
  show ?thesis using ReadFrame_authentic [OF r, of 1 7] by simp
qed

text \<open>
  A snapshot that does not fit a frame is never sent. A peer message whose snapshot is longer than
  \<open>MaxFrameSize - 176\<close> bytes is refused by \<open>WriteFrame\<close>, without a byte on the wire.
\<close>

theorem oversized_snapshot_unsendable:
  assumes "MaxFrameSize < 176 + length (mSnapshot m)"
  shows "WriteFrame write KindPeer (EncodePeer m) w = Some (Some ErrFrameTooLarge, w)"
proof -
  have "length (EncodePeer m) = 176 + length (mSnapshot m)" by (simp add: EncodePeer_def)
  then show ?thesis using assms by (simp add: WriteFrame_def)
qed

theorem oversized_snapshot_unsendable_witness:
  "WriteFrame small_writer 1 (EncodePeer (zero_Message\<lparr>mSnapshot := replicate (2 ^ 20) 0\<rparr>)) [] = Some (Some ErrFrameTooLarge, [])"
  by (rule oversized_snapshot_unsendable) (simp add: MaxFrameSize_def)

end
