(* ===== verification/Snapshot_Store.thy ===== *)
theory Snapshot_Store
  imports Bytes
begin

text \<open>
  Snapshot images and the file that holds the newest one, \<^verbatim>\<open>storage/snapshot/snapshot.go\<close>,
  \<^verbatim>\<open>storage/snapshot/store.go\<close> and \<^verbatim>\<open>storage/snapshot/syncdir_unix.go\<close>. The image codec is a pure
  function of bytes. The store runs over a model of the one directory it uses: inodes with their
  contents, the directory as processes see it, and the versions of the directory a power failure may
  leave behind.
\<close>

subsection \<open>snapshot.go\<close>

definition imageHeaderSize :: nat where "imageHeaderSize = 52"

definition imageMagic :: bytes where
  "imageMagic = [0x48, 0x59, 0x50, 0x53, 0x4E, 0x41, 0x50, 0x32]"

record Image =
  iLastIndex :: u64
  iLastTerm :: u64
  iState :: bytes
  iOldVoters :: u64
  iNewVoters :: u64

definition zero_Image :: Image where
  "zero_Image = \<lparr>iLastIndex = 0, iLastTerm = 0, iState = [], iOldVoters = 0, iNewVoters = 0\<rparr>"

definition imageHead :: "Image \<Rightarrow> bytes" where
  "imageHead im = imageMagic @ PutUint64 (iLastIndex im) @ PutUint64 (iLastTerm im) @
     PutUint64 (iOldVoters im) @ PutUint64 (iNewVoters im) @ PutUint64 (of_nat (length (iState im)))"

definition EncodeImage :: "Image \<Rightarrow> bytes" where
  "EncodeImage im = imageHead im @ PutUint32 (Checksum (imageHead im @ iState im)) @ iState im"

definition DecodeImage :: "bytes \<Rightarrow> error + Image" where
  "DecodeImage data =
     (if length data < imageHeaderSize \<or> go_slice 0 8 data \<noteq> imageMagic then Inl ErrImageFormat
      else
        let len = Uint64 (go_slice 40 48 data) in
        if len > of_nat (length data - imageHeaderSize) \<or>
           of_nat (length data) \<noteq> of_nat imageHeaderSize + len
        then Inl ErrImageFormat
        else if Checksum (go_slice 0 48 data @ drop imageHeaderSize data) \<noteq> Uint32 (go_slice 48 52 data)
        then Inl ErrImageChecksum
        else Inr \<lparr>iLastIndex = Uint64 (go_slice 8 16 data), iLastTerm = Uint64 (go_slice 16 24 data),
          iState = drop imageHeaderSize data, iOldVoters = Uint64 (go_slice 24 32 data),
          iNewVoters = Uint64 (go_slice 32 40 data)\<rparr>)"

subsection \<open>The file system\<close>

text \<open>
  The names of the directory that matter: the path of the store and the temporary files. Each file is
  an inode, numbered in order of creation. \<open>onDisk\<close> lists the directories a power failure may expose:
  the last synced one and every one since. The content of an inode survives once it is synced.
  The \<open>n\<close>-th call fails when \<open>failing n\<close> says so, and no call after the \<open>dieAt\<close>-th has any effect:
  the machine is down.
\<close>

datatype FileName = Target | Temp nat

record FS =
  names :: "FileName \<Rightarrow> nat option"
  onDisk :: "(FileName \<Rightarrow> nat option) list"
  content :: "nat \<Rightarrow> bytes"
  synced :: "nat \<Rightarrow> bool"
  nextFile :: nat
  calls :: nat
  failing :: "nat \<Rightarrow> bool"
  partial :: "nat \<Rightarrow> nat"
  dieAt :: "nat option"

definition down :: "FS \<Rightarrow> bool" where
  "down fs = (case dieAt fs of None \<Rightarrow> False | Some n \<Rightarrow> n \<le> calls fs)"

text \<open>One call: it fails, or performs \<open>effect\<close>.\<close>

definition call :: "(FS \<Rightarrow> FS) \<Rightarrow> FS \<Rightarrow> error option \<times> FS" where
  "call effect fs =
     (if down fs then (Some (ErrFile (calls fs)), fs)
      else if failing fs (calls fs) then (Some (ErrFile (calls fs)), fs\<lparr>calls := calls fs + 1\<rparr>)
      else (None, (effect fs)\<lparr>calls := calls fs + 1\<rparr>))"

definition setNames :: "(FileName \<Rightarrow> nat option) \<Rightarrow> FS \<Rightarrow> FS" where
  "setNames d fs = fs\<lparr>names := d, onDisk := onDisk fs @ [d]\<rparr>"

definition os_MkdirAll :: "FS \<Rightarrow> error option \<times> FS" where
  "os_MkdirAll = call (\<lambda>fs. fs)"

definition os_CreateTemp :: "FS \<Rightarrow> (error + nat) \<times> FS" where
  "os_CreateTemp fs =
     (let n = nextFile fs in
      case call (\<lambda>fs. (setNames ((names fs)(Temp n \<mapsto> n)) fs)\<lparr>nextFile := n + 1,
          content := (content fs)(n := []), synced := (synced fs)(n := False)\<rparr>) fs of
        (Some e, fs') \<Rightarrow> (Inl e, fs')
      | (None, fs') \<Rightarrow> (Inr n, fs'))"

definition file_Chmod :: "nat \<Rightarrow> FS \<Rightarrow> error option \<times> FS" where
  "file_Chmod n = call (\<lambda>fs. fs)"

text \<open>A failing write leaves a prefix of the data behind; the inode is not synced either way.\<close>

definition writeContent :: "nat \<Rightarrow> bytes \<Rightarrow> FS \<Rightarrow> FS" where
  "writeContent n bs fs = fs\<lparr>content := (content fs)(n := content fs n @ bs), synced := (synced fs)(n := False)\<rparr>"

definition file_Write :: "nat \<Rightarrow> bytes \<Rightarrow> FS \<Rightarrow> error option \<times> FS" where
  "file_Write n bs fs =
     (if \<not> down fs \<and> failing fs (calls fs)
      then call (\<lambda>fs. fs) (writeContent n (take (partial fs (calls fs)) bs) fs)
      else call (writeContent n bs) fs)"

definition file_Sync :: "nat \<Rightarrow> FS \<Rightarrow> error option \<times> FS" where
  "file_Sync n = call (\<lambda>fs. fs\<lparr>synced := (synced fs)(n := True)\<rparr>)"

definition file_Close :: "nat \<Rightarrow> FS \<Rightarrow> error option \<times> FS" where
  "file_Close n = call (\<lambda>fs. fs)"

definition os_Rename :: "FileName \<Rightarrow> FileName \<Rightarrow> FS \<Rightarrow> error option \<times> FS" where
  "os_Rename a b fs =
     (if names fs a = None then (Some (ErrFile (calls fs)), fs)
      else call (\<lambda>fs. setNames ((names fs)(b := names fs a, a := None)) fs) fs)"

definition os_Remove :: "FileName \<Rightarrow> FS \<Rightarrow> error option \<times> FS" where
  "os_Remove a = call (\<lambda>fs. setNames ((names fs)(a := None)) fs)"

definition os_ReadFile :: "FileName \<Rightarrow> FS \<Rightarrow> (error + bytes option) \<times> FS" where
  "os_ReadFile a fs =
     (case call (\<lambda>fs. fs) fs of
        (Some e, fs') \<Rightarrow> (Inl e, fs')
      | (None, fs') \<Rightarrow> (Inr (map_option (content fs) (names fs a)), fs'))"

definition os_Open :: "FS \<Rightarrow> error option \<times> FS" where
  "os_Open = call (\<lambda>fs. fs)"

definition dir_Sync :: "FS \<Rightarrow> error option \<times> FS" where
  "dir_Sync = call (\<lambda>fs. fs\<lparr>onDisk := [names fs]\<rparr>)"

definition dir_Close :: "FS \<Rightarrow> error option \<times> FS" where
  "dir_Close = call (\<lambda>fs. fs)"

text \<open>
  A power failure leaves one of the directories of \<open>onDisk\<close>, and in an inode that was not synced
  anything at all.
\<close>

definition powerFail :: "(FileName \<Rightarrow> nat option) \<Rightarrow> (nat \<Rightarrow> bytes) \<Rightarrow> FS \<Rightarrow> FS" where
  "powerFail d garbage fs = fs\<lparr>names := d, onDisk := [d],
     content := (\<lambda>n. if synced fs n then content fs n else garbage n), synced := (\<lambda>_. True),
     calls := 0, failing := (\<lambda>_. False), dieAt := None\<rparr>"

subsection \<open>store.go\<close>

record SnapStore =
  sLast :: u64

definition OpenStore :: "FS \<Rightarrow> (error + (SnapStore \<times> Image)) \<times> FS" where
  "OpenStore fs =
     (case os_ReadFile Target fs of
        (Inl e, fs') \<Rightarrow> (Inl e, fs')
      | (Inr None, fs') \<Rightarrow> (Inr (\<lparr>sLast = 0\<rparr>, zero_Image), fs')
      | (Inr (Some data), fs') \<Rightarrow>
          (case DecodeImage data of
             Inl e \<Rightarrow> (Inl e, fs')
           | Inr im \<Rightarrow> (Inr (\<lparr>sLast = iLastIndex im\<rparr>, im), fs')))"

text \<open>\<open>andThen r f\<close>: the step \<open>f\<close> runs when \<open>err == nil\<close> so far.\<close>

definition andThen :: "error option \<times> FS \<Rightarrow> (FS \<Rightarrow> error option \<times> FS) \<Rightarrow> error option \<times> FS" where
  "andThen r f = (case r of (None, fs) \<Rightarrow> f fs | (Some e, fs) \<Rightarrow> (Some e, fs))"

text \<open>\<^verbatim>\<open>syncdir_unix.go\<close>\<close>

definition syncDirectory :: "FS \<Rightarrow> error option \<times> FS" where
  "syncDirectory fs =
     (case os_Open fs of
        (Some e, fs1) \<Rightarrow> (Some e, fs1)
      | (None, fs1) \<Rightarrow>
          (case dir_Sync fs1 of
             (Some e, fs2) \<Rightarrow> (Some e, snd (dir_Close fs2))
           | (None, fs2) \<Rightarrow> dir_Close fs2))"

definition closeTemp :: "nat \<Rightarrow> error option \<times> FS \<Rightarrow> error option \<times> FS" where
  "closeTemp n r = (case r of (err, fs) \<Rightarrow> case file_Close n fs of (closeErr, fs') \<Rightarrow>
     (if err = None then closeErr else err, fs'))"

definition writeTemp :: "nat \<Rightarrow> Image \<Rightarrow> FS \<Rightarrow> error option \<times> FS" where
  "writeTemp n im fs =
     closeTemp n (andThen (andThen (file_Chmod n fs) (file_Write n (EncodeImage im))) (file_Sync n))"

text \<open>The deferred function.\<close>

definition cleanup :: "bool \<Rightarrow> nat \<Rightarrow> FS \<Rightarrow> FS" where
  "cleanup ok n fs = (let fs1 = snd (file_Close n fs) in if \<not> ok then snd (os_Remove (Temp n) fs1) else fs1)"

definition Save :: "Image \<Rightarrow> SnapStore \<Rightarrow> FS \<Rightarrow> error option \<times> SnapStore \<times> FS" where
  "Save im s fs =
     (if iLastIndex im < sLast s then (Some ErrRegression, s, fs)
      else case os_MkdirAll fs of
        (Some e, fs1) \<Rightarrow> (Some e, s, fs1)
      | (None, fs1) \<Rightarrow>
          (case os_CreateTemp fs1 of
             (Inl e, fs2) \<Rightarrow> (Some e, s, fs2)
           | (Inr n, fs2) \<Rightarrow>
               (case andThen (writeTemp n im fs2) (os_Rename (Temp n) Target) of
                  (Some e, fs3) \<Rightarrow> (Some e, s, cleanup False n fs3)
                | (None, fs3) \<Rightarrow>
                    (case syncDirectory fs3 of
                       (Some e, fs4) \<Rightarrow> (Some e, s, cleanup False n fs4)
                     | (None, fs4) \<Rightarrow> (None, s\<lparr>sLast := iLastIndex im\<rparr>, cleanup True n fs4)))))"

subsection \<open>The codec accepts exactly the encodings\<close>

lemma length_imageMagic [simp]: "length imageMagic = 8"
  by (simp add: imageMagic_def)

lemma length_imageHead [simp]: "length (imageHead im) = 48"
  by (simp add: imageHead_def)

lemma length_EncodeImage: "length (EncodeImage im) = 52 + length (iState im)"
  by (simp add: EncodeImage_def)

definition fits :: "Image \<Rightarrow> bool" where
  "fits im \<longleftrightarrow> length (iState im) < 2 ^ 63"

lemma length_word:
  assumes "n < 2 ^ 63"
  shows "unat (of_nat n :: u64) = n"
  using assms by (simp add: unat_of_nat)

lemma DecodeImage_EncodeImage:
  assumes "fits im"
  shows "DecodeImage (EncodeImage im) = Inr im"
proof -
  let ?d = "EncodeImage im"
  have whole: "go_slice 0 48 ?d = imageHead im" by (simp add: EncodeImage_def)
  have head: "go_slice 0 8 ?d = imageMagic"
    "Uint64 (go_slice 8 16 ?d) = iLastIndex im" "Uint64 (go_slice 16 24 ?d) = iLastTerm im"
    "Uint64 (go_slice 24 32 ?d) = iOldVoters im" "Uint64 (go_slice 32 40 ?d) = iNewVoters im"
    "Uint64 (go_slice 40 48 ?d) = of_nat (length (iState im))"
    by (simp_all add: EncodeImage_def imageHead_def)
  have tail: "Uint32 (go_slice 48 52 ?d) = Checksum (imageHead im @ iState im)" "drop 52 ?d = iState im"
    by (simp_all add: EncodeImage_def)
  show ?thesis
    unfolding DecodeImage_def Let_def imageHeaderSize_def whole head tail length_EncodeImage by simp
qed

lemma EncodeImage_DecodeImage:
  assumes "DecodeImage d = Inr im" and len: "length d < 2 ^ 63"
  shows "d = EncodeImage im"
proof -
  have d: "52 \<le> length d" "go_slice 0 8 d = imageMagic" "of_nat (length d) = 52 + Uint64 (go_slice 40 48 d)"
    "Checksum (go_slice 0 48 d @ drop 52 d) = Uint32 (go_slice 48 52 d)"
    and im: "im = \<lparr>iLastIndex = Uint64 (go_slice 8 16 d), iLastTerm = Uint64 (go_slice 16 24 d),
      iState = drop 52 d, iOldVoters = Uint64 (go_slice 24 32 d), iNewVoters = Uint64 (go_slice 32 40 d)\<rparr>"
    using assms(1) by (auto simp: DecodeImage_def Let_def imageHeaderSize_def split: if_splits)
  have cut: "go_slice i k d = go_slice i j d @ go_slice j k d" if "i \<le> j" "j \<le> k" for i j k
    using take_add [of "j - i" "k - j" "drop i d"] that by (simp add: go_slice_def)
  have "Uint64 (go_slice 40 48 d) = of_nat (length d) - 52" unfolding d(3) by simp
  also have "\<dots> = of_nat (length (drop 52 d))" using d(1) by (simp add: of_nat_diff)
  finally have l: "PutUint64 (of_nat (length (drop 52 d))) = go_slice 40 48 d"
    using d(1) Put_Uint(3) [of "go_slice 40 48 d"] by simp
  have "imageHead im = go_slice 0 8 d @ go_slice 8 16 d @ go_slice 16 24 d @ go_slice 24 32 d @
      go_slice 32 40 d @ go_slice 40 48 d"
    unfolding imageHead_def im using d(1,2) l by (simp add: Put_Uint)
  then have head: "imageHead im = go_slice 0 48 d" by (simp add: cut [symmetric])
  have "EncodeImage im = go_slice 0 48 d @ go_slice 48 52 d @ drop 52 d"
    unfolding EncodeImage_def head using d(1,4) by (simp add: im Put_Uint)
  also have "\<dots> = go_slice 0 52 d @ drop 52 d" using cut [of 0 48 52] by simp
  also have "\<dots> = d" by (simp add: go_slice_def)
  finally show ?thesis by simp
qed

text \<open>
  C30: The image decoder accepts exactly what the encoder writes: for data below the size a slice can
  have, decoding returns an image if and only if the data is the encoding of that image.
\<close>

theorem image_decode_iff:
  assumes "length d < 2 ^ 63"
  shows "DecodeImage d = Inr im \<longleftrightarrow> d = EncodeImage im"
proof
  assume "d = EncodeImage im"
  moreover from this have "fits im" using assms by (simp add: fits_def length_EncodeImage)
  ultimately show "DecodeImage d = Inr im" by (simp add: DecodeImage_EncodeImage)
qed (rule EncodeImage_DecodeImage [OF _ assms])

theorem image_decode_iff_witness:
  "DecodeImage (EncodeImage (zero_Image\<lparr>iLastIndex := 9, iState := [1, 2]\<rparr>)) =
     Inr (zero_Image\<lparr>iLastIndex := 9, iState := [1, 2]\<rparr>)"
proof -
  let ?im = "zero_Image\<lparr>iLastIndex := 9, iState := [1, 2]\<rparr>"
  have "length (EncodeImage ?im) < 2 ^ 63" by (simp add: length_EncodeImage)
  from image_decode_iff [OF this, of ?im] show ?thesis by simp
qed

subsection \<open>Publication is atomic\<close>

text \<open>
  \<open>exposes I fs\<close>: whatever directory a power failure leaves, the path of the store is absent (\<open>None\<close>)
  or names a synced inode with the encoding of an image, and what it is belongs to \<open>I\<close>.
\<close>

definition target_ok :: "Image option set \<Rightarrow> FS \<Rightarrow> (FileName \<Rightarrow> nat option) \<Rightarrow> bool" where
  "target_ok I fs d = (case d Target of None \<Rightarrow> None \<in> I
     | Some n \<Rightarrow> n < nextFile fs \<and> synced fs n \<and>
         (\<exists>im. Some im \<in> I \<and> fits im \<and> content fs n = EncodeImage im))"

definition exposes :: "Image option set \<Rightarrow> FS \<Rightarrow> bool" where
  "exposes I fs \<longleftrightarrow> names fs \<in> set (onDisk fs) \<and> (\<forall>d\<in>set (onDisk fs). target_ok I fs d)"

definition unlinked :: "nat \<Rightarrow> FS \<Rightarrow> bool" where
  "unlinked n fs \<longleftrightarrow> n < nextFile fs \<and> (\<forall>d\<in>set (onDisk fs). d Target \<noteq> Some n)"

lemma exposes_mono: "exposes I fs \<Longrightarrow> I \<subseteq> J \<Longrightarrow> exposes J fs"
  by (fastforce simp: exposes_def target_ok_def split: option.splits)

lemma call_cases:
  "call eff fs = (err, fs') \<Longrightarrow> (\<And>fs k. P fs \<Longrightarrow> P (fs\<lparr>calls := k\<rparr>)) \<Longrightarrow> P fs \<Longrightarrow> P (eff fs) \<Longrightarrow> P fs'"
  by (auto simp: call_def split: if_splits)

lemma call_None:
  "call eff fs = (None, fs') \<Longrightarrow> fs' = (eff fs)\<lparr>calls := calls fs + 1\<rparr>"
  by (auto simp: call_def split: if_splits)

lemma target_ok_frame [simp]:
  "target_ok I (fs\<lparr>calls := k\<rparr>) d = target_ok I fs d"
  "target_ok I (fs\<lparr>onDisk := ds\<rparr>) d = target_ok I fs d"
  "target_ok I (fs\<lparr>names := d'\<rparr>) d = target_ok I fs d"
  by (simp_all add: target_ok_def split: option.split)

lemma frame_calls [simp]:
  "exposes I (fs\<lparr>calls := k\<rparr>) = exposes I fs" "unlinked n (fs\<lparr>calls := k\<rparr>) = unlinked n fs"
  by (simp_all add: exposes_def unlinked_def)

lemma call_idle:
  assumes "call (\<lambda>fs. fs) fs = (err, fs')"
  shows "\<exists>k. fs' = fs\<lparr>calls := k\<rparr>"
proof -
  have "\<exists>k. fs = fs\<lparr>calls := k\<rparr>" by (rule exI [of _ "calls fs"]) simp
  then show ?thesis using assms by (auto simp: call_def split: if_splits)
qed

lemmas idle_defs = os_MkdirAll_def file_Chmod_def file_Close_def os_Open_def dir_Close_def

lemma idle [dest]:
  "os_MkdirAll fs = (err, fs') \<Longrightarrow> \<exists>k. fs' = fs\<lparr>calls := k\<rparr>"
  "file_Chmod n fs = (err, fs') \<Longrightarrow> \<exists>k. fs' = fs\<lparr>calls := k\<rparr>"
  "file_Close n fs = (err, fs') \<Longrightarrow> \<exists>k. fs' = fs\<lparr>calls := k\<rparr>"
  "os_Open fs = (err, fs') \<Longrightarrow> \<exists>k. fs' = fs\<lparr>calls := k\<rparr>"
  "dir_Close fs = (err, fs') \<Longrightarrow> \<exists>k. fs' = fs\<lparr>calls := k\<rparr>"
  by (simp_all add: idle_defs call_idle)

lemma exposes_setNames:
  "exposes I fs \<Longrightarrow> d Target = names fs Target \<Longrightarrow> exposes I (setNames d fs)"
  by (simp add: exposes_def setNames_def) (simp add: target_ok_def)

lemma CreateTemp_ok:
  assumes "exposes I fs" and "os_CreateTemp fs = (Inr n, fs')"
  shows "exposes I fs'" "unlinked n fs'" "names fs' (Temp n) = Some n" "content fs' n = []"
proof -
  have n: "n = nextFile fs" and fs': "fs' = (setNames ((names fs)(Temp n \<mapsto> n)) fs)\<lparr>nextFile := n + 1,
      content := (content fs)(n := []), synced := (synced fs)(n := False), calls := calls fs + 1\<rparr>"
    using assms(2) by (auto simp: os_CreateTemp_def Let_def dest: call_None split: prod.splits option.splits)
  have old: "d Target \<noteq> Some n" if "d \<in> set (onDisk fs)" for d
    using assms(1) that n by (fastforce simp: exposes_def target_ok_def)
  have keep: "target_ok I fs' d" if "target_ok I fs d" "d Target \<noteq> Some n" for d
    using that by (auto simp: fs' n setNames_def target_ok_def split: option.splits)
  have now: "names fs \<in> set (onDisk fs)" using assms(1) by (simp add: exposes_def)
  have "target_ok I fs' (names fs')"
    using keep [of "names fs"] assms(1) now old by (simp add: exposes_def fs' setNames_def target_ok_def)
  then show "exposes I fs'"
    using assms(1) old keep by (auto simp: exposes_def fs' setNames_def)
  have "names fs \<in> set (onDisk fs)" using assms(1) by (simp add: exposes_def)
  then show "unlinked n fs'" using old by (auto simp: unlinked_def fs' setNames_def)
  show "names fs' (Temp n) = Some n" "content fs' n = []" by (simp_all add: fs' setNames_def)
qed

lemma CreateTemp_failed:
  "os_CreateTemp fs = (Inl e, fs') \<Longrightarrow> exposes I fs \<Longrightarrow> exposes I fs'"
  by (auto simp: os_CreateTemp_def Let_def call_def split: if_splits)

text \<open>What a step on the temporary file of inode \<open>n\<close> keeps.\<close>

definition temp_step :: "nat \<Rightarrow> FS \<Rightarrow> FS \<Rightarrow> bool" where
  "temp_step n fs fs' \<longleftrightarrow> names fs' = names fs \<and> onDisk fs' = onDisk fs \<and> nextFile fs' = nextFile fs \<and>
     (\<forall>m. m \<noteq> n \<longrightarrow> content fs' m = content fs m \<and> synced fs' m = synced fs m)"

lemma temp_step_keeps:
  assumes "temp_step n fs fs'" and "unlinked n fs"
  shows "unlinked n fs'" and "exposes I fs \<Longrightarrow> exposes I fs'"
proof -
  show "unlinked n fs'" using assms by (simp add: temp_step_def unlinked_def)
  have "target_ok I fs' d" if "target_ok I fs d" "d Target \<noteq> Some n" for d
    using that assms(1) by (auto simp: temp_step_def target_ok_def split: option.splits)
  then show "exposes I fs \<Longrightarrow> exposes I fs'"
    using assms by (simp add: temp_step_def unlinked_def exposes_def)
qed

lemma temp_step_trans: "temp_step n a b \<Longrightarrow> temp_step n b c \<Longrightarrow> temp_step n a c"
  by (simp add: temp_step_def)

lemma temp_step_file:
  "file_Chmod n fs = (err, fs') \<Longrightarrow> temp_step n fs fs'"
  "file_Close n fs = (err, fs') \<Longrightarrow> temp_step n fs fs'"
  "file_Sync n fs = (err, fs') \<Longrightarrow> temp_step n fs fs'"
  "file_Write n bs fs = (err, fs') \<Longrightarrow> temp_step n fs fs'"
  by (auto simp: temp_step_def file_Chmod_def file_Close_def file_Sync_def file_Write_def writeContent_def
      call_def split: if_splits)

lemma writeTemp_ok:
  assumes "writeTemp n im fs = (err, fs')"
  shows "temp_step n fs fs'" and "err = None \<Longrightarrow> content fs n = [] \<Longrightarrow>
    content fs' n = EncodeImage im \<and> synced fs' n"
proof -
  obtain e1 f1 where 1: "file_Chmod n fs = (e1, f1)" by fastforce
  obtain e2 f2 where 2: "file_Write n (EncodeImage im) f1 = (e2, f2)" by fastforce
  obtain e3 f3 where 3: "file_Sync n f2 = (e3, f3)" by fastforce
  have steps: "temp_step n fs f1" "temp_step n fs f2" "temp_step n fs f3"
    using temp_step_file(1) [OF 1] temp_step_file(4) [OF 2] temp_step_file(3) [OF 3]
    by (blast intro: temp_step_trans)+
  have r: "closeTemp n (if e1 \<noteq> None then (e1, f1) else if e2 \<noteq> None then (e2, f2) else (e3, f3)) = (err, fs')"
    using assms 1 2 3 by (auto simp: writeTemp_def andThen_def split: option.splits)
  show "temp_step n fs fs'"
    using r steps [THEN temp_step_trans] temp_step_file(2)
    by (auto simp: closeTemp_def split: prod.splits if_splits)
  assume none: "err = None" and emp: "content fs n = []"
  then have oks: "e1 = None" "e2 = None" "e3 = None"
    using r by (auto simp: closeTemp_def split: prod.splits if_splits)
  obtain k where k: "fs' = f3\<lparr>calls := k\<rparr>" using r oks by (auto simp: closeTemp_def split: prod.splits)
  have "content f1 n = []" using 1 emp by auto
  then have "content f2 n = EncodeImage im"
    using 2 oks by (auto simp: file_Write_def writeContent_def call_def split: if_splits)
  then have "content f3 n = EncodeImage im" "synced f3 n"
    using 3 oks by (auto simp: file_Sync_def dest: call_None)
  then show "content fs' n = EncodeImage im \<and> synced fs' n" using k by simp
qed

lemma Rename_exposes:
  assumes "exposes I fs" and "unlinked n fs" and "names fs (Temp n) = Some n"
    and "content fs n = EncodeImage im" and "synced fs n" and "fits im"
    and "os_Rename (Temp n) Target fs = (err, fs')"
  shows "exposes (insert (Some im) I) fs'" and "err = None \<Longrightarrow> target_ok {Some im} fs' (names fs')"
proof -
  let ?fs = "setNames ((names fs)(Target := Some n, Temp n := None)) fs"
  have ex: "exposes (insert (Some im) I) fs" using assms(1) by (rule exposes_mono) auto
  have new: "target_ok {Some im} ?fs (names ?fs)" "target_ok (insert (Some im) I) ?fs (names ?fs)"
    using assms(2-6) by (auto simp: target_ok_def setNames_def unlinked_def)
  have "exposes (insert (Some im) I) ?fs"
    using ex new(2) by (simp add: exposes_def setNames_def)
  then show "exposes (insert (Some im) I) fs'"
    using assms(3,7) ex by (auto simp: os_Rename_def call_def split: if_splits)
  show "err = None \<Longrightarrow> target_ok {Some im} fs' (names fs')"
    using assms(3,7) new(1) by (auto simp: os_Rename_def dest!: call_None)
qed

lemma syncDirectory_exposes:
  assumes "exposes I fs" and "syncDirectory fs = (err, fs')"
  shows "exposes I fs'" and "err = None \<Longrightarrow> target_ok J fs (names fs) \<Longrightarrow> exposes J fs'"
proof -
  obtain e1 f1 where 1: "os_Open fs = (e1, f1)" by fastforce
  then obtain k where f1: "f1 = fs\<lparr>calls := k\<rparr>" by auto
  obtain e2 f2 where 2: "dir_Sync f1 = (e2, f2)" by fastforce
  obtain e3 f3 where 3: "dir_Close f2 = (e3, f3)" by fastforce
  then obtain j where f3: "f3 = f2\<lparr>calls := j\<rparr>" by auto
  have r: "(err, fs') = (if e1 \<noteq> None then (e1, f1) else if e2 \<noteq> None then (e2, f3) else (e3, f3))"
    using assms(2) 1 2 3 by (auto simp: syncDirectory_def split: option.splits)
  have "exposes I (fs\<lparr>onDisk := [names fs]\<rparr>)" using assms(1) by (simp add: exposes_def)
  then have "exposes I f2" using 2 assms(1) f1 by (auto simp: dir_Sync_def call_def split: if_splits)
  then show "exposes I fs'" using r f1 f3 assms(1) by (auto split: if_splits)
  assume "err = None" and J: "target_ok J fs (names fs)"
  then have "e2 = None" "fs' = f3" using r by (auto split: if_splits)
  then show "exposes J fs'"
    using 2 J f1 f3 by (auto simp: dir_Sync_def exposes_def dest!: call_None)
qed

lemma cleanup_exposes: "exposes I fs \<Longrightarrow> exposes I (cleanup ok n fs)"
proof -
  assume ex: "exposes I fs"
  obtain k where k: "snd (file_Close n fs) = fs\<lparr>calls := k\<rparr>"
    by (cases "file_Close n fs") auto
  have "exposes I (setNames ((names fs)(Temp n := None)) fs)" using ex by (rule exposes_setNames) simp
  then have "exposes I (setNames ((names fs)(Temp n := None)) (fs\<lparr>calls := k\<rparr>))"
    by (simp add: exposes_def setNames_def)
  then show ?thesis using ex k by (auto simp: cleanup_def Let_def os_Remove_def call_def)
qed

lemma Save_exposes:
  assumes ex: "exposes I fs" and im: "fits im" and sv: "Save im s fs = (err, s', fs')"
  shows "exposes (if err = None then {Some im} else insert (Some im) I) fs'"
proof -
  have keep: "exposes (insert (Some im) I) f" if "exposes I f" for f using that by (rule exposes_mono) auto
  obtain e1 f1 where 1: "os_MkdirAll fs = (e1, f1)" by fastforce
  then have ex1: "exposes I f1" using ex by auto
  obtain r2 f2 where 2: "os_CreateTemp f1 = (r2, f2)" by fastforce
  show ?thesis
  proof (cases "iLastIndex im < sLast s \<or> e1 \<noteq> None \<or> (\<exists>e. r2 = Inl e)")
    case True
    then show ?thesis
      using sv 1 2 ex ex1 keep CreateTemp_failed [OF _ ex1]
      by (auto simp: Save_def split: if_splits sum.splits option.splits)
  next
    case False
    then obtain n where n: "os_CreateTemp f1 = (Inr n, f2)" using 2 by (cases r2) auto
    note tmp = CreateTemp_ok [OF ex1 n]
    obtain e3 f3 where 3: "writeTemp n im f2 = (e3, f3)" by fastforce
    note w = writeTemp_ok [OF 3]
    have ex3: "exposes I f3" "unlinked n f3" "names f3 (Temp n) = Some n"
      using temp_step_keeps [OF w(1) tmp(2)] tmp w(1) by (auto simp: temp_step_def)
    obtain e4 f4 where 4: "os_Rename (Temp n) Target f3 = (e4, f4)" by fastforce
    obtain e5 f5 where 5: "syncDirectory f4 = (e5, f5)" by fastforce
    show ?thesis
    proof (cases "e3 = None")
      case True
      note ren = Rename_exposes [OF ex3 conjunct1 [OF w(2) [OF True tmp(4)]] conjunct2 [OF w(2) [OF True tmp(4)]] im 4]
      note syn = syncDirectory_exposes [OF ren(1) 5]
      have "Save im s fs = (if e4 \<noteq> None then (e4, s, cleanup False n f4) else if e5 \<noteq> None
          then (e5, s, cleanup False n f5) else (None, s\<lparr>sLast := iLastIndex im\<rparr>, cleanup True n f5))"
        using False True 1 n 3 4 5 by (auto simp: Save_def andThen_def split: option.splits)
      then show ?thesis
        using sv ren syn(1) syn(2) [of "{Some im}"] cleanup_exposes by (auto split: if_splits)
    next
      case fail: False
      then have "Save im s fs = (e3, s, cleanup False n f3)"
        using False 1 n 3 by (auto simp: Save_def andThen_def split: option.splits)
      then show ?thesis using sv fail keep cleanup_exposes [OF ex3(1)] by auto
    qed
  qed
qed

text \<open>What the store finds after a power failure.\<close>

definition opened :: "Image option \<Rightarrow> SnapStore \<times> Image" where
  "opened r = (case r of None \<Rightarrow> (\<lparr>sLast = 0\<rparr>, zero_Image) | Some im \<Rightarrow> (\<lparr>sLast = iLastIndex im\<rparr>, im))"

lemma OpenStore_powerFail:
  assumes "exposes I fs" and "d \<in> set (onDisk fs)"
  shows "\<exists>r fs'. r \<in> I \<and> OpenStore (powerFail d garbage fs) = (Inr (opened r), fs') \<and> exposes {r} fs'"
proof -
  let ?fs = "(powerFail d garbage fs)\<lparr>calls := 1\<rparr>"
  have ok: "target_ok I fs d" using assms by (simp add: exposes_def)
  have rd: "os_ReadFile Target (powerFail d garbage fs) =
      (Inr (map_option (\<lambda>n. if synced fs n then content fs n else garbage n) (d Target)), ?fs)"
    by (simp add: os_ReadFile_def call_def down_def powerFail_def)
  show ?thesis
  proof (cases "d Target")
    case None
    then have "exposes {None} ?fs" by (simp add: exposes_def target_ok_def powerFail_def)
    then show ?thesis using None ok rd by (auto simp: OpenStore_def opened_def target_ok_def)
  next
    case (Some n)
    then obtain im where im: "Some im \<in> I" "fits im" "content fs n = EncodeImage im" "synced fs n" "n < nextFile fs"
      using ok by (auto simp: target_ok_def)
    then have "exposes {Some im} ?fs" using Some by (simp add: exposes_def target_ok_def powerFail_def)
    then show ?thesis
      using Some im rd by (auto simp: OpenStore_def opened_def DecodeImage_EncodeImage intro!: exI [of _ "Some im"])
  qed
qed

text \<open>
  C29: Publication is atomic and durable. Whatever calls of the file system fail, and wherever power is
  lost during or after \<open>Save\<close>, the store reopens and finds the new image or one of those that could be
  found before, complete; once \<open>Save\<close> has returned without an error it finds the new image.
\<close>

theorem snapshot_save_atomic:
  assumes "exposes I fs" and "fits im" and "Save im s fs = (err, s', fs')" and "d \<in> set (onDisk fs')"
  shows "\<exists>r fs''. r \<in> (if err = None then {Some im} else insert (Some im) I) \<and>
    OpenStore (powerFail d garbage fs') = (Inr (opened r), fs'')"
  using OpenStore_powerFail [OF Save_exposes [OF assms(1-3)] assms(4), of garbage] by blast

text \<open>An empty directory whose sixth call is the last before the machine goes down.\<close>

definition empty_FS :: "nat option \<Rightarrow> FS" where
  "empty_FS die = \<lparr>names = \<lambda>_. None, onDisk = [\<lambda>_. None], content = \<lambda>_. [], synced = \<lambda>_. True,
     nextFile = 0, calls = 0, failing = \<lambda>_. False, partial = \<lambda>_. 0, dieAt = die\<rparr>"

lemma empty_FS_exposes: "exposes {None} (empty_FS die)"
  by (simp add: exposes_def target_ok_def empty_FS_def)

theorem snapshot_save_atomic_witness:
  "\<exists>err s' fs' r fs''. Save (zero_Image\<lparr>iLastIndex := 4\<rparr>) \<lparr>sLast = 0\<rparr> (empty_FS (Some 6)) = (err, s', fs') \<and>
     r \<in> {None, Some (zero_Image\<lparr>iLastIndex := 4\<rparr>)} \<and>
     OpenStore (powerFail (names fs') (\<lambda>_. [7]) fs') = (Inr (opened r), fs'')"
proof -
  let ?im = "zero_Image\<lparr>iLastIndex := 4\<rparr>"
  have im: "fits ?im" by (simp add: fits_def zero_Image_def)
  obtain err s' fs' where sv: "Save ?im \<lparr>sLast = 0\<rparr> (empty_FS (Some 6)) = (err, s', fs')"
    by (metis prod_cases3)
  have d: "names fs' \<in> set (onDisk fs')" using Save_exposes [OF empty_FS_exposes im sv] by (simp add: exposes_def)
  from snapshot_save_atomic [OF empty_FS_exposes im sv d, of "\<lambda>_. [7]"] sv show ?thesis
    by (auto split: if_splits)
qed

end
