(* ===== verification/Raft_Store.thy ===== *)
theory Raft_Store
  imports Raft_Wal Snapshot_Store
begin

text \<open>
  The complete persistence of a compacting node, \<^verbatim>\<open>storage/raftstore/store.go\<close>: the raft log of
  \<^verbatim>\<open>storage/raftwal\<close> and the snapshot file of \<^verbatim>\<open>storage/snapshot\<close> as one \<open>raft.StableStore\<close> that is
  also a \<open>raft.SnapshotStore\<close>. The directory of the snapshot file is part of the state.
\<close>

record Recovery =
  rvHard :: HardState
  rvSnapshot :: Snapshot
  rvSuffix :: "Entry list"

record 'd RaftStore =
  rsWal :: "'d RaftwalStore"
  rsSnap :: SnapStore
  rsPending :: Snapshot
  rsFS :: FS

definition toImage :: "Snapshot \<Rightarrow> Image" where
  "toImage snap = \<lparr>iLastIndex = sLastIndex snap, iLastTerm = sLastTerm snap, iState = sState snap,
     iOldVoters = sOldVoters snap, iNewVoters = sNewVoters snap\<rparr>"

definition fromImage :: "Image \<Rightarrow> Snapshot" where
  "fromImage im = \<lparr>sLastIndex = iLastIndex im, sLastTerm = iLastTerm im, sState = iState im,
     sOldVoters = iOldVoters im, sNewVoters = iNewVoters im\<rparr>"

text \<open>Discard the prefix a durable snapshot covers: compact where the log has its entry, reset otherwise.\<close>

definition discardPrefix ::
  "'d Device \<Rightarrow> u64 \<Rightarrow> u64 \<Rightarrow> 'd RaftwalStore \<Rightarrow> error option \<times> 'd RaftwalStore" where
  "discardPrefix D index lastTerm w =
     (case rw_Term index w of (term, present) \<Rightarrow>
        if present \<and> term = lastTerm then rw_CompactLog D index w else rw_ResetBase D index lastTerm w)"

text \<open>The compaction fence a crash left out.\<close>

definition completeFence :: "'d Device \<Rightarrow> Image \<Rightarrow> 'd RaftwalStore \<Rightarrow> error + 'd RaftwalStore" where
  "completeFence D im w =
     (case rw_StateWithBase w of (hard, base, entries) \<Rightarrow>
        if iLastIndex im > base then
          if iLastIndex im > base + of_nat (length entries) - 1
          then Inl (ErrSnapshotExceedsLog (iLastIndex im))
          else (case discardPrefix D (iLastIndex im) (iLastTerm im) w of
              (Some e, _) \<Rightarrow> Inl e | (None, w') \<Rightarrow> Inr w')
        else Inr w)"

definition raftstore_Open :: "'d Device \<Rightarrow> 'd \<Rightarrow> FS \<Rightarrow> error + ('d RaftStore \<times> Recovery)" where
  "raftstore_Open D device fs =
     (case OpenStore fs of
        (Inl e, _) \<Rightarrow> Inl e
      | (Inr (snapStore, im), fs1) \<Rightarrow>
          (case raftwal_Open D device of
             Inl e \<Rightarrow> Inl e
           | Inr w \<Rightarrow>
               (case rw_StateWithBase w of (_, base, _) \<Rightarrow>
                  if base > iLastIndex im then Inl (ErrBaseExceedsSnapshot base (iLastIndex im))
                  else (case completeFence D im w of
                      Inl e \<Rightarrow> Inl e
                    | Inr w' \<Rightarrow>
                        (case rw_StateWithBase w' of (hard, base', entries) \<Rightarrow>
                           if base' \<noteq> iLastIndex im then Inl (ErrBaseMismatch (iLastIndex im) base')
                           else Inr (\<lparr>rsWal = w', rsSnap = snapStore, rsPending = zero_Snapshot, rsFS = fs1\<rparr>,
                             \<lparr>rvHard = hard, rvSnapshot = fromImage im,
                              rvSuffix = (if length entries > 1 then tl entries else [])\<rparr>))))))"

definition rs_SaveHardState ::
  "'d Device \<Rightarrow> HardState \<Rightarrow> 'd RaftStore \<Rightarrow> error option \<times> 'd RaftStore" where
  "rs_SaveHardState D h s = (case rw_SaveHardState D h (rsWal s) of (err, w) \<Rightarrow> (err, s\<lparr>rsWal := w\<rparr>))"

definition rs_Append ::
  "'d Device \<Rightarrow> u64 \<Rightarrow> Entry \<Rightarrow> 'd RaftStore \<Rightarrow> error option \<times> 'd RaftStore" where
  "rs_Append D index entry s = (case rw_Append D index entry (rsWal s) of (err, w) \<Rightarrow> (err, s\<lparr>rsWal := w\<rparr>))"

definition rs_SaveSnapshot :: "Snapshot \<Rightarrow> 'd RaftStore \<Rightarrow> error option \<times> 'd RaftStore" where
  "rs_SaveSnapshot snap s =
     (case Save (toImage snap) (rsSnap s) (rsFS s) of
        (Some e, sn, fs) \<Rightarrow> (Some e, s\<lparr>rsSnap := sn, rsFS := fs\<rparr>)
      | (None, sn, fs) \<Rightarrow> (None, s\<lparr>rsSnap := sn, rsFS := fs, rsPending := snap\<rparr>))"

definition rs_CompactLog :: "'d Device \<Rightarrow> u64 \<Rightarrow> 'd RaftStore \<Rightarrow> error option \<times> 'd RaftStore" where
  "rs_CompactLog D index s =
     (if sLastIndex (rsPending s) \<noteq> index then (Some (ErrNoDurableSnapshot index), s)
      else case discardPrefix D index (sLastTerm (rsPending s)) (rsWal s) of
        (Some e, w) \<Rightarrow> (Some e, s\<lparr>rsWal := w\<rparr>)
      | (None, w) \<Rightarrow> (None, s\<lparr>rsWal := w, rsPending := zero_Snapshot\<rparr>))"

definition raftstore_ops :: "'d Device \<Rightarrow> 'd RaftStore StableStore" where
  "raftstore_ops D = \<lparr>SaveHardState = rs_SaveHardState D, AppendEntry = rs_Append D,
     asSnapshotStore = Some \<lparr>SaveSnapshot = rs_SaveSnapshot, CompactLog = rs_CompactLog D\<rparr>\<rparr>"

subsection \<open>The hard state across compaction and crashes\<close>

abbreviation rs_hard :: "'d RaftStore \<Rightarrow> HardState" where
  "rs_hard s \<equiv> rwHard (rsWal s)"

lemma discardPrefix_hard: "discardPrefix D i t w = (err, w') \<Longrightarrow> rwHard w' = rwHard w"
  by (auto simp: discardPrefix_def rw_CompactLog_def rw_ResetBase_def Let_def
      split: if_splits prod.splits option.splits)

lemma SaveSnapshot_wal: "rs_SaveSnapshot snap s = (err, s') \<Longrightarrow> rsWal s' = rsWal s"
  by (auto simp: rs_SaveSnapshot_def split: prod.splits option.splits)

lemma CompactLog_wal:
  "rs_CompactLog D i s = (err, s') \<Longrightarrow>
     rsWal s' = rsWal s \<or> (\<exists>e. discardPrefix D i (sLastTerm (rsPending s)) (rsWal s) = (e, rsWal s'))"
  by (auto simp: rs_CompactLog_def split: if_splits prod.splits option.splits)

interpretation raftstore: hard_store "raftstore_ops D" rs_hard for D
proof unfold_locales
  fix h s s'
  show "SaveHardState (raftstore_ops D) h s = (None, s') \<Longrightarrow> rs_hard s' = h \<and> hard_le (rs_hard s) h"
    using raftwal.save_ok [of D h "rsWal s"]
    by (auto simp: raftstore_ops_def raftwal_ops_def rs_SaveHardState_def split: prod.splits)
  show "SaveHardState (raftstore_ops D) h s = (Some e, s') \<Longrightarrow> rs_hard s' = rs_hard s" for e
    using raftwal.save_err [of D h "rsWal s"]
    by (auto simp: raftstore_ops_def raftwal_ops_def rs_SaveHardState_def split: prod.splits)
  show "AppendEntry (raftstore_ops D) i en s = (r, s') \<Longrightarrow> rs_hard s' = rs_hard s" for i en r
    using raftwal.append_hard [of D i en "rsWal s"]
    by (auto simp: raftstore_ops_def raftwal_ops_def rs_Append_def split: prod.splits)
  show "asSnapshotStore (raftstore_ops D) = Some SS \<Longrightarrow> SaveSnapshot SS sn s = (r, s') \<Longrightarrow>
      rs_hard s' = rs_hard s" for SS sn r
    using SaveSnapshot_wal [of sn s r s'] by (auto simp: raftstore_ops_def)
  show "asSnapshotStore (raftstore_ops D) = Some SS \<Longrightarrow> CompactLog SS i s = (r, s') \<Longrightarrow>
      rs_hard s' = rs_hard s" for SS i r
    using CompactLog_wal [of D i s r s'] by (auto simp: raftstore_ops_def dest: discardPrefix_hard)
qed

lemma rw_hard_ok_discardPrefix:
  "rw_hard_ok w \<Longrightarrow> discardPrefix memory_device i t w = (err, w') \<Longrightarrow> rw_hard_ok w'"
  by (auto simp: discardPrefix_def dest: rw_hard_ok_CompactLog rw_hard_ok_ResetBase split: if_splits prod.splits)

definition rs_hard_ok :: "MemoryDevice RaftStore \<Rightarrow> bool" where
  "rs_hard_ok s \<longleftrightarrow> rw_hard_ok (rsWal s)"

text \<open>
  Where power can be lost: between two operations; inside a write to the log, with its record appended and not
  synced; inside the publication of a snapshot, at any of its calls, any of which may also fail before.
\<close>

inductive rs_inside :: "MemoryDevice RaftStore \<Rightarrow> MemoryDevice RaftStore \<Rightarrow> bool" for s where
  inside_none: "rs_inside s s"
| inside_log: "rw_inside (rsWal s) w \<Longrightarrow> rs_inside s (s\<lparr>rsWal := w\<rparr>)"
| inside_save: "rs_SaveSnapshot snap (s\<lparr>rsFS := (rsFS s)\<lparr>dieAt := Some k, failing := F, partial := P\<rparr>\<rparr>) = (err, s1) \<Longrightarrow>
    rs_inside s s1"

text \<open>The machine comes up again; any later calls may fail again, and it may go down again.\<close>

definition reboot :: "(FileName \<Rightarrow> nat option) \<Rightarrow> (nat \<Rightarrow> bytes) \<Rightarrow> (nat \<Rightarrow> bool) \<Rightarrow> (nat \<Rightarrow> nat) \<Rightarrow> nat option \<Rightarrow>
    FS \<Rightarrow> FS" where
  "reboot d garbage F P K fs = (powerFail d garbage fs)\<lparr>failing := F, partial := P, dieAt := K\<rparr>"

text \<open>
  \<open>rs_lost s dev fs\<close>: what a loss of power at \<open>s\<close> can leave on the two devices. It may be lost again while the
  store is being opened: before the fence is written, or inside that write.
\<close>

inductive rs_lost :: "MemoryDevice RaftStore \<Rightarrow> MemoryDevice \<Rightarrow> FS \<Rightarrow> bool" for s where
  lost: "rs_inside s s1 \<Longrightarrow> md_Crash k (lDevice (rwLog (rsWal s1))) = Inr dev \<Longrightarrow> d \<in> set (onDisk (rsFS s1)) \<Longrightarrow>
    rs_lost s dev (reboot d garbage F P K (rsFS s1))"
| lost_again: "rs_lost s dev fs \<Longrightarrow> OpenStore fs = (Inr (sn, im), fs1) \<Longrightarrow> raftwal_Open memory_device dev = Inr w \<Longrightarrow>
    w1 = w \<or> rw_inside_op (OpCompact (iLastIndex im)) w w1 \<or> rw_inside_op (OpReset (iLastIndex im) (iLastTerm im)) w w1 \<Longrightarrow>
    md_Crash k (lDevice (rwLog w1)) = Inr dev' \<Longrightarrow> d \<in> set (onDisk fs1) \<Longrightarrow>
    rs_lost s dev' (reboot d garbage F P K fs1)"

text \<open>\<open>rs_crash s s'\<close>: power is lost while the store is \<open>s\<close>, and opening it in the end gives \<open>s'\<close>.\<close>

definition rs_crash :: "MemoryDevice RaftStore \<Rightarrow> MemoryDevice RaftStore \<Rightarrow> bool" where
  "rs_crash s s' \<longleftrightarrow> (\<exists>dev fs rec. rs_lost s dev fs \<and> raftstore_Open memory_device dev fs = Inr (s', rec))"

lemma completeFence_wal:
  "completeFence D im w = Inr w' \<Longrightarrow> w' = w \<or> (\<exists>i t. discardPrefix D i t w = (None, w'))"
  by (auto simp: completeFence_def rw_StateWithBase_def split: prod.splits if_splits option.splits)

lemma raftstore_Open_wal:
  assumes "raftstore_Open D dev fs = Inr (s', rec)"
  shows "\<exists>w im. raftwal_Open D dev = Inr w \<and> completeFence D im w = Inr (rsWal s')"
proof -
  obtain sn im fs1 where o: "OpenStore fs = (Inr (sn, im), fs1)"
    using assms by (auto simp: raftstore_Open_def split: sum.splits prod.splits)
  obtain w where w: "raftwal_Open D dev = Inr w"
    using assms o by (auto simp: raftstore_Open_def split: sum.splits)
  obtain w' where w': "completeFence D im w = Inr w'"
    using assms o w by (auto simp: raftstore_Open_def rw_StateWithBase_def split: sum.splits if_splits)
  moreover have "rsWal s' = w'"
    using assms o w w' by (auto simp: raftstore_Open_def rw_StateWithBase_def split: if_splits)
  ultimately show ?thesis using w by blast
qed

lemma rs_inside_wal: "rs_inside s s1 \<Longrightarrow> rw_inside (rsWal s) (rsWal s1)"
  by (induction rule: rs_inside.induct) (auto simp: rw_inside_def dest: SaveSnapshot_wal)

lemma rs_lost_hard:
  assumes "rs_lost s dev fs" and "rs_hard_ok s"
  shows "raftwal_Open memory_device dev = Inr w' \<Longrightarrow> rw_hard_ok w' \<and> hard_le (rs_hard s) (rwHard w')"
  using assms
proof (induction arbitrary: w' rule: rs_lost.induct)
  case (lost s1 k dev d garbage F P K)
  have "rw_crash (rsWal s) w'"
    unfolding rw_crash_def using rs_inside_wal [OF lost.hyps(1)] lost.hyps(2) lost.prems(1) by blast
  then show ?case using rw_hard_ok_crash lost.prems(2) unfolding rs_hard_ok_def by blast
next
  case (lost_again dev fs sn im fs1 w w1 k dev' d garbage F P K)
  have w: "rw_hard_ok w" "hard_le (rs_hard s) (rwHard w)"
    using lost_again.IH [OF lost_again.hyps(3) lost_again.prems(2)] by blast+
  have "rw_inside w w1" using lost_again.hyps(4) by (auto simp: rw_inside_def)
  then have "rw_crash w w'" unfolding rw_crash_def using lost_again.hyps(5) lost_again.prems(1) by blast
  then show ?case using rw_hard_ok_crash [OF w(1)] w(2) hard_le_trans by blast
qed

lemma rs_crash_hard:
  assumes "rs_hard_ok s" and "rs_crash s s'"
  shows "rs_hard_ok s' \<and> hard_le (rs_hard s) (rs_hard s')"
proof -
  obtain dev fs rec where c: "rs_lost s dev fs" "raftstore_Open memory_device dev fs = Inr (s', rec)"
    using assms(2) by (auto simp: rs_crash_def)
  obtain w im where w: "raftwal_Open memory_device dev = Inr w" "completeFence memory_device im w = Inr (rsWal s')"
    using raftstore_Open_wal [OF c(2)] by blast
  have "rw_hard_ok w" "hard_le (rs_hard s) (rwHard w)" using rs_lost_hard [OF c(1) assms(1) w(1)] by blast+
  then show ?thesis
    using completeFence_wal [OF w(2)] rw_hard_ok_discardPrefix [of w] discardPrefix_hard [of memory_device]
    unfolding rs_hard_ok_def by metis
qed

interpretation raftstore_md: durable_store "raftstore_ops memory_device" rs_hard rs_hard_ok rs_crash
proof unfold_locales
  fix s s' :: "MemoryDevice RaftStore"
  show "rs_hard_ok s \<Longrightarrow> SaveHardState (raftstore_ops memory_device) h s = (r, s') \<Longrightarrow> rs_hard_ok s'" for h r
    by (auto simp: raftstore_ops_def rs_SaveHardState_def rs_hard_ok_def dest: rw_hard_ok_SaveHardState
        split: prod.splits)
  show "rs_hard_ok s \<Longrightarrow> AppendEntry (raftstore_ops memory_device) i e s = (r, s') \<Longrightarrow> rs_hard_ok s'" for i e r
    by (auto simp: raftstore_ops_def rs_Append_def rs_hard_ok_def dest: rw_hard_ok_Append split: prod.splits)
  show "rs_hard_ok s \<Longrightarrow> asSnapshotStore (raftstore_ops memory_device) = Some SS \<Longrightarrow>
      SaveSnapshot SS sn s = (r, s') \<Longrightarrow> rs_hard_ok s'" for SS sn r
    using SaveSnapshot_wal [of sn s r s'] by (auto simp: raftstore_ops_def rs_hard_ok_def)
  show "rs_hard_ok s \<Longrightarrow> asSnapshotStore (raftstore_ops memory_device) = Some SS \<Longrightarrow>
      CompactLog SS i s = (r, s') \<Longrightarrow> rs_hard_ok s'" for SS i r
    using CompactLog_wal [of memory_device i s r s']
    by (auto simp: raftstore_ops_def rs_hard_ok_def dest: rw_hard_ok_discardPrefix)
  show "rs_hard_ok s \<Longrightarrow> rs_crash s s' \<Longrightarrow> rs_hard_ok s' \<and> hard_le (rs_hard s) (rs_hard s')"
    by (rule rs_crash_hard)
qed

subsection \<open>Compaction across a crash\<close>

lemma raftstore_Open_intro:
  assumes "OpenStore fs = (Inr (sn, im), fs1)" and "raftwal_Open D dev = Inr w"
    and "rwBase w \<le> iLastIndex im" and "completeFence D im w = Inr w'" and "rwBase w' = iLastIndex im"
  shows "raftstore_Open D dev fs =
    Inr (\<lparr>rsWal = w', rsSnap = sn, rsPending = zero_Snapshot, rsFS = fs1\<rparr>,
      \<lparr>rvHard = rwHard w', rvSnapshot = fromImage im, rvSuffix = tl (rwData w')\<rparr>)"
proof -
  have "(if length (rwData w') > 1 then tl (rwData w') else []) = tl (rwData w')" by (cases "rwData w'") auto
  moreover have "\<not> rwBase w > iLastIndex im" using assms(3) by simp
  ultimately show ?thesis using assms(1,2,4,5) by (simp add: raftstore_Open_def rw_StateWithBase_def)
qed

text \<open>The log the fence leaves: the entries after the snapshot where its last entry is in the log, none otherwise.\<close>

definition suffixAfter :: "u64 \<Rightarrow> u64 \<Rightarrow> ('a) RaftwalState_scheme \<Rightarrow> Entry list" where
  "suffixAfter index term w =
     (let off = unat index - unat (rwBase w) in
      if index = rwBase w \<or> eTerm (rwData w ! off) = term then drop (off + 1) (rwData w) else [])"

lemma in_log:
  assumes "state_ok w" and "rwBase w \<le> i" and "unat i < unat (rwBase w) + length (rwData w)"
  shows "\<not> i > rwBase w + of_nat (length (rwData w)) - 1" "unat (i - rwBase w) = unat i - unat (rwBase w)"
    "unat i - unat (rwBase w) < length (rwData w)"
proof -
  have "unat (rwBase w + of_nat (length (rwData w)) - 1) = unat (rwBase w) + length (rwData w) - 1"
    using state_ok_last [OF assms(1)] by simp
  then show "\<not> i > rwBase w + of_nat (length (rwData w)) - 1" using assms(3) by (simp add: word_less_nat_alt)
  show "unat (i - rwBase w) = unat i - unat (rwBase w)" using assms(2) by (simp add: unat_sub)
  show "unat i - unat (rwBase w) < length (rwData w)"
    using assms(2,3) by (simp add: word_le_nat_alt)
qed

lemma completeFence_ok:
  assumes co: "md.coherent w rs" and base: "rwBase w \<le> iLastIndex im"
    and last: "unat (iLastIndex im) < unat (rwBase w) + length (rwData w)"
  shows "\<exists>w'. completeFence memory_device im w = Inr w' \<and> rwBase w' = iLastIndex im \<and> rwHard w' = rwHard w \<and>
    tl (rwData w') = suffixAfter (iLastIndex im) (iLastTerm im) w"
proof (cases "iLastIndex im = rwBase w")
  case True
  then show ?thesis by (simp add: completeFence_def rw_StateWithBase_def suffixAfter_def drop_Suc)
next
  case False
  let ?i = "iLastIndex im" and ?off = "unat (iLastIndex im) - unat (rwBase w)"
  let ?op = "if eTerm (rwData w ! ?off) = iLastTerm im then OpCompact ?i else OpReset ?i (iLastTerm im)"
  have ok: "state_ok w" using co by (simp add: md.coherent_def)
  note i = in_log [OF ok base last]
  have lt: "rwBase w < ?i" using False base by simp
  then have nlt: "\<not> ?i < rwBase w" by simp
  have rej: "rejects ?op w = None" using lt i(1) by auto
  have "opFits ?op w" using ok last by (auto simp: state_ok_def)
  then obtain w' where w': "runOp memory_device ?op w = (None, w')"
    and st: "RaftwalState.truncate w' = specOp ?op (RaftwalState.truncate w)"
    using md.runOp_total [OF co rej] md.runOp_coherent(2) [OF co] by blast
  have "discardPrefix memory_device ?i (iLastTerm im) w = runOp memory_device ?op w"
    using i(2) nlt i(1) by (simp add: discardPrefix_def rw_Term_def)
  then have cf: "completeFence memory_device im w = Inr w'"
    using i(1) lt w' by (simp add: completeFence_def rw_StateWithBase_def)
  have "rwBase w' = ?i \<and> rwHard w' = rwHard w \<and> tl (rwData w') = suffixAfter ?i (iLastTerm im) w"
    using st False by (auto simp: RaftwalState.defs suffixAfter_def Let_def drop_Suc tl_drop split: if_splits)
  then show ?thesis using cf by blast
qed

definition snapshot_of :: "Image option \<Rightarrow> Snapshot" where
  "snapshot_of r = fromImage (snd (opened r))"

lemma from_toImage [simp]: "fromImage (toImage snap) = snap"
  by (simp add: fromImage_def toImage_def)

lemma raftstore_reopen:
  assumes wal: "rw_reach (rsWal s)" and crash: "md_Crash k (lDevice (rwLog (rsWal s))) = Inr dev"
    and snap: "OpenStore fs = (Inr (opened r), fs1)"
    and range: "rwBase (rsWal s) \<le> iLastIndex (snd (opened r))"
      "unat (iLastIndex (snd (opened r))) < unat (rwBase (rsWal s)) + length (rwData (rsWal s))"
  shows "\<exists>s' rec. raftstore_Open memory_device dev fs = Inr (s', rec) \<and>
    rvHard rec = rs_hard s \<and> rvSnapshot rec = snapshot_of r \<and>
    rvSuffix rec = suffixAfter (sLastIndex (snapshot_of r)) (sLastTerm (snapshot_of r)) (rsWal s)"
proof -
  obtain rs where rs: "md.coherent (rsWal s) rs" using rw_reach_coherent [OF wal] by blast
  obtain w where w: "raftwal_Open memory_device dev = Inr w"
      "RaftwalState.truncate w = RaftwalState.truncate (rsWal s)" "md.coherent w rs"
    using crash_quiet [OF rs crash] by blast
  have same: "rwBase w = rwBase (rsWal s)" "rwData w = rwData (rsWal s)" "rwHard w = rs_hard s"
    using w(2) by (simp_all add: RaftwalState.defs)
  obtain sn im where im: "opened r = (sn, im)" by fastforce
  obtain w' where w': "completeFence memory_device im w = Inr w'" "rwBase w' = iLastIndex im" "rwHard w' = rwHard w"
      "tl (rwData w') = suffixAfter (iLastIndex im) (iLastTerm im) w"
    using completeFence_ok [OF w(3), of im] range im same by auto
  have "suffixAfter i t w = suffixAfter i t (rsWal s)" for i t by (simp only: suffixAfter_def same)
  then show ?thesis
    using raftstore_Open_intro [OF snap [unfolded im] w(1) _ w'(1,2)] range(1) same im w'
    by (simp add: snapshot_of_def fromImage_def)
qed

text \<open>
  C31: A crash never loses more than it must while a snapshot is being taken. Save a snapshot of an index the
  log holds, let file-system calls fail as they may, and lose power before the log is compacted: the store
  opens again with the hard state unchanged, and either the old snapshot with the whole log, or the new
  snapshot with exactly the entries after it; the new one if \<open>SaveSnapshot\<close> had returned without an error.
\<close>

theorem raftstore_snapshot_crash_safe:
  assumes "rw_reach (rsWal s)" and "exposes {r} (rsFS s)" and "rwBase (rsWal s) = sLastIndex (snapshot_of r)"
    and "rwBase (rsWal s) \<le> sLastIndex snap"
    and "unat (sLastIndex snap) < unat (rwBase (rsWal s)) + length (rwData (rsWal s))"
    and "fits (toImage snap)" and "rs_SaveSnapshot snap s = (err, s1)"
    and "d \<in> set (onDisk (rsFS s1))" and "md_Crash k (lDevice (rwLog (rsWal s1))) = Inr dev"
  shows "\<exists>s' rec. raftstore_Open memory_device dev (powerFail d garbage (rsFS s1)) = Inr (s', rec) \<and>
    rvHard rec = rs_hard s \<and>
    (if err = None \<or> rvSnapshot rec = snap
     then rvSnapshot rec = snap \<and> rvSuffix rec = suffixAfter (sLastIndex snap) (sLastTerm snap) (rsWal s)
     else rvSnapshot rec = snapshot_of r \<and> rvSuffix rec = tl (rwData (rsWal s)))"
proof -
  obtain sn fs where sv: "Save (toImage snap) (rsSnap s) (rsFS s) = (err, sn, fs)" "rsFS s1 = fs"
    using assms(7) by (auto simp: rs_SaveSnapshot_def split: prod.splits option.splits)
  have ex: "exposes (if err = None then {Some (toImage snap)} else {Some (toImage snap), r}) fs"
    using Save_exposes [OF assms(2,6) sv(1)] by simp
  obtain r' fs' where r': "r' \<in> (if err = None then {Some (toImage snap)} else {Some (toImage snap), r})"
      "OpenStore (powerFail d garbage (rsFS s1)) = (Inr (opened r'), fs')"
    using OpenStore_powerFail [OF ex, of d garbage] assms(8) sv(2) by blast
  have w: "rsWal s1 = rsWal s" using SaveSnapshot_wal [OF assms(7)] .
  have new: "snapshot_of (Some (toImage snap)) = snap" by (simp add: snapshot_of_def opened_def)
  have ne: "rwData (rsWal s) \<noteq> []"
    using rw_reach_coherent [OF assms(1)] by (auto simp: md.coherent_def state_ok_def)
  have idx: "iLastIndex (snd (opened q)) = sLastIndex (snapshot_of q)" for q
    by (simp add: snapshot_of_def fromImage_def)
  have range: "rwBase (rsWal s1) \<le> iLastIndex (snd (opened r'))"
      "unat (iLastIndex (snd (opened r'))) < unat (rwBase (rsWal s1)) + length (rwData (rsWal s1))"
    using r'(1) assms(3-5) ne new unfolding idx w by (auto split: if_splits)
  have wal: "rw_reach (rsWal s1)" using assms(1) w by simp
  obtain s' rec where rec: "raftstore_Open memory_device dev (powerFail d garbage (rsFS s1)) = Inr (s', rec)"
      "rvHard rec = rs_hard s" "rvSnapshot rec = snapshot_of r'"
      "rvSuffix rec = suffixAfter (sLastIndex (snapshot_of r')) (sLastTerm (snapshot_of r')) (rsWal s)"
    using raftstore_reopen [OF wal assms(9) r'(2) range] unfolding w by blast
  have old: "suffixAfter (sLastIndex (snapshot_of r)) t (rsWal s) = tl (rwData (rsWal s))" for t
    using assms(3) by (simp add: suffixAfter_def drop_Suc)
  show ?thesis using rec r'(1) new old by (auto split: if_splits)
qed

definition sample_snap :: "u64 \<Rightarrow> Snapshot" where
  "sample_snap i = zero_Snapshot\<lparr>sLastIndex := i, sLastTerm := 1, sState := [7]\<rparr>"

definition fresh_raftstore :: "MemoryDevice RaftwalStore \<Rightarrow> nat option \<Rightarrow> MemoryDevice RaftStore" where
  "fresh_raftstore w die = \<lparr>rsWal = w, rsSnap = \<lparr>sLast = 0\<rparr>, rsPending = zero_Snapshot, rsFS = empty_FS die\<rparr>"

lemma fresh_raftstore_simps [simp]:
  "rsWal (fresh_raftstore w die) = w" "rsFS (fresh_raftstore w die) = empty_FS die"
  "rsSnap (fresh_raftstore w die) = \<lparr>sLast = 0\<rparr>"
  by (simp_all add: fresh_raftstore_def)

lemma fits_sample_snap: "fits (toImage (sample_snap i))"
  by (simp add: fits_def toImage_def sample_snap_def)

text \<open>A log with one entry, on a machine that goes down in the middle of the publication.\<close>

theorem raftstore_snapshot_crash_safe_witness:
  "\<exists>w err s1 dev s' rec. rw_reach w \<and> rs_SaveSnapshot (sample_snap 1) (fresh_raftstore w (Some 6)) = (err, s1) \<and>
     md_Crash 0 (lDevice (rwLog (rsWal s1))) = Inr dev \<and>
     raftstore_Open memory_device dev (powerFail (names (rsFS s1)) (\<lambda>_. [9]) (rsFS s1)) = Inr (s', rec) \<and>
     rvHard rec = zero_HardState"
proof -
  let ?op = "OpAppend 1 (zero_Entry\<lparr>eTerm := 1\<rparr>)" and ?snap = "sample_snap 1"
  obtain rs where rs: "md.coherent fresh_store rs" using rw_reach_coherent [OF fresh_store_reach] ..
  then obtain w where w: "runOp memory_device ?op fresh_store = (None, w)"
    using md.runOp_total [OF rs, of ?op] by (auto simp: empty_state_def)
  have fit: "opFits ?op fresh_store" by (simp add: empty_state_def)
  have "RaftwalState.truncate w = specOp ?op empty_state"
    using md.runOp_coherent(2) [OF rs fit w] by simp
  then have st: "rwBase w = 0" "length (rwData w) = 2" "rwHard w = zero_HardState"
    by (simp_all add: RaftwalState.defs empty_state_def)
  have reach: "rw_reach w" by (rule rw_op [OF fresh_store_reach fit w])
  let ?s = "fresh_raftstore w (Some 6)"
  obtain err s1 where s1: "rs_SaveSnapshot ?snap ?s = (err, s1)" by fastforce
  have ex: "exposes {None} (rsFS ?s)" using empty_FS_exposes by simp
  have "exposes (if err = None then {Some (toImage ?snap)} else {Some (toImage ?snap), None}) (rsFS s1)"
    using Save_exposes [OF ex fits_sample_snap] s1
    by (fastforce simp: rs_SaveSnapshot_def split: prod.splits option.splits)
  then have d: "names (rsFS s1) \<in> set (onDisk (rsFS s1))" by (simp add: exposes_def)
  obtain dev where dev: "md_Crash 0 (lDevice (rwLog (rsWal s1))) = Inr dev" by (simp add: md_Crash_def)
  have base: "rwBase (rsWal ?s) = sLastIndex (snapshot_of None)"
    by (simp add: snapshot_of_def opened_def zero_Image_def fromImage_def st)
  have range: "rwBase (rsWal ?s) \<le> sLastIndex ?snap"
      "unat (sLastIndex ?snap) < unat (rwBase (rsWal ?s)) + length (rwData (rsWal ?s))"
    by (simp_all add: st sample_snap_def)
  have r: "rw_reach (rsWal ?s)" using reach by simp
  from raftstore_snapshot_crash_safe [OF r ex base range fits_sample_snap s1 d dev, of "\<lambda>_. [9]"] s1 dev reach st(3)
  show ?thesis by auto
qed

text \<open>
  C36: A snapshot installed from a peer may lie beyond the local log. If power is lost between
  \<open>SaveSnapshot\<close> and \<open>CompactLog\<close> then, the store refuses to open: the node cannot restart.
\<close>

theorem raftstore_install_crash_unopenable:
  assumes "rw_reach (rsWal s)" and "exposes {r} (rsFS s)"
    and "unat (rwBase (rsWal s)) + length (rwData (rsWal s)) \<le> unat (sLastIndex snap)"
    and "fits (toImage snap)" and "rs_SaveSnapshot snap s = (None, s1)"
    and "d \<in> set (onDisk (rsFS s1))" and "md_Crash k (lDevice (rwLog (rsWal s1))) = Inr dev"
  shows "raftstore_Open memory_device dev (powerFail d garbage (rsFS s1)) =
    Inl (ErrSnapshotExceedsLog (sLastIndex snap))"
proof -
  let ?im = "toImage snap"
  obtain sn fs where sv: "Save ?im (rsSnap s) (rsFS s) = (None, sn, fs)" "rsFS s1 = fs"
    using assms(5) by (auto simp: rs_SaveSnapshot_def split: prod.splits option.splits)
  obtain fs' where o: "OpenStore (powerFail d garbage (rsFS s1)) = (Inr (opened (Some ?im)), fs')"
    using OpenStore_powerFail [OF Save_exposes [OF assms(2,4) sv(1)], of d garbage] assms(6) sv(2) by auto
  have w: "rsWal s1 = rsWal s" using SaveSnapshot_wal [OF assms(5)] .
  obtain rs where rs: "md.coherent (rsWal s) rs" using rw_reach_coherent [OF assms(1)] by blast
  obtain w0 where w0: "raftwal_Open memory_device dev = Inr w0"
      "RaftwalState.truncate w0 = RaftwalState.truncate (rsWal s)"
    using crash_quiet [OF rs] assms(7) w by metis
  have same: "rwBase w0 = rwBase (rsWal s)" "rwData w0 = rwData (rsWal s)"
    using w0(2) by (simp_all add: RaftwalState.defs)
  have ok: "state_ok (rsWal s)" using rs by (simp add: md.coherent_def)
  have "unat (rwBase (rsWal s) + of_nat (length (rwData (rsWal s))) - 1) =
      unat (rwBase (rsWal s)) + length (rwData (rsWal s)) - 1"
    using state_ok_last [OF ok] by simp
  moreover have "0 < length (rwData (rsWal s))" using ok by (simp add: state_ok_def)
  ultimately have "sLastIndex snap > rwBase (rsWal s) + of_nat (length (rwData (rsWal s))) - 1"
    "sLastIndex snap > rwBase (rsWal s)"
    using assms(3) unfolding word_less_nat_alt by linarith+
  moreover have "iLastIndex ?im = sLastIndex snap" by (simp add: toImage_def)
  ultimately have "completeFence memory_device ?im w0 = Inl (ErrSnapshotExceedsLog (sLastIndex snap))"
      "\<not> rwBase w0 > iLastIndex ?im"
    by (simp_all add: completeFence_def rw_StateWithBase_def same)
  then show ?thesis using o w0(1) by (simp add: raftstore_Open_def opened_def rw_StateWithBase_def)
qed

theorem raftstore_install_crash_unopenable_witness:
  "\<exists>s1 dev. rs_SaveSnapshot (sample_snap 5) (fresh_raftstore fresh_store None) = (None, s1) \<and>
     md_Crash 0 (lDevice (rwLog (rsWal s1))) = Inr dev \<and>
     raftstore_Open memory_device dev (powerFail (names (rsFS s1)) (\<lambda>_. []) (rsFS s1)) =
       Inl (ErrSnapshotExceedsLog 5)"
proof -
  let ?s = "fresh_raftstore fresh_store None"
  obtain s1 where s1: "rs_SaveSnapshot (sample_snap 5) ?s = (None, s1)"
    by (simp add: rs_SaveSnapshot_def Save_def toImage_def os_MkdirAll_def os_CreateTemp_def call_def down_def
        empty_FS_def Let_def writeTemp_def closeTemp_def andThen_def file_Chmod_def file_Write_def
        file_Sync_def file_Close_def writeContent_def setNames_def os_Rename_def syncDirectory_def os_Open_def
        dir_Sync_def dir_Close_def)
  have ex: "exposes {None} (rsFS ?s)" using empty_FS_exposes by simp
  have "exposes {Some (toImage (sample_snap 5))} (rsFS s1)"
    using Save_exposes [OF ex fits_sample_snap] s1
    by (fastforce simp: rs_SaveSnapshot_def split: prod.splits option.splits)
  then have d: "names (rsFS s1) \<in> set (onDisk (rsFS s1))" by (simp add: exposes_def)
  obtain dev where dev: "md_Crash 0 (lDevice (rwLog (rsWal s1))) = Inr dev" by (simp add: md_Crash_def)
  have len: "unat (rwBase (rsWal ?s)) + length (rwData (rsWal ?s)) \<le> unat (sLastIndex (sample_snap 5))"
    by (simp add: sample_snap_def empty_state_def)
  have r: "rw_reach (rsWal ?s)" using fresh_store_reach by simp
  from raftstore_install_crash_unopenable [OF r ex len fits_sample_snap s1 d dev, of "\<lambda>_. []"] s1 dev
  show ?thesis by (auto simp: sample_snap_def)
qed

end
