(* ===== verification/Server_Spec.thy ===== *)
theory Server_Spec
  imports Raft_Node "HOL-Library.Multiset"
begin

text \<open>
  The declarative cluster file, \<^verbatim>\<open>server/spec.go\<close>, and the configuration of one server,
  \<^verbatim>\<open>server/server.go\<close>. The order in which Go ranges over the map of a node's addresses is an argument
  of \<open>Validate\<close>. What the code uses of the standard library is modelled: whether \<open>net.SplitHostPort\<close>
  accepts an address, and \<open>filepath.Clean\<close> with the separator \<open>/\<close>. The value of \<open>time.ParseDuration\<close>
  rests on floating-point arithmetic and is an argument, \<open>parseDuration\<close>. Reading the file and decoding
  the JSON are input and output and are left out.
\<close>

subsection \<open>The standard library\<close>

definition lastColon :: "string \<Rightarrow> nat option" where
  "lastColon s = (if CHR '':'' \<in> set s
     then Some (length s - 1 - length (takeWhile (\<lambda>c. c \<noteq> CHR '':'') (rev s))) else None)"

definition indexByte :: "char \<Rightarrow> string \<Rightarrow> nat option" where
  "indexByte c s = (if c \<in> set s then Some (length (takeWhile (\<lambda>x. x \<noteq> c) s)) else None)"

text \<open>\<open>net.SplitHostPort\<close> returns no error.\<close>

definition isHostPort :: "string \<Rightarrow> bool" where
  "isHostPort s =
     (case lastColon s of
        None \<Rightarrow> False
      | Some i \<Rightarrow>
          if hd s = CHR ''['' then
            (case indexByte (CHR '']'') s of
               None \<Rightarrow> False
             | Some e \<Rightarrow> e + 1 = i \<and> CHR ''['' \<notin> set (drop 1 s) \<and> CHR '']'' \<notin> set (drop (e + 1) s))
          else CHR '':'' \<notin> set (take i s) \<and> CHR ''['' \<notin> set s \<and> CHR '']'' \<notin> set s)"

fun splitOn :: "char \<Rightarrow> string \<Rightarrow> string list" where
  "splitOn c [] = [[]]"
| "splitOn c (x # xs) =
     (if x = c then [] # splitOn c xs
      else case splitOn c xs of [] \<Rightarrow> [[x]] | p # ps \<Rightarrow> (x # p) # ps)"

fun cleanParts :: "bool \<Rightarrow> string list \<Rightarrow> string list \<Rightarrow> string list" where
  "cleanParts rooted stack [] = rev stack"
| "cleanParts rooted stack (p # ps) =
     (if p = '''' \<or> p = ''.'' then cleanParts rooted stack ps
      else if p = ''..'' then
        (if stack \<noteq> [] \<and> hd stack \<noteq> ''..'' then cleanParts rooted (tl stack) ps
         else if \<not> rooted then cleanParts rooted (''..'' # stack) ps
         else cleanParts rooted stack ps)
      else cleanParts rooted (p # stack) ps)"

fun joinPath :: "string list \<Rightarrow> string" where
  "joinPath [] = ''''"
| "joinPath [p] = p"
| "joinPath (p # ps) = p @ ''/'' @ joinPath ps"

text \<open>\<open>filepath.Clean\<close>\<close>

definition Clean :: "string \<Rightarrow> string" where
  "Clean path =
     (let rooted = (path \<noteq> '''' \<and> hd path = CHR ''/'');
          out = joinPath (cleanParts rooted [] (splitOn (CHR ''/'') path))
      in if rooted then ''/'' @ out else if out = '''' then ''.'' else out)"

subsection \<open>Types\<close>

record ServerConfig =
  scID :: u32
  scPeers :: "u32 \<Rightarrow> string option"
  scPeerAddress :: string
  scClientAddress :: string
  scHTTPAddress :: string
  scDataDir :: string
  scElectionTicks :: u64
  scTickInterval :: int
  scQueueCapacity :: int
  scRequestTimeout :: int
  scSnapshotEntries :: u64

record SpecNode =
  snID :: u32
  snPeer :: string
  snClient :: string
  snHTTP :: string
  snDataDir :: string

record Spec =
  spName :: string
  spNodes :: "SpecNode list"
  spElectionTicks :: u64
  spTickInterval :: string
  spQueueCapacity :: int
  spRequestTimeout :: string
  spSnapshotEntries :: u64

definition MaxNodeID :: u32 where "MaxNodeID = 64"

datatype Label = LPeer | LClient | LHTTP

datatype specError =
    SpecNoNodes
  | SpecNotDuration string string
  | SpecNotPositive string string
  | SpecQueueCapacity
  | SpecNodeID u32
  | SpecDuplicateID u32
  | SpecNoAddress u32 Label
  | SpecNotHostPort u32 Label string
  | SpecSharedAddress u32 u32 string
  | SpecNoDataDir u32
  | SpecSharedDataDir u32 u32 string
  | SpecNotDeclared u32

type_synonym durations = "string \<Rightarrow> int option"

definition parseOptionalDuration :: "durations \<Rightarrow> string \<Rightarrow> string \<Rightarrow> specError + int" where
  "parseOptionalDuration parseDuration field val =
     (if val = '''' then Inr 0
      else case parseDuration val of
        None \<Rightarrow> Inl (SpecNotDuration field val)
      | Some d \<Rightarrow> if d \<le> 0 then Inl (SpecNotPositive field val) else Inr d)"

definition tickInterval :: "durations \<Rightarrow> Spec \<Rightarrow> specError + int" where
  "tickInterval pd s = parseOptionalDuration pd ''tickInterval'' (spTickInterval s)"

definition requestTimeout :: "durations \<Rightarrow> Spec \<Rightarrow> specError + int" where
  "requestTimeout pd s = parseOptionalDuration pd ''requestTimeout'' (spRequestTimeout s)"

subsection \<open>Validate\<close>

primrec labelled :: "Label \<Rightarrow> SpecNode \<Rightarrow> string" where
  "labelled LPeer node = snPeer node"
| "labelled LClient node = snClient node"
| "labelled LHTTP node = snHTTP node"

fun checkAddresses ::
  "SpecNode \<Rightarrow> Label list \<Rightarrow> (string \<Rightarrow> u32 option) \<Rightarrow> specError + (string \<Rightarrow> u32 option)" where
  "checkAddresses node [] addresses = Inr addresses"
| "checkAddresses node (label # labels) addresses =
     (let address = labelled label node in
      if address = '''' then
        (if label = LHTTP then checkAddresses node labels addresses
         else Inl (SpecNoAddress (snID node) label))
      else if \<not> isHostPort address then Inl (SpecNotHostPort (snID node) label address)
      else case addresses address of
        Some other \<Rightarrow> Inl (SpecSharedAddress other (snID node) address)
      | None \<Rightarrow> checkAddresses node labels (addresses(address \<mapsto> snID node)))"

fun checkNodes :: "(u32 \<Rightarrow> Label list) \<Rightarrow> SpecNode list \<Rightarrow> (u32 \<Rightarrow> bool) \<Rightarrow> (string \<Rightarrow> u32 option) \<Rightarrow>
    (string \<Rightarrow> u32 option) \<Rightarrow> specError option" where
  "checkNodes order [] ids addresses dataDirs = None"
| "checkNodes order (node # nodes) ids addresses dataDirs =
     (if snID node < 1 \<or> snID node > MaxNodeID then Some (SpecNodeID (snID node))
      else if ids (snID node) then Some (SpecDuplicateID (snID node))
      else case checkAddresses node (order (snID node)) addresses of
        Inl e \<Rightarrow> Some e
      | Inr addresses' \<Rightarrow>
          if snDataDir node = '''' then Some (SpecNoDataDir (snID node))
          else
            let clean = Clean (snDataDir node) in
            case dataDirs clean of
              Some other \<Rightarrow> Some (SpecSharedDataDir other (snID node) clean)
            | None \<Rightarrow> checkNodes order nodes (ids(snID node := True)) addresses' (dataDirs(clean \<mapsto> snID node)))"

definition Validate :: "durations \<Rightarrow> (u32 \<Rightarrow> Label list) \<Rightarrow> Spec \<Rightarrow> specError option" where
  "Validate pd order s =
     (if length (spNodes s) = 0 then Some SpecNoNodes
      else case tickInterval pd s of
        Inl e \<Rightarrow> Some e
      | Inr _ \<Rightarrow>
          (case requestTimeout pd s of
             Inl e \<Rightarrow> Some e
           | Inr _ \<Rightarrow>
               if spQueueCapacity s < 0 then Some SpecQueueCapacity
               else checkNodes order (spNodes s) (\<lambda>_. False) Map.empty Map.empty))"

subsection \<open>ConfigFor\<close>

definition peersOf :: "u32 \<Rightarrow> SpecNode list \<Rightarrow> u32 \<Rightarrow> string option" where
  "peersOf nid nodes =
     foldl (\<lambda>peers node. if snID node \<noteq> nid then peers(snID node \<mapsto> snPeer node) else peers) Map.empty nodes"

definition specDefaults :: "ServerConfig \<Rightarrow> ServerConfig" where
  "specDefaults config = config\<lparr>
     scTickInterval := (if scTickInterval config = 0 then 50000000 else scTickInterval config),
     scQueueCapacity := (if scQueueCapacity config = 0 then 1024 else scQueueCapacity config),
     scRequestTimeout := (if scRequestTimeout config = 0 then 5000000000 else scRequestTimeout config),
     scSnapshotEntries := (if scSnapshotEntries config = 0 then 10000 else scSnapshotEntries config)\<rparr>"

definition ConfigFor ::
  "durations \<Rightarrow> (u32 \<Rightarrow> Label list) \<Rightarrow> Spec \<Rightarrow> u32 \<Rightarrow> specError + ServerConfig" where
  "ConfigFor pd order s nid =
     (case Validate pd order s of
        Some e \<Rightarrow> Inl e
      | None \<Rightarrow>
          (case find (\<lambda>node. snID node = nid) (spNodes s) of
             None \<Rightarrow> Inl (SpecNotDeclared nid)
           | Some self \<Rightarrow>
               (case tickInterval pd s of
                  Inl e \<Rightarrow> Inl e
                | Inr tick \<Rightarrow>
                    (case requestTimeout pd s of
                       Inl e \<Rightarrow> Inl e
                     | Inr timeout \<Rightarrow> Inr (specDefaults
                         \<lparr>scID = snID self, scPeers = peersOf nid (spNodes s), scPeerAddress = snPeer self,
                          scClientAddress = snClient self, scHTTPAddress = snHTTP self,
                          scDataDir = snDataDir self, scElectionTicks = spElectionTicks s,
                          scTickInterval = tick, scQueueCapacity = spQueueCapacity s,
                          scRequestTimeout = timeout, scSnapshotEntries = spSnapshotEntries s\<rparr>)))))"

subsection \<open>What a valid specification is\<close>

definition addressesOf :: "Label list \<Rightarrow> SpecNode \<Rightarrow> string list" where
  "addressesOf labels node = filter (\<lambda>a. a \<noteq> '''') (map (\<lambda>l. labelled l node) labels)"

definition goodNode :: "SpecNode \<Rightarrow> bool" where
  "goodNode node \<longleftrightarrow> valid_id (snID node) \<and> snPeer node \<noteq> '''' \<and> snClient node \<noteq> '''' \<and> snDataDir node \<noteq> '''' \<and>
     list_all isHostPort (addressesOf [LPeer, LClient, LHTTP] node)"

definition goodNodes :: "SpecNode list \<Rightarrow> bool" where
  "goodNodes nodes \<longleftrightarrow> list_all goodNode nodes \<and> distinct (map snID nodes) \<and>
     distinct (concat (map (addressesOf [LPeer, LClient, LHTTP]) nodes)) \<and>
     distinct (map (Clean \<circ> snDataDir) nodes)"

definition goodDuration :: "durations \<Rightarrow> string \<Rightarrow> bool" where
  "goodDuration pd val \<longleftrightarrow> val = '''' \<or> (\<exists>d. pd val = Some d \<and> 0 < d)"

definition goodSpec :: "durations \<Rightarrow> Spec \<Rightarrow> bool" where
  "goodSpec pd s \<longleftrightarrow> spNodes s \<noteq> [] \<and> goodDuration pd (spTickInterval s) \<and> goodDuration pd (spRequestTimeout s) \<and>
     0 \<le> spQueueCapacity s \<and> goodNodes (spNodes s)"

definition label_order :: "(u32 \<Rightarrow> Label list) \<Rightarrow> bool" where
  "label_order order \<longleftrightarrow> (\<forall>i. mset (order i) = {#LPeer, LClient, LHTTP#})"

lemma goodDuration_iff:
  "goodDuration pd val \<longleftrightarrow> (\<exists>d. parseOptionalDuration pd field val = Inr d)"
  by (auto simp: goodDuration_def parseOptionalDuration_def not_le split: option.splits)

lemma checkAddresses_ok:
  "(\<exists>a'. checkAddresses node labels addresses = Inr a') \<longleftrightarrow>
     (\<forall>l\<in>set labels. labelled l node = '''' \<longrightarrow> l = LHTTP) \<and>
     list_all isHostPort (addressesOf labels node) \<and> distinct (addressesOf labels node) \<and>
     set (addressesOf labels node) \<inter> dom addresses = {}"
  by (induction labels arbitrary: addresses) (auto simp: addressesOf_def Let_def split: option.splits)

lemma checkAddresses_dom:
  "checkAddresses node labels addresses = Inr a' \<Longrightarrow> dom a' = dom addresses \<union> set (addressesOf labels node)"
  by (induction labels arbitrary: addresses)
    (auto simp: addressesOf_def Let_def split: option.splits if_splits)

lemma addressesOf_mset:
  assumes "mset labels = {#LPeer, LClient, LHTTP#}"
  shows "mset (addressesOf labels node) = mset (addressesOf [LPeer, LClient, LHTTP] node)"
  unfolding addressesOf_def mset_filter mset_map assms by simp

lemma addresses_order:
  assumes "mset labels = {#LPeer, LClient, LHTTP#}"
  shows "set (addressesOf labels node) = set (addressesOf [LPeer, LClient, LHTTP] node)"
    "distinct (addressesOf labels node) = distinct (addressesOf [LPeer, LClient, LHTTP] node)"
    "set labels = {LPeer, LClient, LHTTP}"
  using addressesOf_mset [OF assms, of node] assms
  by (metis mset_eq_setD, metis mset_eq_imp_distinct_iff, metis set_mset_mset set_mset_add_mset_insert set_mset_empty)

lemma goodNodes_Cons:
  "goodNodes (node # nodes) \<longleftrightarrow> goodNode node \<and> goodNodes nodes \<and> snID node \<notin> snID ` set nodes \<and>
     distinct (addressesOf [LPeer, LClient, LHTTP] node) \<and>
     set (addressesOf [LPeer, LClient, LHTTP] node) \<inter> (\<Union>n\<in>set nodes. set (addressesOf [LPeer, LClient, LHTTP] n)) = {} \<and>
     Clean (snDataDir node) \<notin> (Clean \<circ> snDataDir) ` set nodes"
  by (auto simp: goodNodes_def)

lemma checkNodes_ok:
  assumes "label_order order"
  shows "checkNodes order nodes ids addresses dataDirs = None \<longleftrightarrow> goodNodes nodes \<and>
    (\<forall>node\<in>set nodes. \<not> ids (snID node) \<and> Clean (snDataDir node) \<notin> dom dataDirs \<and>
       set (addressesOf [LPeer, LClient, LHTTP] node) \<inter> dom addresses = {})"
proof (induction nodes arbitrary: ids addresses dataDirs)
  case (Cons node nodes)
  let ?as = "addressesOf [LPeer, LClient, LHTTP] node" and ?c = "Clean (snDataDir node)"
  have ord: "mset (order (snID node)) = {#LPeer, LClient, LHTTP#}" using assms by (simp add: label_order_def)
  note o = addresses_order(1,2) [OF ord, of node] addresses_order(3) [OF ord]
  have vid: "(snID node < 1 \<or> snID node > MaxNodeID) \<longleftrightarrow> \<not> valid_id (snID node)"
    by (auto simp: valid_id_def MaxNodeID_def not_le)
  have ok: "(\<exists>a'. checkAddresses node (order (snID node)) addresses = Inr a') \<longleftrightarrow>
      snPeer node \<noteq> '''' \<and> snClient node \<noteq> '''' \<and> list_all isHostPort ?as \<and> distinct ?as \<and>
      set ?as \<inter> dom addresses = {}"
    unfolding checkAddresses_ok list_all_iff o by auto
  show ?case
  proof (cases "\<exists>a'. checkAddresses node (order (snID node)) addresses = Inr a'")
    case False
    then have "\<not> (snPeer node \<noteq> '''' \<and> snClient node \<noteq> '''' \<and> list_all isHostPort ?as \<and> distinct ?as \<and>
      set ?as \<inter> dom addresses = {})" using ok by blast
    moreover obtain e where "checkAddresses node (order (snID node)) addresses = Inl e"
      using False by (metis obj_sumE)
    ultimately show ?thesis by (auto simp: goodNodes_def goodNode_def)
  next
    case True
    then obtain a' where a': "checkAddresses node (order (snID node)) addresses = Inr a'" by blast
    have da: "dom a' = dom addresses \<union> set ?as" using checkAddresses_dom [OF a'] o(1) by simp
    have good: "snPeer node \<noteq> ''''" "snClient node \<noteq> ''''" "list_all isHostPort ?as" "distinct ?as"
      "set ?as \<inter> dom addresses = {}" using True ok by blast+
    have step: "checkNodes order (node # nodes) ids addresses dataDirs = None \<longleftrightarrow> valid_id (snID node) \<and>
        \<not> ids (snID node) \<and> snDataDir node \<noteq> '''' \<and> ?c \<notin> dom dataDirs \<and>
        checkNodes order nodes (ids(snID node := True)) a' (dataDirs(?c \<mapsto> snID node)) = None"
      using vid a' by (auto simp: Let_def split: option.splits)
    have ids: "(\<forall>n\<in>set nodes. \<not> (ids(snID node := True)) (snID n)) \<longleftrightarrow>
        (\<forall>n\<in>set nodes. \<not> ids (snID n)) \<and> snID node \<notin> snID ` set nodes" by (auto simp: image_iff)
    have dirs: "(\<forall>n\<in>set nodes. Clean (snDataDir n) \<notin> dom (dataDirs(?c \<mapsto> snID node))) \<longleftrightarrow>
        (\<forall>n\<in>set nodes. Clean (snDataDir n) \<notin> dom dataDirs) \<and> ?c \<notin> (Clean \<circ> snDataDir) ` set nodes"
      by (auto simp: image_iff)
    have addr: "(\<forall>n\<in>set nodes. set (addressesOf [LPeer, LClient, LHTTP] n) \<inter> dom a' = {}) \<longleftrightarrow>
        (\<forall>n\<in>set nodes. set (addressesOf [LPeer, LClient, LHTTP] n) \<inter> dom addresses = {}) \<and>
        set ?as \<inter> (\<Union>n\<in>set nodes. set (addressesOf [LPeer, LClient, LHTTP] n)) = {}"
      unfolding da by blast
    have node: "goodNode node \<longleftrightarrow> valid_id (snID node) \<and> snDataDir node \<noteq> ''''"
      using good by (auto simp: goodNode_def)
    show ?thesis
      unfolding step Cons.IH ball_conj_distrib ids dirs addr goodNodes_Cons node list.set ball_simps
      using good(4,5) by argo
  qed
qed (simp add: goodNodes_def)

lemma Validate_good:
  assumes "label_order order"
  shows "Validate pd order s = None \<longleftrightarrow> goodSpec pd s"
proof -
  have t: "goodDuration pd (spTickInterval s) \<longleftrightarrow> (\<exists>d. tickInterval pd s = Inr d)"
    unfolding tickInterval_def by (rule goodDuration_iff)
  have r: "goodDuration pd (spRequestTimeout s) \<longleftrightarrow> (\<exists>d. requestTimeout pd s = Inr d)"
    unfolding requestTimeout_def by (rule goodDuration_iff)
  show ?thesis
    unfolding Validate_def goodSpec_def t r
    by (auto simp: checkNodes_ok [OF assms] split: sum.splits)
qed

text \<open>
  C35: Validation accepts exactly the good specifications, in whatever order Go visits the addresses of
  a node: there is a node, identifiers are distinct and between 1 and 64, every node has peer and client
  addresses and a data directory, all addresses of the file are of the form host:port and distinct, no two
  nodes share a cleaned data directory, the durations are positive and the queue capacity is not negative.
\<close>

theorem Validate_iff_good:
  assumes "label_order order"
  shows "Validate pd order s = None \<longleftrightarrow> goodSpec pd s"
  using assms by (rule Validate_good)

definition three_nodes :: Spec where
  "three_nodes = \<lparr>spName = ''demo'', spNodes =
     [\<lparr>snID = 1, snPeer = ''a:1'', snClient = ''a:2'', snHTTP = '''', snDataDir = ''/d/1''\<rparr>,
      \<lparr>snID = 2, snPeer = ''b:1'', snClient = ''b:2'', snHTTP = ''b:3'', snDataDir = ''/d/./2/''\<rparr>,
      \<lparr>snID = 3, snPeer = ''[::1]:1'', snClient = ''c:2'', snHTTP = '''', snDataDir = ''/d/x/../3''\<rparr>],
     spElectionTicks = 0, spTickInterval = '''', spQueueCapacity = 0, spRequestTimeout = '''',
     spSnapshotEntries = 0\<rparr>"

lemma three_nodes_valid: "Validate (\<lambda>_. None) (\<lambda>_. [LPeer, LClient, LHTTP]) three_nodes = None"
  by code_simp

theorem Validate_iff_good_witness:
  "Validate (\<lambda>_. None) (\<lambda>_. [LHTTP, LClient, LPeer]) three_nodes = None \<and> goodSpec (\<lambda>_. None) three_nodes"
proof -
  have o: "label_order (\<lambda>_. [LHTTP, LClient, LPeer])" by (simp add: label_order_def)
  have "Validate (\<lambda>_. None) (\<lambda>_. [LHTTP, LClient, LPeer]) three_nodes = None" by code_simp
  then show ?thesis using Validate_iff_good [OF o] by blast
qed

subsection \<open>The configurations of one file\<close>

lemma peersOf_eq:
  assumes "distinct (map snID nodes)"
  shows "peersOf nid nodes j =
    (if j = nid then None else map_option snPeer (find (\<lambda>node. snID node = j) nodes))"
proof -
  have "foldl (\<lambda>peers node. if snID node \<noteq> nid then peers(snID node \<mapsto> snPeer node) else peers) m nodes j =
      (if j = nid then m j else case find (\<lambda>node. snID node = j) nodes of None \<Rightarrow> m j | Some n \<Rightarrow> Some (snPeer n))" for m
    using assms
  proof (induction nodes arbitrary: m)
    case (Cons a nodes)
    have "find (\<lambda>node. snID node = snID a) nodes = None"
      using Cons.prems by (auto simp: find_None_iff image_iff)
    then show ?case using Cons by (auto split: option.splits)
  qed simp
  from this [of Map.empty] show ?thesis by (auto simp: peersOf_def split: option.splits)
qed

lemma find_id:
  assumes "distinct (map snID nodes)" and "n \<in> set nodes"
  shows "find (\<lambda>node. snID node = snID n) nodes = Some n"
  using assms by (induction nodes) (auto simp: image_iff)

lemma seenVoters_total:
  assumes "list_all valid_id ps" and "distinct ps" and "\<forall>p\<in>set ps. idx p \<notin> bits_of seen"
  shows "seenVoters ps seen \<noteq> None"
  using assms
proof (induction ps arbitrary: seen)
  case (Cons p ps)
  then obtain b where b: "nodeBit p = Some b" "bits_of b = {idx p}" using nodeBit_Some by force
  have "seen AND b = 0" using b(2) Cons.prems(3) by (simp add: and_eq_0_iff)
  moreover have "\<forall>q\<in>set ps. idx q \<notin> bits_of (seen OR b)"
    using Cons.prems b(2) by (auto simp: bits_of_or list_all_iff idx_inject simp del: in_bits_of)
  ultimately show ?case using Cons b by simp
qed simp

lemma NewNodeWithStore_total:
  assumes "valid_id i" and "list_all valid_id ps" and "distinct ps" and "i \<notin> set ps"
  shows "\<exists>n. NewNodeWithStore i ps t st = Some n"
proof -
  obtain b where b: "nodeBit i = Some b" "bits_of b = {idx i}" using nodeBit_Some [OF assms(1)] by blast
  have "\<forall>p\<in>set ps. idx p \<notin> bits_of b"
    using assms b(2) by (auto simp: list_all_iff idx_inject simp del: in_bits_of)
  then have "seenVoters ps b \<noteq> None" using assms by (intro seenVoters_total)
  then show ?thesis using b by (auto simp: NewNodeWithStore_def)
qed

lemma duration_nonneg:
  "goodDuration pd val \<Longrightarrow> \<exists>d. parseOptionalDuration pd field val = Inr d \<and> 0 \<le> d"
  by (cases "val = ''''") (auto simp: goodDuration_def parseOptionalDuration_def)

lemma ConfigFor_member:
  assumes "Validate pd order s = None" and "goodSpec pd s" and n: "n \<in> set (spNodes s)"
  shows "\<exists>c. ConfigFor pd order s (snID n) = Inr c \<and> scID c = snID n \<and> scPeerAddress c = snPeer n \<and>
    scPeers c = peersOf (snID n) (spNodes s) \<and> 0 < scTickInterval c \<and> 0 < scQueueCapacity c \<and>
    0 < scRequestTimeout c \<and> scSnapshotEntries c \<noteq> 0"
proof -
  have d: "distinct (map snID (spNodes s))" using assms(2) by (simp add: goodSpec_def goodNodes_def)
  obtain t where t: "tickInterval pd s = Inr t" "0 \<le> t"
    using assms(2) duration_nonneg unfolding goodSpec_def tickInterval_def by blast
  obtain r where r: "requestTimeout pd s = Inr r" "0 \<le> r"
    using assms(2) duration_nonneg unfolding goodSpec_def requestTimeout_def by blast
  have "0 \<le> spQueueCapacity s" using assms(2) by (simp add: goodSpec_def)
  then show ?thesis using t r assms(1) find_id [OF d n] by (simp add: ConfigFor_def specDefaults_def)
qed

text \<open>
  C34: The processes of a valid file agree. Every declared node gets a configuration with positive
  intervals; it lists exactly the other declared nodes, each under the address on which that node's own
  configuration listens; and with these identifiers, in whatever order, the raft node is constructed
  without a panic.
\<close>

theorem ConfigFor_agree:
  assumes "label_order order" and "Validate pd order s = None"
    and "i \<in> snID ` set (spNodes s)" and "j \<in> snID ` set (spNodes s)"
  shows "\<exists>c c'. ConfigFor pd order s i = Inr c \<and> ConfigFor pd order s j = Inr c' \<and>
    scID c = i \<and> dom (scPeers c) = snID ` set (spNodes s) - {i} \<and> dom (scPeers c') = snID ` set (spNodes s) - {j} \<and>
    (if i = j then scPeers c j = None else scPeers c j = Some (scPeerAddress c')) \<and>
    0 < scTickInterval c \<and> 0 < scRequestTimeout c \<and>
    (set ps = dom (scPeers c) \<and> distinct ps \<longrightarrow> (\<exists>n. NewNodeWithStore (scID c) ps t st = Some n))"
proof -
  have good: "goodSpec pd s" using Validate_good [OF assms(1)] assms(2) by blast
  have d: "distinct (map snID (spNodes s))" using good by (simp add: goodSpec_def goodNodes_def)
  obtain ni where ni: "ni \<in> set (spNodes s)" "i = snID ni" using assms(3) by auto
  obtain nj where nj: "nj \<in> set (spNodes s)" "j = snID nj" using assms(4) by auto
  have dom: "dom (peersOf k (spNodes s)) = snID ` set (spNodes s) - {k}" for k
    using find_id [OF d] by (force simp: peersOf_eq [OF d] dom_def find_Some_iff split: if_splits)
  obtain c where c: "ConfigFor pd order s i = Inr c" "scID c = i" "scPeers c = peersOf i (spNodes s)"
      "0 < scTickInterval c" "0 < scRequestTimeout c"
    using ConfigFor_member [OF assms(2) good ni(1)] ni(2) by auto
  obtain c' where c': "ConfigFor pd order s j = Inr c'" "scPeerAddress c' = snPeer nj"
      "scPeers c' = peersOf j (spNodes s)"
    using ConfigFor_member [OF assms(2) good nj(1)] nj(2) by auto
  have valid: "valid_id k" if "k \<in> snID ` set (spNodes s)" for k
    using good that by (auto simp: goodSpec_def goodNodes_def goodNode_def list_all_iff)
  have new: "\<exists>n. NewNodeWithStore i ps t st = Some n" if "set ps = dom (scPeers c)" "distinct ps"
    using that valid assms(3) by (intro NewNodeWithStore_total) (auto simp: list_all_iff c(3) dom)
  show ?thesis
    using c c' new assms(3,4) find_id [OF d nj(1)] nj(2)
    by (intro exI [of _ c] exI [of _ c']) (auto simp: dom peersOf_eq [OF d])
qed

theorem ConfigFor_agree_witness:
  "\<exists>c c' n. ConfigFor (\<lambda>_. None) (\<lambda>_. [LPeer, LClient, LHTTP]) three_nodes 1 = Inr c \<and>
     ConfigFor (\<lambda>_. None) (\<lambda>_. [LPeer, LClient, LHTTP]) three_nodes 3 = Inr c' \<and>
     scPeers c 3 = Some (scPeerAddress c') \<and> NewNodeWithStore (scID c) [3, 2] 10 () = Some n"
proof -
  let ?pd = "\<lambda>_. None" and ?o = "\<lambda>_. [LPeer, LClient, LHTTP]"
  have o: "label_order ?o" by (simp add: label_order_def)
  have m: "1 \<in> snID ` set (spNodes three_nodes)" "3 \<in> snID ` set (spNodes three_nodes)"
    by (simp_all add: three_nodes_def)
  have c1: "scPeers c = peersOf 1 (spNodes three_nodes)" if "ConfigFor ?pd ?o three_nodes 1 = Inr c" for c
    using that by (auto simp: ConfigFor_def specDefaults_def split: option.splits sum.splits)
  have "peersOf 1 (spNodes three_nodes) = [2 \<mapsto> ''b:1'', 3 \<mapsto> ''[::1]:1'']"
    by (simp add: peersOf_def three_nodes_def)
  then have "dom (peersOf 1 (spNodes three_nodes)) = set [3, 2]" by auto
  with ConfigFor_agree [OF o three_nodes_valid m, of "[3, 2]" 10 "()"] c1 show ?thesis by force
qed

end
