(* ===== verification/Server.thy ===== *)
theory Server
  imports Server_Spec Raft_Store Protocol State_Machine
begin

text \<open>
  The server process, \<^verbatim>\<open>server/server.go\<close>: opening a node from its data directory, the event loop with
  its client requests, pending mutations and pending reads, the application of committed entries, and
  the handlers of peer and client connections. The channels of the event loop are bounded queues; a reply
  channel is a number, and what is sent on it is recorded in \<open>svSent\<close>. Messages handed to the goroutines
  that send them are recorded in \<open>svOut\<close>. The order in which Go ranges over the two maps of the machine is
  an argument, \<open>order\<close>. \<open>None\<close> is a panic of the raft node.
\<close>

subsection \<open>Types\<close>

record request =
  rqValue :: ClientRequest
  rqReply :: nat

type_synonym pendingKey = "u64 \<times> u64"

record pendingRead =
  prContext :: u64
  prRequest :: request

record Metrics =
  mxRequests :: u64
  mxCommitted :: u64
  mxDuplicates :: u64
  mxBusy :: u64
  mxPeerErrors :: u64

definition zero_Metrics :: Metrics where
  "zero_Metrics = \<lparr>mxRequests = 0, mxCommitted = 0, mxDuplicates = 0, mxBusy = 0, mxPeerErrors = 0\<rparr>"

record 's Server =
  svConfig :: ServerConfig
  svNode :: "'s Node"
  svMachine :: Machine
  svInbound :: "Message list"
  svRequests :: "request list"
  svPending :: "(pendingKey, nat list) fmap"
  svReads :: "pendingRead list"
  svMetrics :: Metrics
  svReady :: bool
  svCommit :: u64
  svSent :: "(nat \<times> ClientResponse) list"
  svOut :: "Message list"

type_synonym map_order = "Machine \<Rightarrow> u64 list \<times> u64 list"

subsection \<open>Open\<close>

definition serverDefaults :: "ServerConfig \<Rightarrow> ServerConfig" where
  "serverDefaults config = config\<lparr>
     scElectionTicks := (if scElectionTicks config = 0 then 10 + ucast (scID config) else scElectionTicks config),
     scTickInterval := (if scTickInterval config = 0 then 50000000 else scTickInterval config),
     scQueueCapacity := (if scQueueCapacity config = 0 then 1024 else scQueueCapacity config),
     scRequestTimeout := (if scRequestTimeout config = 0 then 5000000000 else scRequestTimeout config)\<rparr>"

text \<open>The machine replays the committed entries; the first error ends the opening.\<close>

fun replayMachine :: "Entry list \<Rightarrow> Machine \<Rightarrow> error + Machine" where
  "replayMachine [] m = Inr m"
| "replayMachine (e # es) m =
     (case sm_Apply e m of (Inl err, _) \<Rightarrow> Inl err | (Inr _, m') \<Rightarrow> replayMachine es m')"

definition recoverNode ::
  "ServerConfig \<Rightarrow> u32 list \<Rightarrow> 's \<Rightarrow> Recovery \<Rightarrow> ((error + Machine) \<times> 's Node) option" where
  "recoverNode config peerIDs store rv =
     (if sLastIndex (rvSnapshot rv) \<noteq> 0 then do {
        n \<leftarrow> NewRecoveredNodeWithSnapshot (scID config) peerIDs (scElectionTicks config) store
               (rvHard rv) (rvSnapshot rv) (rvSuffix rv);
        Some (if length (sState (rvSnapshot rv)) \<noteq> 0 then Restore (sState (rvSnapshot rv)) else Inr sm_New, n) }
      else do {
        n \<leftarrow> NewRecoveredNode (scID config) peerIDs (scElectionTicks config) store (rvHard rv)
               (zero_Entry # rvSuffix rv);
        Some (Inr sm_New, n) })"

text \<open>
  \<open>mkdir\<close> and \<open>device\<close> are what creating the directory and opening the file device return;
  \<open>peerIDs\<close> lists the keys of the peer map other than the node's own, in the order Go visits them.
\<close>

definition server_Open :: "'d Device \<Rightarrow> error option \<Rightarrow> error + 'd \<Rightarrow> FS \<Rightarrow> u32 list \<Rightarrow> ServerConfig \<Rightarrow>
    (error + 'd RaftStore Server) option" where
  "server_Open D mkdir device fs peerIDs config =
     (if scID config = 0 \<or> scPeerAddress config = '''' \<or> scClientAddress config = '''' \<or> scDataDir config = ''''
      then Some (Inl ErrIncompleteConfig)
      else let config = serverDefaults config in
      case mkdir of
        Some e \<Rightarrow> Some (Inl e)
      | None \<Rightarrow>
          (case device of
             Inl e \<Rightarrow> Some (Inl e)
           | Inr dev \<Rightarrow>
               (case raftstore_Open D dev fs of
                  Inl e \<Rightarrow> Some (Inl e)
                | Inr (store, rv) \<Rightarrow> do {
                    (restored, n) \<leftarrow> recoverNode config peerIDs store rv;
                    case restored of
                      Inl e \<Rightarrow> Some (Inl e)
                    | Inr machine \<Rightarrow> do {
                        (entries, n1) \<leftarrow> ApplyEntries [] n;
                        case replayMachine entries machine of
                          Inl e \<Rightarrow> Some (Inl e)
                        | Inr machine' \<Rightarrow> Some (Inr
                            \<lparr>svConfig = config, svNode = n1, svMachine = machine', svInbound = [],
                             svRequests = [], svPending = fmempty, svReads = [], svMetrics = zero_Metrics,
                             svReady = False, svCommit = 0, svSent = [], svOut = []\<rparr>) } })))"

subsection \<open>Requests\<close>

definition server_response :: "Status \<Rightarrow> ClientRequest \<Rightarrow> u64 \<Rightarrow> 's Server \<Rightarrow> ClientResponse" where
  "server_response status req val s =
     \<lparr>pStatus = status, pLeader = nLeader (svNode s), pRequestID = qRequestID req, pValue = val,
      pCommit = nCommit (svNode s)\<rparr>"

definition reply :: "request \<Rightarrow> Status \<Rightarrow> u64 \<Rightarrow> 's Server \<Rightarrow> 's Server" where
  "reply incoming status val s =
     s\<lparr>svSent := svSent s @ [(rqReply incoming, server_response status (rqValue incoming) val s)]\<rparr>"

definition addBusy :: "'s Server \<Rightarrow> 's Server" where
  "addBusy s = s\<lparr>svMetrics := (svMetrics s)\<lparr>mxBusy := mxBusy (svMetrics s) + 1\<rparr>\<rparr>"

definition readContext :: "ClientRequest \<Rightarrow> u64" where
  "readContext req = push_bit 32 (qClientID req) XOR qRequestID req"

definition handleGet :: "request \<Rightarrow> 's Server \<Rightarrow> 's Server option" where
  "handleGet incoming s =
     (if length (svReads s) \<noteq> 0 then Some (reply incoming StatusBusy 0 (addBusy s))
      else
        let contextID = readContext (rqValue incoming) in
        if contextID = 0 then Some (reply incoming StatusBusy 0 s)
        else do {
          (ok, n) \<leftarrow> StartReadIndex contextID (svNode s);
          let s1 = s\<lparr>svNode := n\<rparr>;
          Some (if \<not> ok then reply incoming StatusBusy 0 s1
                else s1\<lparr>svReads := svReads s1 @ [\<lparr>prContext = contextID, prRequest = incoming\<rparr>]\<rparr>) })"

definition handleMutation :: "'s StableStore \<Rightarrow> request \<Rightarrow> 's Server \<Rightarrow> 's Server option" where
  "handleMutation S incoming s =
     (let req = rqValue incoming; key = (qClientID req, qRequestID req) in
      if qClientID req = 0 \<or> qRequestID req = 0 then Some (reply incoming StatusInvalid 0 s)
      else case Cached (qClientID req) (qRequestID req) (svMachine s) of
        Inl _ \<Rightarrow> Some (reply incoming StatusInvalid 0 s)
      | Inr (result, True) \<Rightarrow>
          Some (reply incoming StatusOK (rsValue result)
            (s\<lparr>svMetrics := (svMetrics s)\<lparr>mxDuplicates := mxDuplicates (svMetrics s) + 1\<rparr>\<rparr>))
      | Inr (_, False) \<Rightarrow>
          (case fmlookup (svPending s) key of
             Some waiters \<Rightarrow> Some (s\<lparr>svPending := fmupd key (waiters @ [rqReply incoming]) (svPending s)\<rparr>)
           | None \<Rightarrow>
               if qOperation req \<noteq> ClientPut \<and> qOperation req \<noteq> ClientDelete
               then Some (reply incoming StatusInvalid 0 s)
               else do {
                 let operation = (if qOperation req = ClientPut then CommandPut else CommandDelete);
                 (ok, n) \<leftarrow> ProposeRequest S operation (qClientID req) (qRequestID req) (qKey req) (qValue req) (svNode s);
                 let s1 = s\<lparr>svNode := n\<rparr>;
                 Some (if \<not> ok then reply incoming StatusBusy 0 s1
                       else s1\<lparr>svPending := fmupd key [rqReply incoming] (svPending s1)\<rparr>) }))"

definition handleRequest :: "'s StableStore \<Rightarrow> request \<Rightarrow> 's Server \<Rightarrow> 's Server option" where
  "handleRequest S incoming s0 =
     (let s = s0\<lparr>svMetrics := (svMetrics s0)\<lparr>mxRequests := mxRequests (svMetrics s0) + 1\<rparr>\<rparr> in
      if qOperation (rqValue incoming) = ClientStatus then Some (reply incoming StatusOK 0 s)
      else if nState (svNode s) \<noteq> Leader then Some (reply incoming StatusNotLeader 0 s)
      else if qOperation (rqValue incoming) = ClientGet then handleGet incoming s
      else handleMutation S incoming s)"

subsection \<open>Applying committed entries\<close>

definition applyEntry :: "Entry \<Rightarrow> 's Server \<Rightarrow> 's Server" where
  "applyEntry entry s =
     (case sm_Apply entry (svMachine s) of (result, m) \<Rightarrow>
        let s1 = s\<lparr>svMachine := m\<rparr>;
            status = (case result of Inl _ \<Rightarrow> StatusInvalid | Inr _ \<Rightarrow> StatusOK);
            val = (case result of Inl _ \<Rightarrow> 0 | Inr r \<Rightarrow> rsValue r);
            key = (eClientID entry, eRequestID entry);
            s2 = (case fmlookup (svPending s1) key of
                None \<Rightarrow> s1
              | Some waiters \<Rightarrow>
                  let resp = \<lparr>pStatus = status, pLeader = nLeader (svNode s1), pRequestID = eRequestID entry,
                        pValue = val, pCommit = nCommit (svNode s1)\<rparr>
                  in s1\<lparr>svSent := svSent s1 @ map (\<lambda>w. (w, resp)) waiters, svPending := fmdrop key (svPending s1)\<rparr>)
        in s2\<lparr>svMetrics := (svMetrics s2)\<lparr>mxCommitted := mxCommitted (svMetrics s2) + 1\<rparr>\<rparr>)"

definition server_apply :: "'s StableStore \<Rightarrow> map_order \<Rightarrow> 's Server \<Rightarrow> 's Server option" where
  "server_apply S order s = do {
     (entries, n) \<leftarrow> ApplyEntries [] (svNode s);
     let s1 = fold applyEntry entries (s\<lparr>svNode := n\<rparr>);
     if scSnapshotEntries (svConfig s1) \<noteq> 0 \<and>
        nApplied (svNode s1) - nBaseIndex (svNode s1) \<ge> scSnapshotEntries (svConfig s1)
     then do {
       (_, n') \<leftarrow> Compact S (nApplied (svNode s1))
          (case order (svMachine s1) of (ks, cs) \<Rightarrow> sm_Snapshot ks cs (svMachine s1)) (svNode s1);
       Some (s1\<lparr>svNode := n'\<rparr>) }
     else Some s1 }"

definition completeRead :: "pendingRead \<Rightarrow> 's Server \<Rightarrow> 's Server" where
  "completeRead r s =
     (case ReadIndex (prContext r) (svNode s) of (index, ok) \<Rightarrow>
        if \<not> ok \<or> nApplied (svNode s) < index then s\<lparr>svReads := svReads s @ [r]\<rparr>
        else
          case sm_Get (qKey (rqValue (prRequest r))) (svMachine s) of (val, found) \<Rightarrow>
            reply (prRequest r) (if found then StatusOK else StatusNotFound) val s)"

definition completeReads :: "'s Server \<Rightarrow> 's Server" where
  "completeReads s = fold completeRead (svReads s) (s\<lparr>svReads := []\<rparr>)"

subsection \<open>The event loop\<close>

datatype loopEvent = EvMessage Message | EvRequest request | EvTick

definition dispatch :: "'s StableStore \<Rightarrow> loopEvent \<Rightarrow> 's Server \<Rightarrow> 's Server option" where
  "dispatch S ev s =
     (case ev of
        EvMessage m \<Rightarrow> map_option (\<lambda>n. s\<lparr>svNode := n\<rparr>) (Step S m (svNode s))
      | EvRequest incoming \<Rightarrow> handleRequest S incoming s
      | EvTick \<Rightarrow> map_option (\<lambda>n. s\<lparr>svNode := n\<rparr>) (Tick S (svNode s)))"

definition sendOutbound :: "'s Server \<Rightarrow> 's Server" where
  "sendOutbound s = (case Drain [] (svNode s) of (ms, n) \<Rightarrow> s\<lparr>svNode := n, svOut := svOut s @ ms\<rparr>)"

text \<open>One iteration of \<open>loop\<close>; the error is the one the loop returns, with a prefix.\<close>

definition loopStep ::
  "'s StableStore \<Rightarrow> map_order \<Rightarrow> loopEvent \<Rightarrow> 's Server \<Rightarrow> (error option \<times> 's Server) option" where
  "loopStep S order ev s = do {
     s1 \<leftarrow> dispatch S ev s;
     case StorageError (svNode s1) of
       Some e \<Rightarrow> Some (Some e, s1)
     | None \<Rightarrow> do {
         s2 \<leftarrow> server_apply S order (sendOutbound s1);
         let s3 = completeReads s2;
         Some (None, s3\<lparr>svCommit := nCommit (svNode s3)\<rparr>) } }"

subsection \<open>Connections\<close>

text \<open>A connection to the peer address, from which \<open>bs\<close> is read.\<close>

definition handlePeer :: "bytes \<Rightarrow> 's Server \<Rightarrow> 's Server" where
  "handlePeer bs s =
     (case fst (ReadFrame bs) of
        Inl _ \<Rightarrow> s
      | Inr (kind, payload) \<Rightarrow>
          if kind \<noteq> KindPeer then s
          else case DecodePeer payload of
            Inl _ \<Rightarrow> s
          | Inr m \<Rightarrow>
              if mTo m \<noteq> scID (svConfig s) then s
              else if int (length (svInbound s)) < scQueueCapacity (svConfig s)
              then s\<lparr>svInbound := svInbound s @ [m]\<rparr>
              else addBusy s)"

definition zero_response :: ClientResponse where
  "zero_response = \<lparr>pStatus = 0, pLeader = 0, pRequestID = 0, pValue = 0, pCommit = 0\<rparr>"

text \<open>
  A client connection: the request is queued with the fresh reply channel \<open>ch\<close> (\<open>Inr\<close>), or the handler
  ends at once, with or without a response (\<open>Inl\<close>).
\<close>

definition admitClient ::
  "bytes \<Rightarrow> nat \<Rightarrow> 's Server \<Rightarrow> (ClientResponse option + ClientRequest) \<times> 's Server" where
  "admitClient bs ch s =
     (case fst (ReadFrame bs) of
        Inl _ \<Rightarrow> (Inl None, s)
      | Inr (kind, payload) \<Rightarrow>
          if kind \<noteq> KindClientRequest then (Inl None, s)
          else case DecodeClientRequest payload of
            Inl _ \<Rightarrow> (Inl (Some (zero_response\<lparr>pStatus := StatusInvalid\<rparr>)), s)
          | Inr v \<Rightarrow>
              if int (length (svRequests s)) < scQueueCapacity (svConfig s)
              then (Inr v, s\<lparr>svRequests := svRequests s @ [\<lparr>rqValue = v, rqReply = ch\<rparr>]\<rparr>)
              else (Inl (Some (zero_response\<lparr>pStatus := StatusBusy, pRequestID := qRequestID v\<rparr>)), addBusy s))"

datatype clientOutcome = Replied ClientResponse | Cancelled | TimedOut

definition finishClient :: "ClientRequest \<Rightarrow> clientOutcome \<Rightarrow> ClientResponse option" where
  "finishClient v oc =
     (case oc of
        Replied r \<Rightarrow> Some r
      | Cancelled \<Rightarrow> None
      | TimedOut \<Rightarrow> Some (zero_response\<lparr>pStatus := StatusTimeout, pRequestID := qRequestID v\<rparr>))"

text \<open>\<open>dial\<close> gives the connection to an address, with the state of its writer.\<close>

definition sendPeer ::
  "(string \<Rightarrow> 'w option) \<Rightarrow> 'w writer \<Rightarrow> Message \<Rightarrow> 's Server \<Rightarrow> ('w option \<times> 's Server) option" where
  "sendPeer dial write m s =
     (let failed = s\<lparr>svMetrics := (svMetrics s)\<lparr>mxPeerErrors := mxPeerErrors (svMetrics s) + 1\<rparr>\<rparr> in
      case scPeers (svConfig s) (mTo m) of
        None \<Rightarrow> Some (None, s)
      | Some address \<Rightarrow>
          (case dial address of
             None \<Rightarrow> Some (None, failed)
           | Some w \<Rightarrow> do {
               (err, w') \<leftarrow> WriteFrame write KindPeer (EncodePeer m) w;
               Some (Some w', if err \<noteq> None then failed else s) }))"

definition health :: "'s Server \<Rightarrow> nat \<times> string" where
  "health s = (if \<not> svReady s then (503, ''unhealthy'' @ [CHR 0x0A]) else (200, ''ok'' @ [CHR 0x0A]))"

definition metricValues :: "'s Server \<Rightarrow> (string \<times> u64) list" where
  "metricValues s =
     [(''promtact_requests_total'', mxRequests (svMetrics s)),
      (''promtact_committed_total'', mxCommitted (svMetrics s)),
      (''promtact_duplicates_total'', mxDuplicates (svMetrics s)),
      (''promtact_busy_total'', mxBusy (svMetrics s)),
      (''promtact_peer_errors_total'', mxPeerErrors (svMetrics s)),
      (''promtact_commit_index'', svCommit s)]"

subsection \<open>Every request is answered once\<close>

text \<open>
  The reply channels the server holds: those it has sent on, those of the waiters of pending mutations, and
  those of pending reads.
\<close>

definition waiting :: "(pendingKey, nat list) fmap \<Rightarrow> nat multiset" where
  "waiting p = (\<Sum>k\<in>fmdom' p. mset (the (fmlookup p k)))"

definition tickets :: "'s Server \<Rightarrow> nat multiset" where
  "tickets s = mset (map fst (svSent s)) + waiting (svPending s) + mset (map (rqReply \<circ> prRequest) (svReads s))"

lemma waiting_empty [simp]: "waiting fmempty = {#}"
  by (simp add: waiting_def)

lemma waiting_drop: "fmlookup p k = Some ws \<Longrightarrow> waiting p = waiting (fmdrop k p) + mset ws"
proof -
  assume ws: "fmlookup p k = Some ws"
  then have k: "k \<in> fmdom' p" by (rule fmdom'I)
  have "waiting (fmdrop k p) = (\<Sum>j\<in>fmdom' p - {k}. mset (the (fmlookup p j)))"
    unfolding waiting_def by (rule sum.cong) auto
  then show ?thesis
    using sum.remove [OF finite_fmdom' k, of "\<lambda>j. mset (the (fmlookup p j))"] ws by (simp add: waiting_def)
qed

lemma waiting_upd: "waiting (fmupd k ws p) = waiting (fmdrop k p) + mset ws"
proof -
  have "waiting (fmupd k ws p) = waiting (fmdrop k (fmupd k ws p)) + mset ws"
    by (rule waiting_drop) simp
  moreover have "fmdrop k (fmupd k ws p) = fmdrop k p" by (rule fmap_ext) simp
  ultimately show ?thesis by simp
qed

lemma waiting_new: "fmlookup p k = None \<Longrightarrow> waiting (fmupd k ws p) = waiting p + mset ws"
  by (simp add: waiting_upd fmdrop_idle' fmdom'_notI)

lemma tickets_frame [simp]:
  "tickets (s\<lparr>svNode := n\<rparr>) = tickets s" "tickets (s\<lparr>svMetrics := x\<rparr>) = tickets s"
  "tickets (s\<lparr>svMachine := mc\<rparr>) = tickets s" "tickets (s\<lparr>svCommit := i\<rparr>) = tickets s"
  "tickets (s\<lparr>svOut := out\<rparr>) = tickets s"
  by (simp_all add: tickets_def)

lemma tickets_reply [simp]: "tickets (reply r st v s) = tickets s + {#rqReply r#}"
  by (simp add: tickets_def reply_def)

lemma tickets_addBusy [simp]: "tickets (addBusy s) = tickets s"
  by (simp add: addBusy_def)

lemma tickets_handleGet: "handleGet r s = Some s' \<Longrightarrow> tickets s' = tickets s + {#rqReply r#}"
  by (auto simp: handleGet_def Let_def bind_eq_Some_conv tickets_def [of "svReads_update f t" for f t]
      tickets_def [of s] split: if_splits)

lemma tickets_handleMutation:
  assumes "handleMutation S r s = Some s'"
  shows "tickets s' = tickets s + {#rqReply r#}"
proof -
  let ?k = "(qClientID (rqValue r), qRequestID (rqValue r))"
  have join: "tickets (s\<lparr>svPending := fmupd ?k (ws @ [rqReply r]) (svPending s)\<rparr>) = tickets s + {#rqReply r#}"
    if "fmlookup (svPending s) ?k = Some ws" for ws
    using waiting_drop [OF that] by (simp add: tickets_def waiting_upd)
  have new: "tickets (s\<lparr>svNode := n, svPending := fmupd ?k [rqReply r] (svPending s)\<rparr>) = tickets s + {#rqReply r#}"
    if "fmlookup (svPending s) ?k = None" for n
    using waiting_new [OF that] by (simp add: tickets_def)
  show ?thesis
    using assms join new
    by (auto simp: handleMutation_def Let_def bind_eq_Some_conv
        split: if_splits sum.splits prod.splits bool.splits option.splits)
qed

lemma tickets_handleRequest:
  "handleRequest S r s = Some s' \<Longrightarrow> tickets s' = tickets s + {#rqReply r#}"
  by (auto simp: handleRequest_def Let_def dest!: tickets_handleGet tickets_handleMutation split: if_splits)

lemma tickets_applyEntry [simp]: "tickets (applyEntry e s) = tickets s"
proof (cases "fmlookup (svPending s) (eClientID e, eRequestID e)")
  case None
  then show ?thesis by (simp add: applyEntry_def Let_def split: prod.split)
next
  case (Some ws)
  then show ?thesis
    using waiting_drop [OF Some]
    by (simp add: applyEntry_def Let_def tickets_def multiset.map_comp comp_def split: prod.split)
qed

lemma tickets_apply: "server_apply S order s = Some s' \<Longrightarrow> tickets s' = tickets s"
proof -
  have f: "tickets (fold applyEntry es t) = tickets t" for es t
    by (induction es arbitrary: t) simp_all
  show "server_apply S order s = Some s' \<Longrightarrow> tickets s' = tickets s"
    by (auto simp: server_apply_def Let_def bind_eq_Some_conv f split: if_splits)
qed

lemma tickets_completeReads [simp]: "tickets (completeReads s) = tickets s"
proof -
  have one: "tickets (completeRead r t) = tickets t + {#rqReply (prRequest r)#}" for r t
    by (simp add: completeRead_def split: prod.split) (simp add: tickets_def)
  have f: "tickets (fold completeRead rs t) = tickets t + mset (map (rqReply \<circ> prRequest) rs)" for rs t
    by (induction rs arbitrary: t) (simp_all add: one)
  show ?thesis unfolding completeReads_def f by (simp add: tickets_def)
qed

lemma tickets_loopStep:
  assumes "loopStep S order ev s = Some (err, s')"
  shows "tickets s' = tickets s + (case ev of EvRequest r \<Rightarrow> {#rqReply r#} | _ \<Rightarrow> {#})"
proof -
  obtain s1 where s1: "dispatch S ev s = Some s1" using assms by (auto simp: loopStep_def bind_eq_Some_conv)
  have t: "tickets s1 = tickets s + (case ev of EvRequest r \<Rightarrow> {#rqReply r#} | _ \<Rightarrow> {#})"
    using s1 by (auto simp: dispatch_def tickets_handleRequest split: loopEvent.splits)
  have out: "tickets (sendOutbound s1) = tickets s1" by (simp add: sendOutbound_def split: prod.split)
  show ?thesis
    using assms s1 t out
    by (auto simp: loopStep_def Let_def bind_eq_Some_conv dest!: tickets_apply split: option.splits)
qed

fun loopRun ::
  "'s StableStore \<Rightarrow> map_order \<Rightarrow> loopEvent list \<Rightarrow> 's Server \<Rightarrow> (error option \<times> 's Server) option" where
  "loopRun S order [] s = Some (None, s)"
| "loopRun S order (ev # evs) s =
     (case loopStep S order ev s of
        None \<Rightarrow> None
      | Some (Some e, s') \<Rightarrow> Some (Some e, s')
      | Some (None, s') \<Rightarrow> loopRun S order evs s')"

fun channels :: "loopEvent list \<Rightarrow> nat list" where
  "channels [] = []"
| "channels (EvRequest r # evs) = rqReply r # channels evs"
| "channels (_ # evs) = channels evs"

lemma tickets_loopRun:
  "loopRun S order evs s = Some (None, s') \<Longrightarrow> tickets s' = tickets s + mset (channels evs)"
proof (induction evs arbitrary: s)
  case (Cons ev evs)
  then obtain s1 where s1: "loopStep S order ev s = Some (None, s1)" "loopRun S order evs s1 = Some (None, s')"
    by (auto split: option.splits prod.splits)
  show ?case using Cons.IH [OF s1(2)] tickets_loopStep [OF s1(1)] by (cases ev) simp_all
qed simp

text \<open>
  C32: No request is lost and none is answered twice. Run the event loop of a server that holds no reply
  channel through any events in which each request brings its own channel: at the end each channel has
  been sent on once, or is held by exactly one pending mutation or pending read; so a send on a reply
  channel, which has room for one response, never blocks the loop.
\<close>

theorem requests_answered_once:
  assumes "tickets s = {#}" and "loopRun S order evs s = Some (None, s')" and "distinct (channels evs)"
  shows "distinct (map fst (svSent s') @ map (rqReply \<circ> prRequest) (svReads s')) \<and>
    mset (channels evs) = mset (map fst (svSent s')) + waiting (svPending s') +
      mset (map (rqReply \<circ> prRequest) (svReads s'))"
proof -
  have t: "mset (channels evs) = mset (map fst (svSent s')) + waiting (svPending s') +
      mset (map (rqReply \<circ> prRequest) (svReads s'))"
    using tickets_loopRun [OF assms(2)] assms(1) by (simp add: tickets_def)
  then have "mset (map fst (svSent s') @ map (rqReply \<circ> prRequest) (svReads s')) \<subseteq># mset (channels evs)"
    by (simp add: subset_mset.add_mono subset_eq_diff_conv)
  then have "distinct (map fst (svSent s') @ map (rqReply \<circ> prRequest) (svReads s'))"
    using assms(3) unfolding distinct_count_atmost_1
    by (metis count_mset_0_iff distinct_count_atmost_1 le_zero_eq mset_subset_eq_count set_mset_mset le_SucE One_nat_def)
  with t show ?thesis by blast
qed

lemma reply_frame [simp]:
  "svOut (reply r st v s) = svOut s" "svMachine (reply r st v s) = svMachine s"
  "svNode (reply r st v s) = svNode s" "svPending (reply r st v s) = svPending s"
  "svReads (reply r st v s) = svReads s"
  "\<exists>resp. svSent (reply r st v s) = svSent s @ [(rqReply r, resp)]"
  by (simp_all add: reply_def)

lemma addBusy_frame [simp]:
  "svOut (addBusy s) = svOut s" "svMachine (addBusy s) = svMachine s" "svSent (addBusy s) = svSent s"
  by (simp_all add: addBusy_def)

definition answers :: "nat \<Rightarrow> (nat \<times> ClientResponse) list \<Rightarrow> (nat \<times> ClientResponse) list \<Rightarrow> bool" where
  "answers ch sent sent' \<longleftrightarrow> sent' = sent \<or> (\<exists>resp. sent' = sent @ [(ch, resp)])"

lemma answers_simps [simp]:
  "answers ch sent sent" "svSent s = sent \<Longrightarrow> answers (rqReply r) sent (svSent (reply r st v s))"
  by (auto simp: answers_def)

lemma handleGet_frame:
  "handleGet r s = Some s' \<Longrightarrow> svOut s' = svOut s \<and> svMachine s' = svMachine s \<and> answers (rqReply r) (svSent s) (svSent s')"
  by (auto simp: handleGet_def Let_def bind_eq_Some_conv split: if_splits)

lemma handleMutation_frame:
  "handleMutation S r s = Some s' \<Longrightarrow>
     svOut s' = svOut s \<and> svMachine s' = svMachine s \<and> answers (rqReply r) (svSent s) (svSent s')"
  by (auto simp: handleMutation_def Let_def bind_eq_Some_conv
      split: if_splits sum.splits prod.splits bool.splits option.splits)

lemma handleRequest_frame:
  "handleRequest S r s = Some s' \<Longrightarrow>
     svOut s' = svOut s \<and> svMachine s' = svMachine s \<and> answers (rqReply r) (svSent s) (svSent s')"
  by (auto simp: handleRequest_def Let_def dest!: handleGet_frame handleMutation_frame split: if_splits)

lemma applyEntry_frame [simp]: "svOut (applyEntry e s) = svOut s" "svNode (applyEntry e s) = svNode s"
  by (simp_all add: applyEntry_def Let_def split: prod.split option.split)

lemma apply_out: "server_apply S order s = Some s' \<Longrightarrow> svOut s' = svOut s"
proof -
  have f: "svOut (fold applyEntry es t) = svOut t" for es t by (induction es arbitrary: t) simp_all
  show "server_apply S order s = Some s' \<Longrightarrow> svOut s' = svOut s"
    by (auto simp: server_apply_def Let_def bind_eq_Some_conv f split: if_splits)
qed

lemma completeReads_out [simp]: "svOut (completeReads s) = svOut s"
proof -
  have one: "svOut (completeRead r t) = svOut t" for r t by (simp add: completeRead_def split: prod.split)
  have f: "svOut (fold completeRead rs t) = svOut t" for rs t
    by (induction rs arbitrary: t) (simp_all add: one)
  show ?thesis unfolding completeReads_def f by simp
qed

text \<open>
  C33: Nothing leaves the server unless storage accepted it. When an iteration of the loop ends with a
  storage error, no message has been handed to the network, no entry has been applied, and no pending
  mutation or read has been answered; when it ends without one, the messages handed over are those the node
  produced once its state was stored.
\<close>

theorem storage_error_silent:
  assumes "loopStep S order ev s = Some (err, s')"
  shows "if err = None then \<exists>s1. dispatch S ev s = Some s1 \<and> StorageError (svNode s1) = None \<and>
       svOut s' = svOut s @ nOutbound (svNode s1)
    else svOut s' = svOut s \<and> svMachine s' = svMachine s \<and> StorageError (svNode s') = err \<and>
       (case ev of EvRequest r \<Rightarrow> svSent s' = svSent s \<or> (\<exists>resp. svSent s' = svSent s @ [(rqReply r, resp)])
        | _ \<Rightarrow> svSent s' = svSent s \<and> svPending s' = svPending s \<and> svReads s' = svReads s)"
proof -
  obtain s1 where s1: "dispatch S ev s = Some s1" using assms by (auto simp: loopStep_def bind_eq_Some_conv)
  have d: "svOut s1 = svOut s" "svMachine s1 = svMachine s"
    "case ev of EvRequest r \<Rightarrow> answers (rqReply r) (svSent s) (svSent s1)
     | _ \<Rightarrow> svSent s1 = svSent s \<and> svPending s1 = svPending s \<and> svReads s1 = svReads s"
    using s1 by (auto simp: dispatch_def dest: handleRequest_frame split: loopEvent.splits)
  show ?thesis
  proof (cases "StorageError (svNode s1)")
    case (Some e)
    then have "err = Some e" "s' = s1" using assms s1 by (simp_all add: loopStep_def)
    then show ?thesis using Some d by (auto simp: answers_def split: loopEvent.splits)
  next
    case None
    then obtain s2 where s2: "server_apply S order (sendOutbound s1) = Some s2" "err = None" "svOut s' = svOut s2"
      using assms s1 by (auto simp: loopStep_def Let_def bind_eq_Some_conv)
    have "svOut s2 = svOut s @ nOutbound (svNode s1)"
      using apply_out [OF s2(1)] d(1) by (simp add: sendOutbound_def Drain_def)
    then show ?thesis using None s1 s2 by auto
  qed
qed

subsection \<open>Runs of a two-node leader\<close>

definition demo_config :: ServerConfig where
  "demo_config = \<lparr>scID = 1, scPeers = [2 \<mapsto> ''b:1''], scPeerAddress = ''a:1'', scClientAddress = ''a:2'',
     scHTTPAddress = '''', scDataDir = ''d'', scElectionTicks = 1, scTickInterval = 1, scQueueCapacity = 8,
     scRequestTimeout = 1, scSnapshotEntries = 0\<rparr>"

definition demo_server :: "memoryStore Server" where
  "demo_server = \<lparr>svConfig = demo_config, svNode = the (NewNode 1 [2] 1), svMachine = sm_New, svInbound = [],
     svRequests = [], svPending = fmempty, svReads = [], svMetrics = zero_Metrics, svReady = True,
     svCommit = 0, svSent = [], svOut = []\<rparr>"

definition from2 :: "MessageType \<Rightarrow> Message" where
  "from2 ty = zero_Message\<lparr>mType := ty, mFrom := 2, mTo := 1, mTerm := 1\<rparr>"

text \<open>The events that make the server the leader of term 1, and requests of client 7.\<close>

definition elect :: "loopEvent list" where
  "elect = [EvTick, EvMessage (from2 MsgPreVoteResponse), EvMessage (from2 MsgRequestVoteResponse)]"

definition ack :: "u64 \<Rightarrow> loopEvent" where
  "ack i = EvMessage ((from2 MsgAppendResponse)\<lparr>mMatch := i\<rparr>)"

definition ask :: "ClientOp \<Rightarrow> u64 \<Rightarrow> nat \<Rightarrow> loopEvent" where
  "ask op rid ch = EvRequest \<lparr>rqValue = \<lparr>qOperation = op, qClientID = 7, qRequestID = rid, qKey = 1, qValue = rid\<rparr>,
     rqReply = ch\<rparr>"

definition demo_run :: "loopEvent list \<Rightarrow> (error option \<times> memoryStore Server) option" where
  "demo_run evs = loopRun memory_ops (\<lambda>_. ([], [])) evs demo_server"

lemma demo_tickets: "tickets demo_server = {#}"
  by (simp add: tickets_def demo_server_def)

theorem requests_answered_once_witness:
  "\<exists>s'. demo_run (elect @ [ask ClientPut 1 10, ask ClientGet 2 11, ack 2]) = Some (None, s') \<and>
     {#10, 11#} = mset (map fst (svSent s')) + waiting (svPending s') + mset (map (rqReply \<circ> prRequest) (svReads s'))"
proof -
  let ?evs = "elect @ [ask ClientPut 1 10, ask ClientGet 2 11, ack 2]"
  have "map_option fst (demo_run ?evs) = Some None" by code_simp
  then obtain s' where s': "demo_run ?evs = Some (None, s')" by auto
  have ch: "channels ?evs = [10, 11]" by code_simp
  show ?thesis
    using requests_answered_once [OF demo_tickets s' [unfolded demo_run_def]] s' unfolding ch by auto
qed

text \<open>A store on a disk that refuses every write of the hard state.\<close>

definition full_disk :: "memoryStore StableStore" where
  "full_disk = memory_ops\<lparr>SaveHardState := \<lambda>h s. (Some ErrStorage, s)\<rparr>"

theorem storage_error_silent_witness:
  "(\<exists>s1 s'. loopStep memory_ops (\<lambda>_. ([], [])) EvTick demo_server = Some (None, s') \<and>
      dispatch memory_ops EvTick demo_server = Some s1 \<and> svOut s' = nOutbound (svNode s1)) \<and>
   (\<exists>e s'. loopStep full_disk (\<lambda>_. ([], [])) (EvMessage (from2 MsgRequestVote)) demo_server = Some (Some e, s') \<and>
      svOut s' = [] \<and> svMachine s' = svMachine demo_server)"
proof
  have out: "svOut demo_server = []" by (simp add: demo_server_def)
  have "map_option fst (loopStep memory_ops (\<lambda>_. ([], [])) EvTick demo_server) = Some None" by code_simp
  then obtain s' where s': "loopStep memory_ops (\<lambda>_. ([], [])) EvTick demo_server = Some (None, s')" by auto
  then show "\<exists>s1 s'. loopStep memory_ops (\<lambda>_. ([], [])) EvTick demo_server = Some (None, s') \<and>
      dispatch memory_ops EvTick demo_server = Some s1 \<and> svOut s' = nOutbound (svNode s1)"
    using storage_error_silent [OF s'] out by auto
  have "map_option (\<lambda>r. fst r = None) (loopStep full_disk (\<lambda>_. ([], [])) (EvMessage (from2 MsgRequestVote)) demo_server) =
      Some False" by code_simp
  then obtain e t where t: "loopStep full_disk (\<lambda>_. ([], [])) (EvMessage (from2 MsgRequestVote)) demo_server = Some (Some e, t)"
    by auto
  then show "\<exists>e s'. loopStep full_disk (\<lambda>_. ([], [])) (EvMessage (from2 MsgRequestVote)) demo_server = Some (Some e, s') \<and>
      svOut s' = [] \<and> svMachine s' = svMachine demo_server"
    using storage_error_silent [OF t] out by auto
qed

text \<open>
  The loop tolerates an entry the machine refuses, \<open>Open\<close> does not. Two requests of one client, proposed
  in the order of request numbers 2, 1 before either is committed, are both appended; when they commit the
  first is acknowledged and the second answered as invalid. Replaying the same entries after a restart ends in
  \<open>ErrStaleRequest\<close>, with which \<open>Open\<close> fails.
\<close>

lemma svMachine_applyEntries: "svMachine (fold applyEntry es s) = applyAll es (svMachine s)"
proof -
  have one: "svMachine (applyEntry e t) = snd (sm_Apply e (svMachine t))" for e t
    by (simp add: applyEntry_def Let_def split: prod.split option.split)
  show ?thesis by (induction es arbitrary: s) (simp_all add: applyAll_def one)
qed

theorem stale_request_blocks_restart:
  "map_option (\<lambda>(err, s). (err, map (\<lambda>(ch, r). (ch, pStatus r)) (svSent s),
       replayMachine (filter (\<lambda>e. eKind e = EntryNormal) (tl (nLog (svNode s)))) sm_New))
     (demo_run (elect @ [ask ClientPut 2 10, ask ClientPut 1 11, ack 3])) =
   Some (None, [(10, StatusOK), (11, StatusInvalid)], Inl ErrStaleRequest)"
  by code_simp

text \<open>
  A read whose confirmation is lost is never repeated and never given up: later heartbeats carry no read
  context, the read stays pending, and every later read is answered as busy.
\<close>

theorem lost_read_blocks_reads:
  "map_option (\<lambda>(err, s). (err, length (svReads s), map (\<lambda>(ch, r). (ch, pStatus r)) (svSent s)))
     (demo_run (elect @ [ack 1, ask ClientGet 1 10, EvTick, ack 1, EvTick, ack 1, ask ClientGet 2 11, ask ClientGet 3 12])) =
   Some (None, 1, [(11, StatusBusy), (12, StatusBusy)])"
  by code_simp

text \<open>
  A snapshot installed from the leader moves the node past entries the machine has never seen, and the
  machine is not restored from it.
\<close>

theorem installed_snapshot_not_restored:
  "map_option (\<lambda>(err, s). (err, nApplied (svNode s), nSnapshot (svNode s) = zero_Snapshot, fmlookup (mcValues (svMachine s)) 1))
     (demo_run [EvMessage ((from2 MsgInstallSnapshot)\<lparr>mSnapshotIndex := 5, mSnapshotTerm := 1, mSnapshot := [1, 2, 3],
        mSnapshotOld := 3\<rparr>)]) =
   Some (None, 5, False, None)"
  by code_simp

end
