(* ===== verification/Faultdisk.thy ===== *)
theory Faultdisk
  imports Wal
begin

text \<open>
  The simulated disk that corrupts what it had acknowledged, \<^verbatim>\<open>storage/faultdisk/device.go\<close>. The random
  source of Go is a parameter: \<open>intn\<close> draws below a bound, \<open>source\<close> seeds. The slice \<open>previous\<close> may be
  nil, which is \<open>None\<close>. The mutex that guards every operation makes them atomic and is left out.
\<close>

subsection \<open>The device\<close>

definition OneMillion :: int where "OneMillion = 1000000"

record FaultConfig =
  fcSeed :: int
  fcBitFlip :: int
  fcMisdirect :: int
  fcPhantom :: int

datatype FaultKind = FaultBitFlip | FaultMisdirect | FaultPhantom

record Fault =
  fKind :: FaultKind
  fSource :: int
  fTarget :: int
  fOffset :: int

definition zero_Fault :: "FaultKind \<Rightarrow> Fault" where
  "zero_Fault k = \<lparr>fKind = k, fSource = 0, fTarget = 0, fOffset = 0\<rparr>"

record 'r FaultDevice =
  fdConfig :: FaultConfig
  fdRng :: 'r
  fdDurable :: bytes
  fdPrevious :: "bytes option"
  fdPending :: bytes
  fdFaults :: "Fault list"

type_synonym 'r draws = "int \<Rightarrow> 'r \<Rightarrow> int \<times> 'r"

definition fd_New :: "(int \<Rightarrow> 'r) \<Rightarrow> FaultConfig \<Rightarrow> error + 'r FaultDevice" where
  "fd_New source config =
     (if list_ex (\<lambda>rate. rate < 0 \<or> rate > OneMillion) [fcBitFlip config, fcMisdirect config, fcPhantom config]
      then Inl ErrProbability
      else Inr \<lparr>fdConfig = config, fdRng = source (fcSeed config), fdDurable = [], fdPrevious = None,
        fdPending = [], fdFaults = []\<rparr>)"

definition fd_Append :: "bytes \<Rightarrow> 'r FaultDevice \<Rightarrow> error option \<times> 'r FaultDevice" where
  "fd_Append bs d = (None, d\<lparr>fdPending := fdPending d @ bs\<rparr>)"

definition fd_Sync :: "'r FaultDevice \<Rightarrow> error option \<times> 'r FaultDevice" where
  "fd_Sync d = (None, d\<lparr>
     fdPrevious := (if fdPrevious d = None \<and> fdDurable d = [] then None else Some (fdDurable d)),
     fdDurable := fdDurable d @ fdPending d, fdPending := []\<rparr>)"

definition fd_DurableBytes :: "'r FaultDevice \<Rightarrow> bytes \<times> 'r FaultDevice" where
  "fd_DurableBytes d = (fdDurable d, d)"

definition fd_TruncateDurable :: "int \<Rightarrow> 'r FaultDevice \<Rightarrow> error option \<times> 'r FaultDevice" where
  "fd_TruncateDurable n d =
     (if n < 0 \<or> n > int (length (fdDurable d)) then (Some ErrInvalidTruncate, d)
      else (None, d\<lparr>fdDurable := take (nat n) (fdDurable d)\<rparr>))"

definition fd_Faults :: "'r FaultDevice \<Rightarrow> Fault list" where
  "fd_Faults d = fdFaults d"

definition hit :: "'r draws \<Rightarrow> int \<Rightarrow> 'r \<Rightarrow> bool \<times> 'r" where
  "hit intn rate rng =
     (if rate = OneMillion then (True, rng)
      else if rate \<noteq> 0 then (case intn OneMillion rng of (v, rng') \<Rightarrow> (v < rate, rng'))
      else (False, rng))"

definition flipBit :: "'r draws \<Rightarrow> int \<Rightarrow> bytes \<times> Fault list \<times> 'r \<Rightarrow> bytes \<times> Fault list \<times> 'r" where
  "flipBit intn rate = (\<lambda>(img, faults, rng).
     case hit intn rate rng of (h, rng1) \<Rightarrow>
       if h \<and> length img \<noteq> 0 then
         case intn (int (length img)) rng1 of (off, rng2) \<Rightarrow>
         case intn 8 rng2 of (k, rng3) \<Rightarrow>
           (img[nat off := img ! nat off XOR push_bit (nat k) 1],
            faults @ [(zero_Fault FaultBitFlip)\<lparr>fOffset := off\<rparr>], rng3)
       else (img, faults, rng1))"

definition misdirect :: "'r draws \<Rightarrow> int \<Rightarrow> bytes \<times> Fault list \<times> 'r \<Rightarrow> bytes \<times> Fault list \<times> 'r" where
  "misdirect intn rate = (\<lambda>(img, faults, rng).
     let records = length img div RecordSize in
     case hit intn rate rng of (h, rng1) \<Rightarrow>
       if h \<and> records \<ge> 2 then
         case intn (int records) rng1 of (src, rng2) \<Rightarrow>
         case intn (int records - 1) rng2 of (t, rng3) \<Rightarrow>
           let target = (if t \<ge> src then t + 1 else t);
               block = go_slice (nat src * RecordSize) ((nat src + 1) * RecordSize) img
           in (take (nat target * RecordSize) img @ block @ drop ((nat target + 1) * RecordSize) img,
               faults @ [(zero_Fault FaultMisdirect)\<lparr>fSource := src, fTarget := target\<rparr>], rng3)
       else (img, faults, rng1))"

definition phantom ::
  "'r draws \<Rightarrow> int \<Rightarrow> bytes option \<Rightarrow> bytes \<times> Fault list \<times> 'r \<Rightarrow> bytes \<times> Fault list \<times> 'r" where
  "phantom intn rate previous = (\<lambda>(img, faults, rng).
     case hit intn rate rng of (h, rng1) \<Rightarrow>
       case previous of
         Some old \<Rightarrow> if h then (old, faults @ [zero_Fault FaultPhantom], rng1) else (img, faults, rng1)
       | None \<Rightarrow> (img, faults, rng1))"

definition fd_Crash ::
  "'r draws \<Rightarrow> (int \<Rightarrow> 'r) \<Rightarrow> 'r FaultDevice \<Rightarrow> (error + 'r FaultDevice) \<times> 'r FaultDevice" where
  "fd_Crash intn source d =
     (let c = fdConfig d in
      case phantom intn (fcPhantom c) (fdPrevious d) (misdirect intn (fcMisdirect c)
          (flipBit intn (fcBitFlip c) (fdDurable d, [], fdRng d))) of
        (img, faults, rng) \<Rightarrow>
          (case fd_New source c of
             Inl e \<Rightarrow> Inl e
           | Inr rebooted \<Rightarrow> Inr (rebooted\<lparr>fdDurable := img, fdFaults := faults\<rparr>),
           d\<lparr>fdRng := rng\<rparr>))"

definition fault_device :: "'r FaultDevice Device" where
  "fault_device = \<lparr>dAppend = fd_Append, dSync = fd_Sync, dDurableBytes = fd_DurableBytes,
     dTruncateDurable = fd_TruncateDurable\<rparr>"

text \<open>Between crashes the disk is an honest one, so the log on it behaves as on any reliable device.\<close>

interpretation fd: reliable_device fault_device fdDurable fdPending
  by unfold_locales
    (auto simp: fault_device_def fd_Append_def fd_Sync_def fd_DurableBytes_def fd_TruncateDurable_def
      split: if_splits)

subsection \<open>What recovery notices\<close>

definition bad_block :: "bytes \<Rightarrow> nat \<Rightarrow> bool" where
  "bad_block img k \<longleftrightarrow> (case Decode (go_slice (k * 112) ((k + 1) * 112) img) of
     Inl _ \<Rightarrow> True | Inr r \<Rightarrow> rSequence r \<noteq> of_nat (k + 1))"

lemma recover_loop_bad:
  assumes "i \<le> j" and "j < i + left" and "bad_block img j"
  shows "\<exists>v e. recover_loop img i left acc = ([], v, Some e)"
  using assms
proof (induction left arbitrary: i acc)
  case (Suc left)
  show ?case
  proof (cases "i = j")
    case True
    then show ?thesis using Suc.prems(3) by (auto simp: bad_block_def RecordSize_def algebra_simps split: sum.splits)
  next
    case False
    then have "\<exists>v e. recover_loop img (i + 1) left acc' = ([], v, Some e)" for acc'
      using Suc.prems by (intro Suc.IH) auto
    then show ?thesis by (auto split: sum.splits)
  qed
qed simp

lemma Recover_bad: "k < length img div 112 \<Longrightarrow> bad_block img k \<Longrightarrow> \<exists>v e. Recover img = ([], v, Some e)"
  unfolding Recover_def RecordSize_def by (rule recover_loop_bad) auto

lemma flip_differs: "k < 8 \<Longrightarrow> (b :: u8) XOR push_bit k 1 \<noteq> b"
proof
  assume k: "k < 8" and "b XOR push_bit k 1 = b"
  then have "bit (b XOR push_bit k 1) k = bit b k" by simp
  then show False using k by (simp add: bit_simps)
qed

text \<open>A block of a corrupted image is the record it should be, or does not decode.\<close>

lemma flipped_block:
  assumes "k < length rs" and "i < length (log_image rs)" and "b \<noteq> log_image rs ! i"
  defines "blk \<equiv> go_slice (k * 112) ((k + 1) * 112) ((log_image rs)[i := b])"
  shows "if i div 112 = k then \<exists>e. Decode blk = Inl e else blk = Encode (rs ! k)"
proof (cases "i div 112 = k")
  case True
  let ?block = "go_slice (k * 112) ((k + 1) * 112) (log_image rs)"
  have i: "k * 112 \<le> i" "i < (k + 1) * 112" using True by (auto simp: dividend_less_times_div)
  have orig: "?block = Encode (rs ! k)" using log_image_block [OF assms(1), of "[]"] by simp
  have "?block ! (i - k * 112) = log_image rs ! i" using i assms(2) by (simp add: go_slice_def)
  then have "\<exists>e. Decode (?block[i - k * 112 := b]) = Inl e"
    using assms(3) i orig by (intro Decode_corrupt_byte [where r = "rs ! k"]) (auto simp: Decode_Encode)
  moreover have "blk = ?block[i - k * 112 := b]"
    unfolding blk_def using i by (intro go_slice_list_update_inside)
  ultimately show ?thesis using True by simp
next
  case False
  then have "i < k * 112 \<or> (k + 1) * 112 \<le> i" by (metis div_nat_eqI mult.commute not_less Suc_eq_plus1)
  then have "blk = go_slice (k * 112) ((k + 1) * 112) (log_image rs)"
    unfolding blk_def by (rule go_slice_list_update_outside)
  then show ?thesis using False log_image_block [OF assms(1), of "[]"] by simp
qed

definition fair :: "'r draws \<Rightarrow> bool" where
  "fair intn \<longleftrightarrow> (\<forall>n rng. 0 < n \<longrightarrow> 0 \<le> fst (intn n rng) \<and> fst (intn n rng) < n)"

lemma fair_draw: "fair intn \<Longrightarrow> 0 < n \<Longrightarrow> intn n rng = (v, rng') \<Longrightarrow> 0 \<le> v \<and> v < n"
  unfolding fair_def by (metis fst_conv)

lemma flipBit_cases:
  assumes "fair intn" and "flipBit intn rate (img, [], rng) = (img1, f1, rng1)"
  shows "f1 = [] \<and> img1 = img \<or>
    map fKind f1 = [FaultBitFlip] \<and> (\<exists>i b. i < length img \<and> b \<noteq> img ! i \<and> img1 = img[i := b])"
proof -
  obtain h r1 where h: "hit intn rate rng = (h, r1)" by fastforce
  show ?thesis
  proof (cases "h \<and> length img \<noteq> 0")
    case True
    obtain off r2 where off: "intn (int (length img)) r1 = (off, r2)" by fastforce
    obtain k r3 where k: "intn 8 r2 = (k, r3)" by fastforce
    have "0 \<le> off \<and> off < int (length img)" using fair_draw [OF assms(1) _ off] True by simp
    then have o: "nat off < length img" by auto
    have "nat k < 8" using fair_draw [OF assms(1) _ k] by auto
    then have "img ! nat off XOR push_bit (nat k) 1 \<noteq> img ! nat off" by (rule flip_differs)
    then show ?thesis using assms(2) True h off k o by (auto simp: flipBit_def zero_Fault_def)
  next
    case False
    then show ?thesis using assms(2) h by (auto simp: flipBit_def)
  qed
qed

lemma misdirect_cases:
  assumes "fair intn" and "misdirect intn rate (img, f, rng) = (img1, f1, rng1)" and "length img = 112 * n"
  shows "f1 = f \<and> img1 = img \<or> (\<exists>s t fl. f1 = f @ [fl] \<and> fKind fl = FaultMisdirect \<and> s < n \<and> t < n \<and> s \<noteq> t \<and>
    img1 = take (t * 112) img @ go_slice (s * 112) ((s + 1) * 112) img @ drop ((t + 1) * 112) img)"
proof -
  have n: "length img div RecordSize = n" using assms(3) by (simp add: RecordSize_def)
  obtain h r1 where h: "hit intn rate rng = (h, r1)" by fastforce
  show ?thesis
  proof (cases "h \<and> n \<ge> 2")
    case True
    obtain src r2 where src: "intn (int n) r1 = (src, r2)" by fastforce
    obtain t r3 where t: "intn (int n - 1) r2 = (t, r3)" by fastforce
    let ?t = "if t \<ge> src then t + 1 else t"
    have b: "0 \<le> src" "src < int n" "0 \<le> t" "t < int n - 1"
      using fair_draw [OF assms(1) _ src] fair_draw [OF assms(1) _ t] True by auto
    then have "nat src < n" "nat ?t < n" "nat src \<noteq> nat ?t" by (auto split: if_splits)
    moreover have "img1 = take (nat ?t * 112) img @ go_slice (nat src * 112) ((nat src + 1) * 112) img @
        drop ((nat ?t + 1) * 112) img"
      "f1 = f @ [(zero_Fault FaultMisdirect)\<lparr>fSource := src, fTarget := ?t\<rparr>]"
      using assms(2) True h src t n by (auto simp: misdirect_def Let_def RecordSize_def)
    moreover have "fKind ((zero_Fault FaultMisdirect)\<lparr>fSource := src, fTarget := ?t\<rparr>) = FaultMisdirect"
      by (simp add: zero_Fault_def)
    ultimately show ?thesis by blast
  next
    case False
    then show ?thesis using assms(2) h n by (auto simp: misdirect_def Let_def)
  qed
qed

lemma misdirected_block:
  assumes "length img = 112 * n" and "s < n" and "t < n"
  defines "img1 \<equiv> take (t * 112) img @ go_slice (s * 112) ((s + 1) * 112) img @ drop ((t + 1) * 112) img"
  shows "go_slice (t * 112) ((t + 1) * 112) img1 = go_slice (s * 112) ((s + 1) * 112) img" "length img1 = 112 * n"
proof -
  have l: "length (take (t * 112) img) = t * 112" "length (go_slice (s * 112) ((s + 1) * 112) img) = 112"
    using assms(1-3) by auto
  show "go_slice (t * 112) ((t + 1) * 112) img1 = go_slice (s * 112) ((s + 1) * 112) img"
    unfolding img1_def using l by (simp add: go_slice_def)
  show "length img1 = 112 * n" unfolding img1_def using l assms(1,3) by auto
qed

lemma seq_inject: "a < 2 ^ 64 \<Longrightarrow> b < 2 ^ 64 \<Longrightarrow> (of_nat a :: u64) = of_nat b \<longleftrightarrow> a = b"
  by (metis unat_of_nat_u64)

lemma corrupted_detected:
  assumes fair: "fair intn" and seq: "sequenced rs" and len: "length rs + 1 < 2 ^ 64"
    and fl: "flipBit intn rate1 (log_image rs, [], rng) = (img1, f1, rng1)"
    and md: "misdirect intn rate2 (img1, f1, rng1) = (img2, f2, rng2)"
  shows "if f2 = [] then img2 = log_image rs else \<exists>v e. Recover img2 = ([], v, Some e)"
    and "FaultPhantom \<notin> fKind ` set f2"
proof -
  have f1: "f1 = [] \<and> img1 = log_image rs \<or>
      map fKind f1 = [FaultBitFlip] \<and> (\<exists>i b. i < length (log_image rs) \<and> b \<noteq> log_image rs ! i \<and> img1 = (log_image rs)[i := b])"
    using flipBit_cases [OF fair fl] .
  then have l1: "length img1 = 112 * length rs" by auto
  note m = misdirect_cases [OF fair md l1]
  have blk: "Decode (go_slice (k * 112) ((k + 1) * 112) img1) = Inr (rs ! k) \<or>
      (\<exists>e. Decode (go_slice (k * 112) ((k + 1) * 112) img1) = Inl e)" if "k < length rs" for k
    using f1 flipped_block [OF that] log_image_block [OF that, of "[]"] Decode_Encode by (metis append_Nil2)
  have bad1: "\<exists>k. k < length rs \<and> bad_block img1 k" if ne: "f1 \<noteq> []"
  proof -
    obtain i b where i: "i < length (log_image rs)" "b \<noteq> log_image rs ! i" "img1 = (log_image rs)[i := b]"
      using f1 ne by auto
    then have k: "i div 112 < length rs" by (simp add: div_less_iff_less_mult mult.commute)
    have "bad_block img1 (i div 112)" using flipped_block [OF k i(1,2)] i(3) by (auto simp: bad_block_def)
    then show ?thesis using k by blast
  qed
  have bad2: "\<exists>k. k < length rs \<and> bad_block img2 k \<and> length img2 = 112 * length rs" if ne: "f2 \<noteq> []"
  proof (cases "f2 = f1 \<and> img2 = img1")
    case True
    then show ?thesis using bad1 ne l1 by auto
  next
    case False
    then obtain s t where st: "s < length rs" "t < length rs" "s \<noteq> t"
        "img2 = take (t * 112) img1 @ go_slice (s * 112) ((s + 1) * 112) img1 @ drop ((t + 1) * 112) img1"
      using m by blast
    note b = misdirected_block [OF l1 st(1,2), folded st(4)]
    have "rSequence (rs ! s) = of_nat (s + 1)" using seq st(1) by (simp add: sequenced_def)
    moreover have "(of_nat (s + 1) :: u64) \<noteq> of_nat (t + 1)"
      using st len by (subst seq_inject) auto
    ultimately have "bad_block img2 t"
      using blk [OF st(1)] unfolding bad_block_def b(1) by (auto split: sum.splits)
    then show ?thesis using st(2) b(2) by blast
  qed
  show "if f2 = [] then img2 = log_image rs else \<exists>v e. Recover img2 = ([], v, Some e)"
    using f1 m bad2 Recover_bad [of _ img2] by (cases "f2 = []") auto
  show "FaultPhantom \<notin> fKind ` set f2" using f1 m by auto
qed

lemma crash_detection:
  assumes "fair intn" and "sequenced rs" and "length rs + 1 < 2 ^ 64" and "fdDurable d = log_image rs"
    and "fdPrevious d = map_option log_image prev" and "pred_option sequenced prev"
    and "fd_Crash intn source d = (Inr d', d1)"
  shows "if FaultPhantom \<in> fKind ` set (fdFaults d')
    then \<exists>old. prev = Some old \<and> Recover (fdDurable d') = (old, length old * 112, None)
    else if fdFaults d' = [] then Recover (fdDurable d') = (rs, length rs * 112, None)
    else \<exists>v e. Recover (fdDurable d') = ([], v, Some e)"
proof -
  obtain img1 f1 r1 where 1: "flipBit intn (fcBitFlip (fdConfig d)) (log_image rs, [], fdRng d) = (img1, f1, r1)"
    by (metis prod_cases3)
  obtain img2 f2 r2 where 2: "misdirect intn (fcMisdirect (fdConfig d)) (img1, f1, r1) = (img2, f2, r2)"
    by (metis prod_cases3)
  obtain img3 f3 r3 where 3: "phantom intn (fcPhantom (fdConfig d)) (fdPrevious d) (img2, f2, r2) = (img3, f3, r3)"
    by (metis prod_cases3)
  have d': "fdDurable d' = img3" "fdFaults d' = f3"
    using assms(7) 1 2 3 by (auto simp: fd_Crash_def Let_def assms(4) split: sum.splits)
  note c = corrupted_detected [OF assms(1-3) 1 2]
  have whole: "Recover (log_image xs) = (xs, length xs * 112, None)" if "sequenced xs" for xs
    using Recover_log_image [OF that, of "[]"] by simp
  have "f3 = f2 \<and> img3 = img2 \<or> (\<exists>old. prev = Some old \<and> img3 = log_image old \<and> f3 = f2 @ [zero_Fault FaultPhantom])"
    using 3 assms(5) by (auto simp: phantom_def split: prod.splits option.splits if_splits)
  then show ?thesis
    unfolding d' using c whole [OF assms(2)] whole assms(6) by (auto simp: zero_Fault_def split: if_splits)
qed

text \<open>
  C37: Recovery tells the faults of the disk apart. Take a device that holds the log \<open>old\<close> with the records \<open>new\<close>
  appended, sync it, and crash it. Without a fault recovery returns \<open>old @ new\<close>; after a flipped bit, a misdirected
  record or both it always fails; and after a phantom read it returns, without an error, \<open>old\<close>: the log as it
  was before the last sync, so that every record that sync acknowledged is silently gone.
\<close>

theorem faultdisk_detection:
  assumes "fair intn" and "sequenced (old @ new)" and "length (old @ new) + 1 < 2 ^ 64"
    and "fdDurable d0 = log_image old" and "fdPending d0 = log_image new"
    and "fd_Sync d0 = (None, d)" and "fd_Crash intn source d = (Inr d', d1)"
  shows "if FaultPhantom \<in> fKind ` set (fdFaults d') then Recover (fdDurable d') = (old, length old * 112, None)
    else if fdFaults d' = [] then Recover (fdDurable d') = (old @ new, length (old @ new) * 112, None)
    else \<exists>v e. Recover (fdDurable d') = ([], v, Some e)"
proof -
  have "sequenced old" using sequenced_take [OF assms(2), of "length old"] by simp
  moreover have "fdDurable d = log_image (old @ new)" using assms(4-6) by (auto simp: fd_Sync_def log_image_def)
  moreover have "fdPrevious d =
      map_option log_image (if fdPrevious d0 = None \<and> fdDurable d0 = [] then None else Some old)"
    using assms(4,6) by (auto simp: fd_Sync_def)
  ultimately show ?thesis
    using crash_detection [OF assms(1-3) _ _ _ assms(7),
        of "if fdPrevious d0 = None \<and> fdDurable d0 = [] then None else Some old"]
    by (auto split: if_splits)
qed

text \<open>
  Two records written in two syncs: a device that misdirects at every crash, and one that reads phantoms; the
  draws always return zero.
\<close>

definition sample_device :: "int \<Rightarrow> int \<Rightarrow> unit FaultDevice" where
  "sample_device misdirects phantoms =
     \<lparr>fdConfig = \<lparr>fcSeed = 1, fcBitFlip = 0, fcMisdirect = misdirects, fcPhantom = phantoms\<rparr>, fdRng = (),
      fdDurable = log_image (take 1 sample_records), fdPrevious = None, fdPending = log_image (drop 1 sample_records),
      fdFaults = []\<rparr>"

theorem faultdisk_detection_witness:
  "(\<exists>d d' d1 v e. fd_Sync (sample_device 1000000 0) = (None, d) \<and>
      fd_Crash (\<lambda>n r. (0, r)) (\<lambda>_. ()) d = (Inr d', d1) \<and> Recover (fdDurable d') = ([], v, Some e)) \<and>
   (\<exists>d d' d1. fd_Sync (sample_device 0 1000000) = (None, d) \<and>
      fd_Crash (\<lambda>n r. (0, r)) (\<lambda>_. ()) d = (Inr d', d1) \<and> Recover (fdDurable d') = (take 1 sample_records, 112, None))"
proof
  have fair: "fair (\<lambda>n r. (0 :: int, r :: unit))" by (simp add: fair_def)
  have seq: "sequenced (take 1 sample_records @ drop 1 sample_records)"
      "length (take 1 sample_records @ drop 1 sample_records) + 1 < 2 ^ 64"
    using sample_records_facts by simp_all
  have img: "log_image (take 1 sample_records) @ log_image (drop 1 sample_records) = log_image sample_records"
    unfolding log_image_def by (metis append_take_drop_id concat_append map_append)
  have one: "length (take 1 sample_records) = 1" using sample_records_facts by simp
  have "log_image (take 1 sample_records) = Encode (hd sample_records)" by (simp add: sample_records_def)
  then have ne: "log_image (take 1 sample_records) \<noteq> []" by (metis length_Encode list.size(3) zero_neq_numeral)
  note detect = faultdisk_detection [OF fair seq]
  obtain d where d: "fd_Sync (sample_device 1000000 0) = (None, d)" by (simp add: fd_Sync_def)
  obtain d' d1 where c: "fd_Crash (\<lambda>n r. (0, r)) (\<lambda>_. ()) d = (Inr d', d1)"
      and f: "fdFaults d' = [(zero_Fault FaultMisdirect)\<lparr>fTarget := 1\<rparr>]"
    using d ne by (auto simp: fd_Crash_def flipBit_def misdirect_def phantom_def hit_def OneMillion_def fd_New_def Let_def
        RecordSize_def sample_records_facts zero_Fault_def fd_Sync_def sample_device_def img)
  show "\<exists>d d' d1 v e. fd_Sync (sample_device 1000000 0) = (None, d) \<and>
      fd_Crash (\<lambda>n r. (0, r)) (\<lambda>_. ()) d = (Inr d', d1) \<and> Recover (fdDurable d') = ([], v, Some e)"
    using detect [OF _ _ d c] d c f by (simp add: sample_device_def zero_Fault_def)
  obtain p where p: "fd_Sync (sample_device 0 1000000) = (None, p)" by (simp add: fd_Sync_def)
  obtain p' p1 where cp: "fd_Crash (\<lambda>n r. (0, r)) (\<lambda>_. ()) p = (Inr p', p1)"
      and fp: "fdFaults p' = [zero_Fault FaultPhantom]"
    using p ne by (auto simp: fd_Crash_def flipBit_def misdirect_def phantom_def hit_def OneMillion_def fd_New_def Let_def
        fd_Sync_def sample_device_def)
  show "\<exists>d d' d1. fd_Sync (sample_device 0 1000000) = (None, d) \<and>
      fd_Crash (\<lambda>n r. (0, r)) (\<lambda>_. ()) d = (Inr d', d1) \<and> Recover (fdDurable d') = (take 1 sample_records, 112, None)"
    using detect [OF _ _ p cp] p cp fp one by (simp add: sample_device_def zero_Fault_def)
qed

end
