(* ===== verification/Raft_Cluster.thy ===== *)
theory Raft_Cluster
  imports Raft_Node Raft_Wal Dst_Engine
begin

text \<open>
  The raft cluster the engine drives, \<^verbatim>\<open>dst/raftcluster/cluster.go\<close>, \<^verbatim>\<open>store.go\<close> and
  \<^verbatim>\<open>invariants.go\<close>. Each node owns its store, and the store its log and device, so the entries
  \<open>stores[id]\<close> and \<open>disks[id]\<close> of the Go maps are the store inside the node, with one exception: a restart
  that fails after opening the rebooted disk has already replaced them, while the node keeps its old store;
  \<open>rcDetached\<close> holds such a store.
\<close>

subsection \<open>store.go\<close>

record stableStore =
  stWal :: "MemoryDevice RaftwalStore"
  stSnapshot :: Snapshot

definition st_SaveHardState :: "HardState \<Rightarrow> stableStore \<Rightarrow> error option \<times> stableStore" where
  "st_SaveHardState h s = (case rw_SaveHardState memory_device h (stWal s) of (err, w) \<Rightarrow> (err, s\<lparr>stWal := w\<rparr>))"

definition st_Append :: "u64 \<Rightarrow> Entry \<Rightarrow> stableStore \<Rightarrow> error option \<times> stableStore" where
  "st_Append index entry s = (case rw_Append memory_device index entry (stWal s) of (err, w) \<Rightarrow> (err, s\<lparr>stWal := w\<rparr>))"

definition st_SaveSnapshot :: "Snapshot \<Rightarrow> stableStore \<Rightarrow> error option \<times> stableStore" where
  "st_SaveSnapshot snap s = (None, s\<lparr>stSnapshot := snap\<rparr>)"

definition st_CompactLog :: "u64 \<Rightarrow> stableStore \<Rightarrow> error option \<times> stableStore" where
  "st_CompactLog index s = (case rw_CompactLog memory_device index (stWal s) of (err, w) \<Rightarrow> (err, s\<lparr>stWal := w\<rparr>))"

definition stable_ops :: "stableStore StableStore" where
  "stable_ops = \<lparr>SaveHardState = st_SaveHardState, AppendEntry = st_Append,
     asSnapshotStore = Some \<lparr>SaveSnapshot = st_SaveSnapshot, CompactLog = st_CompactLog\<rparr>\<rparr>"

subsection \<open>cluster.go\<close>

record RCluster =
  rcIds :: "u32 list"
  rcNodes :: "u32 \<Rightarrow> stableStore Node option"
  rcDetached :: "u32 \<Rightarrow> stableStore option"

definition electionTimeout :: "u32 \<Rightarrow> u64" where
  "electionTimeout nid = 8 + ucast (nid * 2)"

definition ids_upto :: "nat \<Rightarrow> u32 list" where
  "ids_upto nodeCount = map of_nat [1..<nodeCount + 1]"

definition freshStore :: "stableStore option" where
  "freshStore = (case raftwal_Open memory_device (NewMemoryDevice []) of
     Inl _ \<Rightarrow> None | Inr w \<Rightarrow> Some \<lparr>stWal = w, stSnapshot = zero_Snapshot\<rparr>)"

definition rc_addNode :: "nat \<Rightarrow> nat \<Rightarrow> RCluster \<Rightarrow> RCluster option" where
  "rc_addNode nodeCount i c = do {
     let nid = of_nat i;
     stb \<leftarrow> freshStore;
     n \<leftarrow> NewNodeWithStore nid (map of_nat (filter (\<lambda>j. j \<noteq> i) [1..<nodeCount + 1])) (electionTimeout nid) stb;
     Some (c\<lparr>rcIds := rcIds c @ [nid], rcNodes := (rcNodes c)(nid \<mapsto> n)\<rparr>) }"

definition rc_New :: "nat \<Rightarrow> RCluster option" where
  "rc_New nodeCount =
     (if nodeCount < 1 then None
      else foldM (rc_addNode nodeCount) [1..<nodeCount + 1] \<lparr>rcIds = [], rcNodes = Map.empty, rcDetached = Map.empty\<rparr>)"

definition rc_Nodes :: "RCluster \<Rightarrow> u32 list" where
  "rc_Nodes c = rcIds c"

text \<open>An operation of one node; a missing node is a nil pointer, whose use panics.\<close>

definition onNode :: "u32 \<Rightarrow> (stableStore Node \<Rightarrow> stableStore Node option) \<Rightarrow> RCluster \<Rightarrow> RCluster option" where
  "onNode nid f c = do { n \<leftarrow> rcNodes c nid; n' \<leftarrow> f n; Some (c\<lparr>rcNodes := (rcNodes c)(nid \<mapsto> n')\<rparr>) }"

definition rc_Tick :: "u32 \<Rightarrow> RCluster \<Rightarrow> RCluster option" where
  "rc_Tick nid = onNode nid (Tick stable_ops)"

definition rc_Deliver :: "u32 \<Rightarrow> Message \<Rightarrow> RCluster \<Rightarrow> RCluster option" where
  "rc_Deliver nid m = onNode nid (Step stable_ops m)"

definition rc_Drain :: "u32 \<Rightarrow> Message list \<Rightarrow> RCluster \<Rightarrow> (Message list \<times> RCluster) option" where
  "rc_Drain nid dst c = do {
     n \<leftarrow> rcNodes c nid;
     (case Drain dst n of (ms, n') \<Rightarrow> Some (ms, c\<lparr>rcNodes := (rcNodes c)(nid \<mapsto> n')\<rparr>)) }"

definition rc_Route :: "Message \<Rightarrow> u32 \<times> u32" where
  "rc_Route m = (mFrom m, mTo m)"

definition rc_Digest :: "Message \<Rightarrow> u8 \<times> u64" where
  "rc_Digest m = (mType m, mTerm m)"

text \<open>The first node, in order, that accepts a proposal.\<close>

fun firstAccepting :: "(stableStore Node \<Rightarrow> (bool \<times> stableStore Node) option) \<Rightarrow> u32 list \<Rightarrow> RCluster \<Rightarrow>
    (bool \<times> RCluster) option" where
  "firstAccepting f [] c = Some (False, c)"
| "firstAccepting f (nid # nids) c = do {
     n \<leftarrow> rcNodes c nid;
     (ok, n') \<leftarrow> f n;
     let c' = c\<lparr>rcNodes := (rcNodes c)(nid \<mapsto> n')\<rparr>;
     if ok then Some (True, c') else firstAccepting f nids c' }"

definition rc_Propose :: "u64 \<Rightarrow> RCluster \<Rightarrow> (bool \<times> RCluster) option" where
  "rc_Propose command c = firstAccepting (Propose stable_ops command) (rcIds c) c"

definition rc_ProposeJoint :: "u32 list \<Rightarrow> RCluster \<Rightarrow> (bool \<times> RCluster) option" where
  "rc_ProposeJoint voters c = firstAccepting (ProposeJoint stable_ops voters) (rcIds c) c"

definition rc_ProposeFinal :: "RCluster \<Rightarrow> (bool \<times> RCluster) option" where
  "rc_ProposeFinal c = firstAccepting (ProposeFinal stable_ops) (rcIds c) c"

definition rc_Compact :: "u32 \<Rightarrow> bytes \<Rightarrow> RCluster \<Rightarrow> (bool \<times> RCluster) option" where
  "rc_Compact nid state c =
     (case rcNodes c nid of
        None \<Rightarrow> Some (False, c)
      | Some n \<Rightarrow>
          if nApplied n \<le> nBaseIndex n then Some (False, c)
          else do {
            (ok, n') \<leftarrow> Compact stable_ops (nApplied n) state n;
            Some (ok, c\<lparr>rcNodes := (rcNodes c)(nid \<mapsto> n')\<rparr>) })"

definition rc_Leader :: "RCluster \<Rightarrow> u32 option" where
  "rc_Leader c = foldr (\<lambda>nid rest. do { n \<leftarrow> rcNodes c nid; if nState n = Leader then Some nid else rest })
     (rcIds c) (Some 0)"

text \<open>
  The store of the rebooted disk, and the node recovered from it; \<open>Inl\<close> is an error, the outer \<open>None\<close> a
  panic. \<open>entries[1:]\<close> panics on an empty log.
\<close>

definition currentStore :: "u32 \<Rightarrow> stableStore Node \<Rightarrow> RCluster \<Rightarrow> stableStore" where
  "currentStore nid n c = (case rcDetached c nid of None \<Rightarrow> nStore n | Some st \<Rightarrow> st)"

definition reopen :: "stableStore \<Rightarrow> error + stableStore" where
  "reopen st =
     (case md_Crash 0 (lDevice (rwLog (stWal st))) of
        Inl e \<Rightarrow> Inl e
      | Inr disk \<Rightarrow>
          (case raftwal_Open memory_device disk of
             Inl e \<Rightarrow> Inl e
           | Inr w \<Rightarrow> Inr \<lparr>stWal = w, stSnapshot = stSnapshot st\<rparr>))"

definition recovered :: "u32 \<Rightarrow> u32 list \<Rightarrow> stableStore \<Rightarrow> (error + stableStore Node) option" where
  "recovered nid peers stb =
     (case rw_StateWithBase (stWal stb) of (hard, base, entries) \<Rightarrow>
        if base \<noteq> 0 then
          if sLastIndex (stSnapshot stb) \<noteq> base
          then Some (Inl (ErrBaseMismatch (sLastIndex (stSnapshot stb)) base))
          else if entries = [] then None
          else map_option Inr (NewRecoveredNodeWithSnapshot nid peers (electionTimeout nid) stb hard
            (stSnapshot stb) (tl entries))
        else map_option Inr (NewRecoveredNode nid peers (electionTimeout nid) stb hard entries))"

definition Restart :: "u32 \<Rightarrow> RCluster \<Rightarrow> (error option \<times> RCluster) option" where
  "Restart nid c =
     (case rcNodes c nid of
        None \<Rightarrow> Some (Some (ErrUnknownNode nid), c)
      | Some n \<Rightarrow>
          (case reopen (currentStore nid n c) of
             Inl e \<Rightarrow> Some (Some e, c)
           | Inr stb \<Rightarrow> do {
               r \<leftarrow> recovered nid (nPeers n) stb;
               case r of
                 Inl e \<Rightarrow> Some (Some e, c\<lparr>rcDetached := (rcDetached c)(nid \<mapsto> stb)\<rparr>)
               | Inr n' \<Rightarrow> Some (None, c\<lparr>rcNodes := (rcNodes c)(nid \<mapsto> n'),
                   rcDetached := (rcDetached c)(nid := None)\<rparr>) }))"

definition rc_ops :: "(RCluster, Message) ClusterOps" where
  "rc_ops = \<lparr>clNodes = rc_Nodes, clTick = rc_Tick, clDeliver = rc_Deliver, clDrain = rc_Drain\<rparr>"

definition rc_wire :: "Message WireOps" where
  "rc_wire = \<lparr>wRoute = rc_Route, wDigest = rc_Digest\<rparr>"

subsection \<open>invariants.go\<close>

text \<open>
  The three properties, over the nodes in the order of the identifiers: the outer \<open>None\<close> is a panic, \<open>Some None\<close>
  no violation.
\<close>

definition num :: "'a::len word \<Rightarrow> string" where
  "num w = decimal (unat w)"

fun electionCheck :: "(u32 \<times> 's Node) list \<Rightarrow> (u64 \<Rightarrow> u32 option) \<Rightarrow> string option" where
  "electionCheck [] leaders = None"
| "electionCheck ((nid, n) # ns) leaders =
     (if nState n \<noteq> Leader then electionCheck ns leaders
      else case leaders (nTerm n) of
        Some prior \<Rightarrow>
          if prior \<noteq> nid
          then Some (''two leaders in term '' @ num (nTerm n) @ '': '' @ num prior @ '' and '' @ num nid)
          else electionCheck ns (leaders(nTerm n \<mapsto> nid))
      | None \<Rightarrow> electionCheck ns (leaders(nTerm n \<mapsto> nid)))"

definition badIndexes :: "'s Node \<Rightarrow> bool" where
  "badIndexes n \<longleftrightarrow> nCommit n < nBaseIndex n \<or> nCommit n > LastIndex n \<or> nApplied n < nBaseIndex n \<or>
     nApplied n > nCommit n"

definition indexMessage :: "u32 \<Rightarrow> 's Node \<Rightarrow> string" where
  "indexMessage nid n = ''node '' @ num nid @ '' invalid indexes base='' @ num (nBaseIndex n) @ '' applied='' @
     num (nApplied n) @ '' commit='' @ num (nCommit n) @ '' last='' @ num (LastIndex n)"

fun indexCheck :: "(u32 \<times> 's Node) list \<Rightarrow> string option" where
  "indexCheck [] = None"
| "indexCheck ((nid, n) # ns) = (if badIndexes n then Some (indexMessage nid n) else indexCheck ns)"

definition stateNumber :: "State \<Rightarrow> nat" where
  "stateNumber st = (case st of Follower \<Rightarrow> 0 | Candidate \<Rightarrow> 1 | Leader \<Rightarrow> 2)"

definition side :: "Entry \<Rightarrow> 's Node \<Rightarrow> string" where
  "side e n = ''(term='' @ num (eTerm e) @ '' command='' @ num (eCommand e) @ '' commit='' @ num (nCommit n) @
     '' last='' @ num (LastIndex n) @ '' state='' @ decimal (stateNumber (nState n)) @ '')''"

text \<open>The loop over the committed indexes two nodes share; it returns at the first disagreement.\<close>

definition disagree :: "u64 \<Rightarrow> u64 \<Rightarrow> Entry \<times> bool \<Rightarrow> Entry \<times> bool \<Rightarrow> bool" where
  "disagree first index = (\<lambda>(ea, oka) (eb, okb).
     \<not> oka \<or> \<not> okb \<or> eTerm ea \<noteq> eTerm eb \<or> index > first \<and> ea \<noteq> eb)"

partial_function (option) prefixLoop ::
  "u32 \<times> 's Node \<Rightarrow> u32 \<times> 's Node \<Rightarrow> u64 \<Rightarrow> u64 \<Rightarrow> u64 \<Rightarrow> string option option" where
  "prefixLoop x y first limit index =
     (if index \<le> limit then do {
        ea \<leftarrow> EntryAt (snd x) index;
        eb \<leftarrow> EntryAt (snd y) index;
        if disagree first index ea eb
        then Some (Some (''nodes '' @ num (fst x) @ ''/'' @ num (fst y) @ '' disagree at committed index '' @
          num index @ '': a'' @ side (fst ea) (snd x) @ '' b'' @ side (fst eb) (snd y)))
        else prefixLoop x y first limit (index + 1) }
      else Some None)"

declare prefixLoop.simps [code]

definition prefixPair :: "u32 \<times> 's Node \<Rightarrow> u32 \<times> 's Node \<Rightarrow> string option option" where
  "prefixPair x y =
     (let first = max (nBaseIndex (snd x)) (nBaseIndex (snd y)); limit = min (nCommit (snd x)) (nCommit (snd y)) in
      prefixLoop x y first limit first)"

fun prefixRow :: "u32 \<times> 's Node \<Rightarrow> (u32 \<times> 's Node) list \<Rightarrow> string option option" where
  "prefixRow x [] = Some None"
| "prefixRow x (y # ys) = do {
     r \<leftarrow> prefixPair x y;
     case r of Some msg \<Rightarrow> Some (Some msg) | None \<Rightarrow> prefixRow x ys }"

fun prefixCheck :: "(u32 \<times> 's Node) list \<Rightarrow> string option option" where
  "prefixCheck [] = Some None"
| "prefixCheck (x # xs) = do {
     r \<leftarrow> prefixRow x xs;
     case r of Some msg \<Rightarrow> Some (Some msg) | None \<Rightarrow> prefixCheck xs }"

definition nodesOf :: "RCluster \<Rightarrow> (u32 \<times> stableStore Node) list option" where
  "nodesOf c = foldr (\<lambda>nid rest. do { n \<leftarrow> rcNodes c nid; ns \<leftarrow> rest; Some ((nid, n) # ns) }) (rcIds c) (Some [])"

definition checkElectionSafety :: "RCluster \<Rightarrow> string option option" where
  "checkElectionSafety c = do { ns \<leftarrow> nodesOf c; Some (electionCheck ns Map.empty) }"

definition checkIndexSanity :: "RCluster \<Rightarrow> string option option" where
  "checkIndexSanity c = do { ns \<leftarrow> nodesOf c; Some (indexCheck ns) }"

definition checkCommittedPrefix :: "RCluster \<Rightarrow> string option option" where
  "checkCommittedPrefix c = do { ns \<leftarrow> nodesOf c; prefixCheck ns }"

text \<open>A check that panics never returns to the engine; it is reported here as a violation.\<close>

definition invariantOf :: "string \<Rightarrow> (RCluster \<Rightarrow> string option option) \<Rightarrow> RCluster Invariant" where
  "invariantOf label check =
     \<lparr>ivName = label, ivCheck = (\<lambda>c. case check c of None \<Rightarrow> Some ''panic'' | Some r \<Rightarrow> r)\<rparr>"

definition rc_SafetyInvariants :: "RCluster Invariant list" where
  "rc_SafetyInvariants =
     [invariantOf ''election safety'' checkElectionSafety, invariantOf ''index sanity'' checkIndexSanity,
      invariantOf ''committed prefix'' checkCommittedPrefix]"

subsection \<open>The store under the node\<close>

lemma rw_CompactLog_hard: "rw_CompactLog D i w = (err, w') \<Longrightarrow> rwHard w' = rwHard w"
  by (auto simp: rw_CompactLog_def Let_def split: if_splits prod.splits option.splits)

abbreviation st_hard :: "stableStore \<Rightarrow> HardState" where
  "st_hard s \<equiv> rwHard (stWal s)"

definition st_hard_ok :: "stableStore \<Rightarrow> bool" where
  "st_hard_ok s \<longleftrightarrow> rw_hard_ok (stWal s)"

definition st_crash :: "stableStore \<Rightarrow> stableStore \<Rightarrow> bool" where
  "st_crash s s' \<longleftrightarrow> reopen s = Inr s'"

lemma st_crash_wal: "st_crash s s' \<Longrightarrow> rw_crash (stWal s) (stWal s')"
  by (auto simp: st_crash_def reopen_def rw_crash_def rw_inside_def split: sum.splits intro!: exI [of _ 0])

interpretation stable_md: durable_store stable_ops st_hard st_hard_ok st_crash
proof unfold_locales
  fix s s' :: stableStore
  show "SaveHardState stable_ops h s = (None, s') \<Longrightarrow> st_hard s' = h \<and> hard_le (st_hard s) h" for h
    using raftwal.save_ok [of memory_device h "stWal s"]
    by (auto simp: stable_ops_def raftwal_ops_def st_SaveHardState_def split: prod.splits)
  show "SaveHardState stable_ops h s = (Some e, s') \<Longrightarrow> st_hard s' = st_hard s" for h e
    using raftwal.save_err [of memory_device h "stWal s"]
    by (auto simp: stable_ops_def raftwal_ops_def st_SaveHardState_def split: prod.splits)
  show "AppendEntry stable_ops i en s = (r, s') \<Longrightarrow> st_hard s' = st_hard s" for i en r
    using raftwal.append_hard [of memory_device i en "stWal s"]
    by (auto simp: stable_ops_def raftwal_ops_def st_Append_def split: prod.splits)
  show "st_hard_ok s \<Longrightarrow> SaveHardState stable_ops h s = (r, s') \<Longrightarrow> st_hard_ok s'" for h r
    by (auto simp: stable_ops_def st_SaveHardState_def st_hard_ok_def dest: rw_hard_ok_SaveHardState split: prod.splits)
  show "st_hard_ok s \<Longrightarrow> AppendEntry stable_ops i e s = (r, s') \<Longrightarrow> st_hard_ok s'" for i e r
    by (auto simp: stable_ops_def st_Append_def st_hard_ok_def dest: rw_hard_ok_Append split: prod.splits)
  show "st_hard_ok s \<Longrightarrow> asSnapshotStore stable_ops = Some SS \<Longrightarrow> CompactLog SS i s = (r, s') \<Longrightarrow> st_hard_ok s'" for SS i r
    using rw_hard_ok_CompactLog [of "stWal s" i r]
    by (auto simp: stable_ops_def st_CompactLog_def st_hard_ok_def split: prod.splits)
  show "asSnapshotStore stable_ops = Some SS \<Longrightarrow> CompactLog SS i s = (r, s') \<Longrightarrow> st_hard s' = st_hard s" for SS i r
    using rw_CompactLog_hard [of memory_device i "stWal s" r]
    by (auto simp: stable_ops_def st_CompactLog_def split: prod.splits)
  show "st_hard_ok s \<Longrightarrow> st_crash s s' \<Longrightarrow> st_hard_ok s' \<and> hard_le (st_hard s) (st_hard s')"
    using rw_hard_ok_crash [OF _ st_crash_wal] by (simp add: st_hard_ok_def)
qed (auto simp: stable_ops_def st_SaveSnapshot_def st_hard_ok_def)

end
