(* ===== verification/Simulator.thy ===== *)
theory Simulator
  imports Raft_Cluster
begin

text \<open>
  The first simulator of the repository, \<^verbatim>\<open>sim/sim.go\<close>, \<^verbatim>\<open>sim/crash.go\<close>, \<^verbatim>\<open>sim/invariants.go\<close> and
  \<^verbatim>\<open>sim/store.go\<close>, whose schedule is a list that is scanned for the next due message, and the proof that the
  engine over the raft cluster replays it. The maps of nodes, stores and disks are kept in the record of
  \<^verbatim>\<open>dst/raftcluster\<close>, whose store is the same code. The orders in which Go ranges over the node map in
  \<open>CheckSafety\<close> are arguments.
\<close>

subsection \<open>sim.go\<close>

record SimConfig =
  sfNodes :: nat
  sfSeed :: int
  sfDropPermille :: int
  sfMaxDelay :: u64

record 'r Simulator =
  smNow :: u64
  smCluster :: RCluster
  smRng :: 'r
  smDrop :: int
  smDelay :: u64
  smSeq :: u64
  smQueue :: "Message scheduled list"
  smTrace :: bytes

definition sim_addNode :: "nat \<Rightarrow> nat \<Rightarrow> RCluster \<Rightarrow> RCluster option" where
  "sim_addNode nodeCount i c = do {
     let nid = of_nat i;
     stb \<leftarrow> freshStore;
     n \<leftarrow> NewNodeWithStore nid (map of_nat (filter (\<lambda>j. j \<noteq> i) [1..<nodeCount + 1])) (8 + of_nat (i * 2)) stb;
     Some (c\<lparr>rcIds := rcIds c @ [nid], rcNodes := (rcNodes c)(nid \<mapsto> n)\<rparr>) }"

definition sim_New :: "(int \<Rightarrow> 'r) \<Rightarrow> SimConfig \<Rightarrow> 'r Simulator option" where
  "sim_New source c =
     (if sfNodes c < 1 then None
      else do {
        cluster \<leftarrow> foldM (sim_addNode (sfNodes c)) [1..<sfNodes c + 1]
          \<lparr>rcIds = [], rcNodes = Map.empty, rcDetached = Map.empty\<rparr>;
        Some \<lparr>smNow = 0, smCluster = cluster, smRng = source (sfSeed c), smDrop = sfDropPermille c,
          smDelay = sfMaxDelay c, smSeq = 0, smQueue = [], smTrace = replicate 32 0\<rparr> })"

definition sim_ids :: "'r Simulator \<Rightarrow> u32 list" where
  "sim_ids s = ids_upto (length (rcIds (smCluster s)))"

definition sim_collectMessage :: "'r Rand \<Rightarrow> Message \<Rightarrow> 'r Simulator \<Rightarrow> 'r Simulator option" where
  "sim_collectMessage R m s =
     (let (lost, rng1) = drawLoss R (smDrop s) (smRng s) in
      if lost then Some (s\<lparr>smRng := rng1\<rparr>)
      else do {
        (d, rng2) \<leftarrow> drawDelay R (smDelay s) rng1;
        let seq = smSeq s + 1;
        Some (s\<lparr>smRng := rng2, smSeq := seq,
          smQueue := smQueue s @ [\<lparr>scAt = smNow s + d, scSeq = seq, scMsg = m\<rparr>]\<rparr>) })"

definition sim_collectNode :: "'r Rand \<Rightarrow> u32 \<Rightarrow> 'r Simulator \<Rightarrow> 'r Simulator option" where
  "sim_collectNode R nid s = do {
     (ms, c) \<leftarrow> rc_Drain nid [] (smCluster s);
     foldM (sim_collectMessage R) ms (s\<lparr>smCluster := c\<rparr>) }"

definition sim_collect :: "'r Rand \<Rightarrow> 'r Simulator \<Rightarrow> 'r Simulator option" where
  "sim_collect R s = foldM (sim_collectNode R) (sim_ids s) s"

definition sim_record :: "(bytes \<Rightarrow> bytes) \<Rightarrow> Message scheduled \<Rightarrow> 'r Simulator \<Rightarrow> 'r Simulator" where
  "sim_record sha256 ev s =
     s\<lparr>smTrace := sha256 (PutUint64 (smNow s) @ PutUint64 (scSeq ev) @ PutUint32 (mFrom (scMsg ev)) @
       PutUint32 (mTo (scMsg ev)) @ [mType (scMsg ev)] @ PutUint64 (mTerm (scMsg ev)) @ smTrace s)\<rparr>"

definition sim_deliverNext ::
  "'r Rand \<Rightarrow> (bytes \<Rightarrow> bytes) \<Rightarrow> 'r Simulator \<Rightarrow> 'r Simulator option option" where
  "sim_deliverNext R sha256 s =
     (case takeReady (smNow s) (smQueue s) of
        None \<Rightarrow> Some None
      | Some (ev, q) \<Rightarrow> do {
          let s1 = sim_record sha256 ev (s\<lparr>smQueue := q\<rparr>);
          c \<leftarrow> onNode (mTo (scMsg ev)) (Step stable_ops (scMsg ev)) (smCluster s1);
          s2 \<leftarrow> sim_collect R (s1\<lparr>smCluster := c\<rparr>);
          Some (Some s2) })"

partial_function (option) sim_deliverLoop ::
  "'r Rand \<Rightarrow> (bytes \<Rightarrow> bytes) \<Rightarrow> 'r Simulator \<Rightarrow> 'r Simulator option" where
  "sim_deliverLoop R sha256 s = do {
     r \<leftarrow> sim_deliverNext R sha256 s;
     case r of None \<Rightarrow> Some s | Some s' \<Rightarrow> sim_deliverLoop R sha256 s' }"

definition sim_Step :: "'r Rand \<Rightarrow> (bytes \<Rightarrow> bytes) \<Rightarrow> 'r Simulator \<Rightarrow> 'r Simulator option" where
  "sim_Step R sha256 s = do {
     let s0 = s\<lparr>smNow := smNow s + 1\<rparr>;
     s1 \<leftarrow> foldM (\<lambda>nid s. do { c \<leftarrow> onNode nid (Tick stable_ops) (smCluster s); Some (s\<lparr>smCluster := c\<rparr>) })
       (sim_ids s0) s0;
     s2 \<leftarrow> sim_collect R s1;
     sim_deliverLoop R sha256 s2 }"

fun sim_Run :: "'r Rand \<Rightarrow> (bytes \<Rightarrow> bytes) \<Rightarrow> nat \<Rightarrow> 'r Simulator \<Rightarrow> 'r Simulator option" where
  "sim_Run R sha256 0 s = Some s"
| "sim_Run R sha256 (Suc steps) s = do { s' \<leftarrow> sim_Step R sha256 s; sim_Run R sha256 steps s' }"

text \<open>A proposal to the first node that accepts it; then the messages are collected.\<close>

definition sim_proposal :: "'r Rand \<Rightarrow> (stableStore Node \<Rightarrow> (bool \<times> stableStore Node) option) \<Rightarrow>
    'r Simulator \<Rightarrow> (bool \<times> 'r Simulator) option" where
  "sim_proposal R f s = do {
     (ok, c) \<leftarrow> firstAccepting f (sim_ids s) (smCluster s);
     let s1 = s\<lparr>smCluster := c\<rparr>;
     if ok then map_option (Pair True) (sim_collect R s1) else Some (False, s1) }"

definition sim_Propose :: "'r Rand \<Rightarrow> u64 \<Rightarrow> 'r Simulator \<Rightarrow> (bool \<times> 'r Simulator) option" where
  "sim_Propose R command = sim_proposal R (Propose stable_ops command)"

definition sim_ProposeJoint :: "'r Rand \<Rightarrow> u32 list \<Rightarrow> 'r Simulator \<Rightarrow> (bool \<times> 'r Simulator) option" where
  "sim_ProposeJoint R voters = sim_proposal R (ProposeJoint stable_ops voters)"

definition sim_ProposeFinal :: "'r Rand \<Rightarrow> 'r Simulator \<Rightarrow> (bool \<times> 'r Simulator) option" where
  "sim_ProposeFinal R = sim_proposal R (ProposeFinal stable_ops)"

definition sim_Compact :: "u32 \<Rightarrow> bytes \<Rightarrow> 'r Simulator \<Rightarrow> (bool \<times> 'r Simulator) option" where
  "sim_Compact nid state s =
     (case rcNodes (smCluster s) nid of
        None \<Rightarrow> Some (False, s)
      | Some n \<Rightarrow>
          if nApplied n \<le> nBaseIndex n then Some (False, s)
          else do {
            (ok, n') \<leftarrow> Compact stable_ops (nApplied n) state n;
            Some (ok, s\<lparr>smCluster := (smCluster s)\<lparr>rcNodes := (rcNodes (smCluster s))(nid \<mapsto> n')\<rparr>\<rparr>) })"

definition sim_Leader :: "'r Simulator \<Rightarrow> u32 option" where
  "sim_Leader s = foldr (\<lambda>nid rest. do { n \<leftarrow> rcNodes (smCluster s) nid; if nState n = Leader then Some nid else rest })
     (sim_ids s) (Some 0)"

definition sim_TraceHash :: "'r Simulator \<Rightarrow> string" where
  "sim_TraceHash s = concat (map (\<lambda>b. [hexDigit (unat b div 16), hexDigit (unat b mod 16)]) (smTrace s))"

subsection \<open>crash.go\<close>

definition keepEvents :: "u32 \<Rightarrow> Message scheduled list \<Rightarrow> Message scheduled list" where
  "keepEvents nid q = filter (\<lambda>ev. mFrom (scMsg ev) \<noteq> nid \<and> mTo (scMsg ev) \<noteq> nid) q"

definition sim_reopen :: "stableStore \<Rightarrow> error + stableStore" where
  "sim_reopen st =
     (case md_Crash 0 (lDevice (rwLog (stWal st))) of
        Inl e \<Rightarrow> Inl e
      | Inr rebootedDisk \<Rightarrow>
          (case raftwal_Open memory_device rebootedDisk of
             Inl e \<Rightarrow> Inl e
           | Inr store \<Rightarrow> Inr \<lparr>stWal = store, stSnapshot = stSnapshot st\<rparr>))"

definition sim_recovered :: "u32 \<Rightarrow> u32 list \<Rightarrow> stableStore \<Rightarrow> (error + stableStore Node) option" where
  "sim_recovered nid peers stb =
     (case rw_StateWithBase (stWal stb) of (hard, base, entries) \<Rightarrow>
        if base \<noteq> 0 then
          if sLastIndex (stSnapshot stb) \<noteq> base
          then Some (Inl (ErrBaseMismatch (sLastIndex (stSnapshot stb)) base))
          else if entries = [] then None
          else map_option Inr (NewRecoveredNodeWithSnapshot nid peers (8 + ucast (nid * 2)) stb hard
            (stSnapshot stb) (tl entries))
        else map_option Inr (NewRecoveredNode nid peers (8 + ucast (nid * 2)) stb hard entries))"

definition CrashRestart :: "u32 \<Rightarrow> 'r Simulator \<Rightarrow> (error option \<times> 'r Simulator) option" where
  "CrashRestart nid s =
     (let c = smCluster s in
      case rcNodes c nid of
        None \<Rightarrow> Some (Some (ErrUnknownNode nid), s)
      | Some n \<Rightarrow>
          (case sim_reopen (currentStore nid n c) of
             Inl e \<Rightarrow> Some (Some e, s)
           | Inr stb \<Rightarrow> do {
               r \<leftarrow> sim_recovered nid (nPeers n) stb;
               case r of
                 Inl e \<Rightarrow> Some (Some e, s\<lparr>smCluster := c\<lparr>rcDetached := (rcDetached c)(nid \<mapsto> stb)\<rparr>\<rparr>)
               | Inr n' \<Rightarrow> Some (None, s\<lparr>smCluster := c\<lparr>rcNodes := (rcNodes c)(nid \<mapsto> n'),
                     rcDetached := (rcDetached c)(nid := None)\<rparr>,
                   smQueue := keepEvents nid (smQueue s)\<rparr>) }))"

subsection \<open>invariants.go\<close>

fun safetyNodes :: "(u32 \<times> 's Node) list \<Rightarrow> (u64 \<Rightarrow> u32 option) \<Rightarrow> string option" where
  "safetyNodes [] leaders = None"
| "safetyNodes ((nid, n) # ns) leaders =
     (let clash = (nState n = Leader \<and> (case leaders (nTerm n) of Some prior \<Rightarrow> prior \<noteq> nid | None \<Rightarrow> False));
          leaders' = (if nState n = Leader then leaders(nTerm n \<mapsto> nid) else leaders) in
      if clash then Some (''two leaders in term '' @ num (nTerm n) @ '': '' @ num (the (leaders (nTerm n))) @ '' and '' @ num nid)
      else if badIndexes n then Some (indexMessage nid n)
      else safetyNodes ns leaders')"

fun safetyPairs :: "(u32 \<times> 's Node) list \<Rightarrow> (u32 \<Rightarrow> (u32 \<times> 's Node) list) \<Rightarrow> string option option" where
  "safetyPairs [] inner = Some None"
| "safetyPairs (x # xs) inner = do {
     r \<leftarrow> prefixRow x (filter (\<lambda>y. \<not> fst y \<le> fst x) (inner (fst x)));
     case r of Some msg \<Rightarrow> Some (Some msg) | None \<Rightarrow> safetyPairs xs inner }"

text \<open>\<open>first\<close>, \<open>outer\<close> and \<open>inner a\<close> are the entries of the node map in the orders of the three loops.\<close>

definition CheckSafety :: "(u32 \<times> stableStore Node) list \<Rightarrow> (u32 \<times> stableStore Node) list \<Rightarrow>
    (u32 \<Rightarrow> (u32 \<times> stableStore Node) list) \<Rightarrow> string option option" where
  "CheckSafety first outer inner =
     (case safetyNodes first Map.empty of
        Some msg \<Rightarrow> Some (Some msg)
      | None \<Rightarrow> safetyPairs outer inner)"

subsection \<open>The engine replays the simulator\<close>

definition raft_env :: "'r Rand \<Rightarrow> (int \<Rightarrow> 'r) \<Rightarrow> (bytes \<Rightarrow> bytes) \<Rightarrow> (RCluster, Message, 'r) Env" where
  "raft_env R source sha256 =
     \<lparr>xCluster = rc_ops, xWire = rc_wire, xRand = R, xSource = source, xSha256 = sha256\<rparr>"

lemma raft_env_sel [simp]:
  "xCluster (raft_env R source sha256) = rc_ops" "xWire (raft_env R source sha256) = rc_wire"
  "xRand (raft_env R source sha256) = R" "xSource (raft_env R source sha256) = source"
  "xSha256 (raft_env R source sha256) = sha256"
  by (simp_all add: raft_env_def)

lemma rc_sel [simp]:
  "clNodes rc_ops = rc_Nodes" "clTick rc_ops = rc_Tick" "clDeliver rc_ops = rc_Deliver"
  "clDrain rc_ops = rc_Drain" "wRoute rc_wire = rc_Route" "wDigest rc_wire = rc_Digest"
  by (simp_all add: rc_ops_def rc_wire_def)

definition in_order :: "RCluster \<Rightarrow> bool" where
  "in_order c \<longleftrightarrow> rcIds c = ids_upto (length (rcIds c))"

text \<open>
  The two schedules hold the same messages with the same due time and number; everything else agrees.
\<close>

definition same_queue :: "Message event list \<Rightarrow> Message scheduled list \<Rightarrow> bool" where
  "same_queue q l \<longleftrightarrow> heap q \<and> mset l = image_mset view (mset q) \<and>
     (\<forall>ev \<in> set q. evFrom ev = mFrom (evMsg ev) \<and> evTo ev = mTo (evMsg ev))"

definition sim_rel :: "(RCluster, Message, 'r) Engine \<Rightarrow> 'r Simulator \<Rightarrow> bool" where
  "sim_rel e s \<longleftrightarrow> smNow s = gNow e \<and> smCluster s = gCluster e \<and> smRng s = gRng e \<and> smDrop s = gDrop e \<and>
     smDelay s = gDelay e \<and> smSeq s = gSeq e \<and> smTrace s = gTrace e \<and> gInjectors e = [] \<and>
     in_order (gCluster e) \<and> same_queue (gQueue e) (smQueue s)"

lemma in_order_onNode: "onNode nid f c = Some c' \<Longrightarrow> in_order c' = in_order c"
  by (auto simp: onNode_def in_order_def bind_eq_Some_conv)

lemma in_order_Drain: "rc_Drain nid dst c = Some (ms, c') \<Longrightarrow> in_order c' = in_order c"
  by (auto simp: rc_Drain_def in_order_def bind_eq_Some_conv case_prod_beta)

lemma sim_ids_rel: "sim_rel e s \<Longrightarrow> sim_ids s = rc_Nodes (gCluster e)"
  by (simp add: sim_rel_def sim_ids_def rc_Nodes_def in_order_def)

lemma same_queue_push:
  assumes "same_queue q l"
  shows "same_queue (push \<lparr>evAt = at, evSeq = seq, evFrom = mFrom m, evTo = mTo m, evMsg = m\<rparr> q)
    (l @ [\<lparr>scAt = at, scSeq = seq, scMsg = m\<rparr>])"
proof -
  let ?ev = "\<lparr>evAt = at, evSeq = seq, evFrom = mFrom m, evTo = mTo m, evMsg = m\<rparr>"
  have "set (push ?ev q) = insert ?ev (set q)" by (metis mset_push set_mset_add_mset_insert set_mset_mset)
  then show ?thesis using assms by (auto simp: same_queue_def mset_push push_heap view_def)
qed

lemma collectMessage_sim:
  assumes "collectMessage (raft_env R source sha256) m e = Some e'" and "sim_rel e s"
  shows "\<exists>s'. sim_collectMessage R m s = Some s' \<and> sim_rel e' s'"
  using assms
  by (auto simp: collectMessage_def sim_collectMessage_def sim_rel_def bind_eq_Some_conv schedule_def blockedBy_def
      rc_Route_def same_queue_push Let_def split: prod.splits if_splits)

lemma collectNode_sim:
  assumes "collectNode (raft_env R source sha256) nid e = Some e'" and "sim_rel e s"
  shows "\<exists>s'. sim_collectNode R nid s = Some s' \<and> sim_rel e' s'"
proof -
  obtain ms c where d: "rc_Drain nid [] (gCluster e) = Some (ms, c)"
    and m: "foldM (collectMessage (raft_env R source sha256)) ms (e\<lparr>gCluster := c\<rparr>) = Some e'"
    using assms(1) by (auto simp: collectNode_def bind_eq_Some_conv)
  have rel: "sim_rel (e\<lparr>gCluster := c\<rparr>) (s\<lparr>smCluster := c\<rparr>)"
    using assms(2) in_order_Drain [OF d] by (simp add: sim_rel_def)
  have "\<exists>s'. foldM (sim_collectMessage R) ms (s\<lparr>smCluster := c\<rparr>) = Some s' \<and> sim_rel e' s'"
    by (rule foldM_related [where R = sim_rel, OF m rel]) (rule collectMessage_sim)
  then show ?thesis using d assms(2) by (simp add: sim_collectNode_def sim_rel_def)
qed

lemma Collect_sim:
  assumes "Collect (raft_env R source sha256) e = Some e'" and "sim_rel e s"
  shows "\<exists>s'. sim_collect R s = Some s' \<and> sim_rel e' s'"
  unfolding sim_collect_def sim_ids_rel [OF assms(2)]
  by (rule foldM_related [where R = sim_rel, OF _ assms(2)]) (use assms(1) collectNode_sim in \<open>auto simp: Collect_def\<close>)

lemma tickAll_sim:
  assumes "tickAll (raft_env R source sha256) e = Some e'" and "sim_rel e s"
  shows "\<exists>s'. foldM (\<lambda>nid s. do { c \<leftarrow> onNode nid (Tick stable_ops) (smCluster s); Some (s\<lparr>smCluster := c\<rparr>) })
    (sim_ids s) s = Some s' \<and> sim_rel e' s'"
  unfolding sim_ids_rel [OF assms(2)]
  by (rule foldM_related [where R = sim_rel, OF _ assms(2)])
    (use assms(1) in \<open>auto simp: tickAll_def rc_Tick_def bind_eq_Some_conv sim_rel_def in_order_onNode\<close>)

definition distinct_keys :: "(RCluster, Message, 'r) Engine \<Rightarrow> bool" where
  "distinct_keys e \<longleftrightarrow> inj_on ekey (set (gQueue e))"

lemma take_sim:
  assumes "sim_rel e s" and "distinct_keys e"
  shows "case takeDue (gNow e) (gQueue e) of
      None \<Rightarrow> takeReady (smNow s) (smQueue s) = None
    | Some (ev, q) \<Rightarrow> \<exists>l. takeReady (smNow s) (smQueue s) = Some (view ev, l) \<and> same_queue q l \<and>
        evFrom ev = mFrom (evMsg ev) \<and> evTo ev = mTo (evMsg ev)"
proof -
  have q: "heap (gQueue e)" "mset (smQueue s) = image_mset view (mset (gQueue e))" "smNow s = gNow e"
    and ends: "\<forall>ev \<in> set (gQueue e). evFrom ev = mFrom (evMsg ev) \<and> evTo ev = mTo (evMsg ev)"
    using assms(1) by (auto simp: sim_rel_def same_queue_def)
  have "set (smQueue s) = view ` set (gQueue e)" using q(2) by (metis set_image_mset set_mset_mset)
  then have inj: "inj_on skey (set (smQueue s))"
    using assms(2) by (auto simp: distinct_keys_def inj_on_def)
  note scan = heap_equals_linear_scan [OF q(1,2) inj, of "gNow e"]
  show ?thesis
  proof (cases "takeDue (gNow e) (gQueue e)")
    case None
    then show ?thesis using scan q(3) by simp
  next
    case (Some p)
    obtain ev q' where p: "p = (ev, q')" by (cases p)
    then have t: "takeDue (gNow e) (gQueue e) = Some (ev, q')" using Some by simp
    have "set (gQueue e) = insert ev (set q')"
      using heap_queue.take_some [OF q(1) t] by (metis set_mset_add_mset_insert set_mset_mset)
    moreover obtain l where "takeReady (gNow e) (smQueue s) = Some (view ev, l)" "heap q'"
        "mset l = image_mset view (mset q')" using scan t by auto
    ultimately show ?thesis using t ends q(3) by (simp add: same_queue_def)
  qed
qed

lemma deliverNext_sim:
  assumes "deliverNext (raft_env R source sha256) e = Some r" and "sim_rel e s" and "distinct_keys e"
  shows "\<exists>r'. sim_deliverNext R sha256 s = Some r' \<and>
    (case r of None \<Rightarrow> r' = None | Some e' \<Rightarrow> \<exists>s'. r' = Some s' \<and> sim_rel e' s')"
proof (cases "takeDue (gNow e) (gQueue e)")
  case None
  then have "r = None" using assms(1) deliverNext_end [of "raft_env R source sha256" e] by simp
  then show ?thesis using take_sim [OF assms(2,3)] None by (simp add: sim_deliverNext_def)
next
  case (Some p)
  then obtain ev q where t: "takeDue (gNow e) (gQueue e) = Some (ev, q)" by (cases p) auto
  obtain l where l: "takeReady (smNow s) (smQueue s) = Some (view ev, l)" "same_queue q l"
    and ends: "evFrom ev = mFrom (evMsg ev)" "evTo ev = mTo (evMsg ev)"
    using take_sim [OF assms(2,3)] t by auto
  let ?e1 = "recordDelivery (raft_env R source sha256) ev (e\<lparr>gQueue := q\<rparr>)"
  obtain c e' where c: "onNode (evTo ev) (Step stable_ops (evMsg ev)) (gCluster e) = Some c"
    and e': "Collect (raft_env R source sha256) (?e1\<lparr>gCluster := c\<rparr>) = Some e'" "r = Some e'"
    using assms(1) t
    by (auto simp: deliverNext_def takeDue_def rc_Deliver_def bind_eq_Some_conv split: if_splits)
  have "sim_rel (?e1\<lparr>gCluster := c\<rparr>) ((sim_record sha256 (view ev) (s\<lparr>smQueue := l\<rparr>))\<lparr>smCluster := c\<rparr>)"
    using assms(2) l(2) in_order_onNode [OF c] ends
    by (simp add: sim_rel_def sim_record_def recordDelivery_def view_def rc_Digest_def)
  from Collect_sim [OF e'(1) this] obtain s' where
    "sim_collect R ((sim_record sha256 (view ev) (s\<lparr>smQueue := l\<rparr>))\<lparr>smCluster := c\<rparr>) = Some s'" "sim_rel e' s'" by blast
  then show ?thesis
    using l(1) c e'(2) assms(2) ends
    by (simp add: sim_deliverNext_def view_def sim_record_def sim_rel_def)
qed

text \<open>The states in which the engine looks for the next due message during \<open>n\<close> steps.\<close>

inductive loopState :: "('c, 'm, 'r) Env \<Rightarrow> ('c, 'm, 'r) Engine \<Rightarrow> ('c, 'm, 'r) Engine \<Rightarrow> bool" for X where
  here: "loopState X e e"
| deeper: "deliverNext X e = Some (Some e1) \<Longrightarrow> loopState X e1 e2 \<Longrightarrow> loopState X e e2"

inductive visited :: "('c, 'm, 'r) Env \<Rightarrow> nat \<Rightarrow> ('c, 'm, 'r) Engine \<Rightarrow> ('c, 'm, 'r) Engine \<Rightarrow> bool" for X where
  now: "tickAll X (e\<lparr>gNow := gNow e + 1\<rparr>) = Some e1 \<Longrightarrow> Collect X e1 = Some e2 \<Longrightarrow> loopState X e2 e3 \<Longrightarrow>
    visited X (Suc n) e e3"
| later: "EngineStep X e = Some e1 \<Longrightarrow> visited X n e1 e2 \<Longrightarrow> visited X (Suc n) e e2"

inductive_cases loopStateE: "loopState X e e'"
inductive_cases visitedE: "visited X n e e'"

lemma deliverLoop_sim:
  assumes "deliverLoop (raft_env R source sha256) e = Some e'" and "sim_rel e s"
    and "\<And>e1. loopState (raft_env R source sha256) e e1 \<Longrightarrow> distinct_keys e1"
  shows "\<exists>s'. sim_deliverLoop R sha256 s = Some s' \<and> sim_rel e' s'"
proof -
  let ?goal = "\<lambda>X e e'. X = raft_env R source sha256 \<longrightarrow> (\<forall>e1. loopState X e e1 \<longrightarrow> distinct_keys e1) \<longrightarrow>
    (\<forall>s. sim_rel e s \<longrightarrow> (\<exists>s'. sim_deliverLoop R sha256 s = Some s' \<and> sim_rel e' s'))"
  have "?goal (raft_env R source sha256) e e'"
  proof (rule deliverLoop.raw_induct [where P = ?goal, OF _ assms(1)])
    fix loop :: "(RCluster, Message, 'a) Env \<Rightarrow> (RCluster, Message, 'a) Engine \<Rightarrow> (RCluster, Message, 'a) Engine option"
      and X :: "(RCluster, Message, 'a) Env" and e e'
    assume IH: "\<And>X e e'. loop X e = Some e' \<Longrightarrow> ?goal X e e'"
      and eq: "deliverNext X e \<bind> case_option (Some e) (loop X) = Some e'"
    obtain r where r: "deliverNext X e = Some r" "case_option (Some e) (loop X) r = Some e'"
      using eq by (auto simp: bind_eq_Some_conv)
    show "?goal X e e'"
    proof (intro impI allI)
      fix s
      assume X: "X = raft_env R source sha256" and d: "\<forall>e1. loopState X e e1 \<longrightarrow> distinct_keys e1"
        and rel: "sim_rel e s"
      obtain r' where r': "sim_deliverNext R sha256 s = Some r'"
        "case r of None \<Rightarrow> r' = None | Some e' \<Rightarrow> \<exists>s'. r' = Some s' \<and> sim_rel e' s'"
        using deliverNext_sim [OF r(1) [unfolded X] rel] d here by blast
      show "\<exists>s'. sim_deliverLoop R sha256 s = Some s' \<and> sim_rel e' s'"
      proof (cases r)
        case None
        then show ?thesis using r(2) r' rel by (simp add: sim_deliverLoop.simps)
      next
        case (Some e1)
        obtain s1 where s1: "r' = Some s1" "sim_rel e1 s1" using r'(2) Some by auto
        have "\<forall>e2. loopState X e1 e2 \<longrightarrow> distinct_keys e2"
          using d deeper r(1) Some by metis
        then have "\<exists>s'. sim_deliverLoop R sha256 s1 = Some s' \<and> sim_rel e' s'"
          using IH [of X e1 e'] r(2) Some X s1(2) by simp
        then show ?thesis using r'(1) s1(1) by (subst sim_deliverLoop.simps) simp
      qed
    qed
  qed
  then show ?thesis using assms(2,3) by blast
qed

lemma EngineStep_sim:
  assumes "EngineStep (raft_env R source sha256) e = Some e'" and "sim_rel e s"
    and "\<And>e1. visited (raft_env R source sha256) (Suc n) e e1 \<Longrightarrow> distinct_keys e1"
  shows "\<exists>s'. sim_Step R sha256 s = Some s' \<and> sim_rel e' s'"
proof -
  obtain e1 e2 where e: "tickAll (raft_env R source sha256) (e\<lparr>gNow := gNow e + 1\<rparr>) = Some e1"
      "Collect (raft_env R source sha256) e1 = Some e2" "deliverLoop (raft_env R source sha256) e2 = Some e'"
    using assms(1) by (auto simp: EngineStep_def bind_eq_Some_conv)
  have rel: "sim_rel (e\<lparr>gNow := gNow e + 1\<rparr>) (s\<lparr>smNow := smNow s + 1\<rparr>)"
    using assms(2) by (simp add: sim_rel_def)
  note t = tickAll_sim [OF e(1) rel]
  obtain s1 where s1: "foldM (\<lambda>nid s. do { c \<leftarrow> onNode nid (Tick stable_ops) (smCluster s); Some (s\<lparr>smCluster := c\<rparr>) })
      (sim_ids (s\<lparr>smNow := smNow s + 1\<rparr>)) (s\<lparr>smNow := smNow s + 1\<rparr>) = Some s1" "sim_rel e1 s1"
    using t by blast
  obtain s2 where s2: "sim_collect R s1 = Some s2" "sim_rel e2 s2" using Collect_sim [OF e(2) s1(2)] by blast
  obtain s' where "sim_deliverLoop R sha256 s2 = Some s'" "sim_rel e' s'"
    using deliverLoop_sim [OF e(3) s2(2)] assms(3) now [OF e(1,2)] by blast
  then show ?thesis using s1(1) s2(1) by (simp add: sim_Step_def Let_def)
qed

lemma Run_sim:
  assumes "Run (raft_env R source sha256) n e = Some e'" and "sim_rel e s"
    and "\<And>e1. visited (raft_env R source sha256) n e e1 \<Longrightarrow> distinct_keys e1"
  shows "\<exists>s'. sim_Run R sha256 n s = Some s' \<and> sim_rel e' s'"
  using assms
proof (induction n arbitrary: e s)
  case (Suc n)
  then obtain e1 where e1: "EngineStep (raft_env R source sha256) e = Some e1"
      "Run (raft_env R source sha256) n e1 = Some e'" by (auto simp: bind_eq_Some_conv)
  obtain s1 where s1: "sim_Step R sha256 s = Some s1" "sim_rel e1 s1"
    using EngineStep_sim [OF e1(1) Suc.prems(2,3)] by blast
  have "\<exists>s'. sim_Run R sha256 n s1 = Some s' \<and> sim_rel e' s'"
    using Suc.IH [OF e1(2) s1(2)] Suc.prems(3) later [OF e1(1)] by blast
  then show ?case using s1(1) by simp
qed simp

lemma addNode_ids: "foldM (rc_addNode nodeCount) xs c = Some c' \<Longrightarrow> rcIds c' = rcIds c @ map of_nat xs"
  by (induction xs arbitrary: c) (auto simp: rc_addNode_def Let_def bind_eq_Some_conv)

lemma in_order_New: "rc_New nodeCount = Some c \<Longrightarrow> in_order c"
  using addNode_ids [of nodeCount "[1..<nodeCount + 1]" "\<lparr>rcIds = [], rcNodes = Map.empty, rcDetached = Map.empty\<rparr>" c]
  by (simp add: rc_New_def in_order_def ids_upto_def del: upt_Suc split: if_splits)

lemma foldM_fails: "x \<in> set xs \<Longrightarrow> (\<And>s. f x s = None) \<Longrightarrow> foldM f xs s = None"
proof (induction xs arbitrary: s)
  case (Cons y ys)
  then show ?case by (cases "f y s") auto
qed simp

lemma New_bound:
  assumes "rc_New nodeCount = Some c"
  shows "nodeCount \<le> 64"
proof (rule ccontr)
  assume "\<not> nodeCount \<le> 64"
  then have "65 \<in> set [1..<nodeCount + 1]" by auto
  then have "foldM (rc_addNode nodeCount) [1..<nodeCount + 1] c0 = None" for c0
    by (rule foldM_fails) (cases freshStore, simp_all add: rc_addNode_def NewNodeWithStore_def nodeBit_def)
  then show False using assms by (simp add: rc_New_def del: upt_Suc split: if_splits)
qed

lemma ucast_of_nat_small: "n < 2 ^ 32 \<Longrightarrow> ucast (of_nat n :: u32) = (of_nat n :: u64)"
  by (rule word_unat_eq_iff [THEN iffD2]) (simp add: unat_of_nat unsigned_ucast_eq take_bit_eq_mod)

lemma electionTimeout_small:
  assumes "i \<le> 64"
  shows "electionTimeout (of_nat i) = 8 + of_nat (i * 2)"
proof -
  have "(of_nat i * 2 :: u32) = of_nat (i * 2)" by simp
  then have "electionTimeout (of_nat i) = 8 + ucast (of_nat (i * 2) :: u32)" by (simp only: electionTimeout_def)
  also have "\<dots> = 8 + of_nat (i * 2)" by (subst ucast_of_nat_small) (use assms in simp_all)
  finally show ?thesis .
qed

lemma sim_New_cluster:
  assumes "rc_New (sfNodes cfg) = Some c"
  shows "\<exists>s. sim_New source cfg = Some s \<and>
    sim_rel (NewEngine (raft_env R source sha256) \<lparr>cfSeed = sfSeed cfg, cfDropPermille = sfDropPermille cfg,
      cfMaxDelay = sfMaxDelay cfg\<rparr> c) s"
proof -
  have "foldM (sim_addNode (sfNodes cfg)) [1..<sfNodes cfg + 1] c0 =
      foldM (rc_addNode (sfNodes cfg)) [1..<sfNodes cfg + 1] c0" for c0
    by (rule foldM_cong) (use New_bound [OF assms] in \<open>auto simp: rc_addNode_def sim_addNode_def electionTimeout_small\<close>)
  then show ?thesis
    using assms in_order_New [OF assms]
    by (auto simp: rc_New_def sim_New_def sim_rel_def NewEngine_def same_queue_def heap_from_def simp del: upt_Suc
        split: if_splits)
qed

text \<open>
  C38: The engine replays the simulator. From the same seed and configuration the heap-driven engine over the
  raft cluster and the simulator with its linear schedule go through the same states: whenever the engine's
  run of \<open>n\<close> steps returns, so does the simulator's, with the same clock, nodes and trace hash, as long as no
  two messages in flight share due time and number (numbers are 64-bit and may wrap).
\<close>

theorem engine_replays_simulator:
  assumes "rc_New (sfNodes cfg) = Some c"
    and "Run (raft_env R source sha256) n (NewEngine (raft_env R source sha256)
      \<lparr>cfSeed = sfSeed cfg, cfDropPermille = sfDropPermille cfg, cfMaxDelay = sfMaxDelay cfg\<rparr> c) = Some e"
    and "\<And>e1. visited (raft_env R source sha256) n (NewEngine (raft_env R source sha256)
      \<lparr>cfSeed = sfSeed cfg, cfDropPermille = sfDropPermille cfg, cfMaxDelay = sfMaxDelay cfg\<rparr> c) e1 \<Longrightarrow>
      distinct_keys e1"
  shows "\<exists>s s'. sim_New source cfg = Some s \<and> sim_Run R sha256 n s = Some s' \<and> smNow s' = gNow e \<and>
    smCluster s' = gCluster e \<and> sim_TraceHash s' = TraceHash e"
proof -
  obtain s where s: "sim_New source cfg = Some s"
    "sim_rel (NewEngine (raft_env R source sha256) \<lparr>cfSeed = sfSeed cfg, cfDropPermille = sfDropPermille cfg,
      cfMaxDelay = sfMaxDelay cfg\<rparr> c) s" using sim_New_cluster [OF assms(1)] by blast
  obtain s' where "sim_Run R sha256 n s = Some s'" "sim_rel e s'" using Run_sim [OF assms(2) s(2) assms(3)] by blast
  then show ?thesis using s(1) by (auto simp: sim_rel_def sim_TraceHash_def TraceHash_def)
qed

subsection \<open>Crashes and proposals\<close>

lemma same_queue_isolate:
  assumes "same_queue q l" and "isolateQueue nid q = (dropped, q')"
  shows "same_queue q' (keepEvents nid l)"
proof -
  have q': "heap q'" "mset q' = filter_mset (\<lambda>ev. evFrom ev \<noteq> nid \<and> evTo ev \<noteq> nid) (mset q)"
    using isolateQueue_spec [of nid q] assms(2) by auto
  have "set_mset (mset q') \<subseteq> set_mset (mset q)" unfolding q'(2) by auto
  then have sub: "set q' \<subseteq> set q" by simp
  have "mset (keepEvents nid l) =
      image_mset view (filter_mset (\<lambda>ev. mFrom (evMsg ev) \<noteq> nid \<and> mTo (evMsg ev) \<noteq> nid) (mset q))"
    using assms(1) by (simp add: same_queue_def keepEvents_def mset_filter filter_mset_image_mset view_def)
  also have "filter_mset (\<lambda>ev. mFrom (evMsg ev) \<noteq> nid \<and> mTo (evMsg ev) \<noteq> nid) (mset q) = mset q'"
    unfolding q'(2) by (rule filter_mset_cong) (use assms(1) in \<open>auto simp: same_queue_def\<close>)
  finally show ?thesis using q'(1) sub assms(1) by (auto simp: same_queue_def)
qed

lemma same_recovery: "sim_reopen = reopen" "sim_recovered = recovered"
  unfolding fun_eq_iff sim_reopen_def reopen_def sim_recovered_def recovered_def electionTimeout_def by simp_all

lemma in_order_Restart: "Restart nid c = Some (err, c') \<Longrightarrow> in_order c' = in_order c"
  by (auto simp: Restart_def in_order_def split: Option.bind_splits option.splits sum.splits)

text \<open>
  C39: A crash in the engine is the simulator's crash. Restarting a node of the raft cluster and, when the
  restart succeeds, isolating the node in the engine does to a related pair of states what the simulator's
  \<open>CrashRestart\<close> does in one call: the same error or success, the same recovered node, and the same
  messages left in flight. Errors are the same up to the package name that begins their text.
\<close>

theorem restart_replays_crash:
  assumes "sim_rel e s" and "Restart nid (gCluster e) = Some (err, c)"
  shows "\<exists>s'. CrashRestart nid s = Some (err, s') \<and>
    sim_rel (if err = None then snd (Isolate nid (e\<lparr>gCluster := c\<rparr>)) else e\<lparr>gCluster := c\<rparr>) s'"
proof -
  obtain dropped q' where iso: "isolateQueue nid (gQueue e) = (dropped, q')" by (cases "isolateQueue nid (gQueue e)")
  have q': "same_queue q' (keepEvents nid (smQueue s))"
    by (rule same_queue_isolate [OF _ iso]) (use assms(1) in \<open>simp add: sim_rel_def\<close>)
  have "CrashRestart nid s = Some (err, s\<lparr>smCluster := c,
      smQueue := if err = None then keepEvents nid (smQueue s) else smQueue s\<rparr>)"
    using assms by (auto simp: sim_rel_def Restart_def CrashRestart_def same_recovery Let_def
        split: Option.bind_splits option.splits sum.splits)
  then show ?thesis
    using assms(1) q' in_order_Restart [OF assms(2)] by (simp add: sim_rel_def Isolate_def iso)
qed

lemma in_order_firstAccepting: "firstAccepting f nids c = Some (ok, c') \<Longrightarrow> in_order c' = in_order c"
  by (induction f nids c rule: firstAccepting.induct)
    (auto simp: in_order_def bind_eq_Some_conv Let_def split: if_splits)

lemma sim_proposal_rel:
  assumes "sim_rel e s" and "firstAccepting f (rcIds (gCluster e)) (gCluster e) = Some (ok, c)"
    and "(if ok then Collect (raft_env R source sha256) (e\<lparr>gCluster := c\<rparr>) else Some (e\<lparr>gCluster := c\<rparr>)) = Some e'"
  shows "\<exists>s'. sim_proposal R f s = Some (ok, s') \<and> sim_rel e' s'"
proof -
  have rel: "sim_rel (e\<lparr>gCluster := c\<rparr>) (s\<lparr>smCluster := c\<rparr>)"
    using assms(1) in_order_firstAccepting [OF assms(2)] by (simp add: sim_rel_def)
  have "sim_proposal R f s =
      (if ok then map_option (Pair True) (sim_collect R (s\<lparr>smCluster := c\<rparr>)) else Some (False, s\<lparr>smCluster := c\<rparr>))"
    using assms(1,2) sim_ids_rel [OF assms(1)] by (simp add: sim_proposal_def rc_Nodes_def sim_rel_def)
  then show ?thesis using Collect_sim [OF _ rel] assms(3) rel by (cases ok) fastforce+
qed

subsection \<open>The two safety checks\<close>

definition leaderTerms :: "(u32 \<times> 's Node) set \<Rightarrow> (u64 \<times> u32) set" where
  "leaderTerms N = (\<lambda>(i, n). (nTerm n, i)) ` {x \<in> N. nState (snd x) = Leader}"

definition agree :: "(u64 \<times> u32) set \<Rightarrow> (u64 \<Rightarrow> u32 option) \<Rightarrow> bool" where
  "agree P leaders \<longleftrightarrow> (\<forall>t i. (t, i) \<in> P \<longrightarrow> leaders t \<in> {None, Some i}) \<and>
     (\<forall>t i j. (t, i) \<in> P \<longrightarrow> (t, j) \<in> P \<longrightarrow> i = j)"

lemma agree_insert:
  "agree (insert (t, i) P) leaders \<longleftrightarrow> leaders t \<in> {None, Some i} \<and> agree P (leaders(t \<mapsto> i))"
  unfolding agree_def fun_upd_apply by (intro iffI; (elim conjE)?; intro conjI allI impI; (auto split: if_splits; blast))

lemma leaderTerms_Cons:
  "leaderTerms (insert (i, n) N) =
     (if nState n = Leader then insert (nTerm n, i) (leaderTerms N) else leaderTerms N)"
  by (auto simp: leaderTerms_def)

lemma electionCheck_iff: "electionCheck ns leaders = None \<longleftrightarrow> agree (leaderTerms (set ns)) leaders"
proof (induction ns leaders rule: electionCheck.induct)
  case 1
  then show ?case by (simp add: agree_def leaderTerms_def)
next
  case (2 nid n ns leaders)
  then show ?case
    by (cases "nState n = Leader"; cases "leaders (nTerm n)")
      (simp_all add: leaderTerms_Cons agree_insert del: fun_upd_apply)
qed

lemma indexCheck_iff: "indexCheck ns = None \<longleftrightarrow> (\<forall>x \<in> set ns. \<not> badIndexes (snd x))"
  by (induction ns rule: indexCheck.induct) auto

lemma safetyNodes_iff:
  "safetyNodes ns leaders = None \<longleftrightarrow> electionCheck ns leaders = None \<and> indexCheck ns = None"
  by (induction ns leaders rule: safetyNodes.induct) (auto simp: Let_def split: option.splits if_splits)

lemma prefixRow_iff: "prefixRow x ys = Some None \<longleftrightarrow> (\<forall>y \<in> set ys. prefixPair x y = Some None)"
  by (induction ys) (auto split: Option.bind_splits option.splits)

lemma safetyPairs_iff:
  "safetyPairs xs inner = Some None \<longleftrightarrow>
     (\<forall>x \<in> set xs. \<forall>y \<in> set (inner (fst x)). fst x < fst y \<longrightarrow> prefixPair x y = Some None)"
proof (induction xs)
  case (Cons x xs)
  have "safetyPairs (x # xs) inner = Some None \<longleftrightarrow>
      prefixRow x (filter (\<lambda>y. \<not> fst y \<le> fst x) (inner (fst x))) = Some None \<and> safetyPairs xs inner = Some None"
    by (auto split: Option.bind_splits option.splits)
  then show ?case using Cons by (auto simp: prefixRow_iff not_le)
qed simp

lemma prefixCheck_iff:
  assumes "sorted_wrt (<) (map fst ns)"
  shows "prefixCheck ns = Some None \<longleftrightarrow>
    (\<forall>x \<in> set ns. \<forall>y \<in> set ns. fst x < fst y \<longrightarrow> prefixPair x y = Some None)"
  using assms
proof (induction ns)
  case (Cons x xs)
  have "prefixCheck (x # xs) = Some None \<longleftrightarrow> prefixRow x xs = Some None \<and> prefixCheck xs = Some None"
    by (auto split: Option.bind_splits option.splits)
  moreover have "\<forall>y \<in> set xs. fst x < fst y" using Cons.prems by auto
  ultimately show ?case using Cons by (auto simp: prefixRow_iff)
qed simp

lemma nodesOf_ids: "nodesOf c = Some ns \<Longrightarrow> map fst ns = rcIds c"
proof -
  have "foldr (\<lambda>nid rest. do { n \<leftarrow> rcNodes c nid; ns \<leftarrow> rest; Some ((nid, n) # ns) }) ids (Some []) = Some ns \<Longrightarrow>
      map fst ns = ids" for ids
    by (induction ids arbitrary: ns) (auto simp: bind_eq_Some_conv)
  then show "nodesOf c = Some ns \<Longrightarrow> map fst ns = rcIds c" by (simp add: nodesOf_def)
qed

text \<open>
  C40: Splitting the safety check into named invariants loses nothing. In whatever orders Go ranges over the
  node map, the simulator's \<open>CheckSafety\<close> finds no violation exactly when the three invariants of the raft
  cluster find none.
\<close>

theorem CheckSafety_iff_invariants:
  assumes "nodesOf c = Some ns" and "sorted_wrt (<) (rcIds c)"
    and "mset first = mset ns" and "mset outer = mset ns" and "\<And>a. mset (inner a) = mset ns"
  shows "CheckSafety first outer inner = Some None \<longleftrightarrow>
    (\<forall>iv \<in> set rc_SafetyInvariants. ivCheck iv c = None)"
proof -
  have sets: "set first = set ns" "set outer = set ns" "\<And>a. set (inner a) = set ns"
    using assms(3-5) by (auto dest: mset_eq_setD)
  have nodes: "safetyNodes first Map.empty = None \<longleftrightarrow> electionCheck ns Map.empty = None \<and> indexCheck ns = None"
    by (simp add: safetyNodes_iff electionCheck_iff indexCheck_iff sets)
  have "safetyPairs outer inner = Some None \<longleftrightarrow> prefixCheck ns = Some None"
    using prefixCheck_iff [of ns] nodesOf_ids [OF assms(1)] assms(2) by (simp add: safetyPairs_iff sets)
  then have "CheckSafety first outer inner = Some None \<longleftrightarrow>
      electionCheck ns Map.empty = None \<and> indexCheck ns = None \<and> prefixCheck ns = Some None"
    using nodes by (cases "safetyNodes first Map.empty") (auto simp: CheckSafety_def)
  then show ?thesis
    using assms(1) by (auto simp: rc_SafetyInvariants_def invariantOf_def checkElectionSafety_def checkIndexSanity_def
        checkCommittedPrefix_def split: option.splits)
qed

subsection \<open>A cluster of two nodes\<close>

definition tame_rand :: "unit Rand" where
  "tame_rand = \<lparr>rIntn = (\<lambda>_ r. (0, r)), rInt63n = (\<lambda>_ r. (0, r))\<rparr>"

definition pair_config :: SimConfig where
  "pair_config = \<lparr>sfNodes = 2, sfSeed = 7, sfDropPermille = 0, sfMaxDelay = 3\<rparr>"

definition pair_cluster :: RCluster where
  "pair_cluster = the (rc_New 2)"

definition pair_env :: "(RCluster, Message, unit) Env" where
  "pair_env = raft_env tame_rand (\<lambda>_. ()) (\<lambda>b. b)"

definition pair_engine :: "(RCluster, Message, unit) Engine" where
  "pair_engine = NewEngine pair_env \<lparr>cfSeed = sfSeed pair_config, cfDropPermille = sfDropPermille pair_config,
     cfMaxDelay = sfMaxDelay pair_config\<rparr> pair_cluster"

lemma pair_New: "rc_New 2 = Some pair_cluster"
proof -
  have "Option.is_none (rc_New 2) = False" by code_simp
  then show ?thesis by (simp add: pair_cluster_def Option.is_none_def)
qed

lemma pair_first_step:
  "map_option gQueue (do { e1 \<leftarrow> tickAll pair_env (pair_engine\<lparr>gNow := gNow pair_engine + 1\<rparr>); Collect pair_env e1 }) =
     Some []"
  by code_simp

lemma pair_restart: "map_option fst (Restart 1 pair_cluster) = Some None"
  by code_simp

lemma pair_nodes: "map_option (map fst) (nodesOf pair_cluster) = Some [1, 2]"
  by code_simp

lemma pair_safe:
  "CheckSafety (rev (the (nodesOf pair_cluster))) (the (nodesOf pair_cluster)) (\<lambda>_. rev (the (nodesOf pair_cluster))) =
     Some None"
  by code_simp

lemma pair_step:
  obtains e1 e2 where "tickAll pair_env (pair_engine\<lparr>gNow := gNow pair_engine + 1\<rparr>) = Some e1"
    "Collect pair_env e1 = Some e2" "gQueue e2 = []" "EngineStep pair_env pair_engine = Some e2"
proof -
  obtain e1 e2 where e: "tickAll pair_env (pair_engine\<lparr>gNow := gNow pair_engine + 1\<rparr>) = Some e1"
      "Collect pair_env e1 = Some e2" "gQueue e2 = []"
    using pair_first_step by (auto simp: bind_eq_Some_conv)
  then have "deliverLoop pair_env e2 = Some e2" by (simp add: deliverLoop.simps deliverNext_def)
  then show ?thesis using that e by (simp add: EngineStep_def)
qed

lemma pair_visited:
  assumes "visited pair_env 1 pair_engine e"
  shows "distinct_keys e"
proof -
  obtain e1 e2 where e: "tickAll pair_env (pair_engine\<lparr>gNow := gNow pair_engine + 1\<rparr>) = Some e1"
      "Collect pair_env e1 = Some e2" "gQueue e2 = []" by (rule pair_step)
  have stop: "loopState pair_env e2 e3 \<Longrightarrow> e3 = e2" for e3
    using e(3) by (auto elim: loopStateE simp: deliverNext_def)
  show ?thesis
    using assms
  proof (rule visitedE)
    fix a1 a2 n
    assume "tickAll pair_env (pair_engine\<lparr>gNow := gNow pair_engine + 1\<rparr>) = Some a1" "Collect pair_env a1 = Some a2"
      "loopState pair_env a2 e"
    then have "e = e2" using e(1,2) stop by auto
    then show ?thesis using e(3) by (simp add: distinct_keys_def)
  next
    fix a1 n
    assume "1 = Suc n" "visited pair_env n a1 e"
    then show ?thesis by (auto elim: visitedE)
  qed
qed

theorem engine_replays_simulator_witness:
  "\<exists>e s s'. Run pair_env 1 pair_engine = Some e \<and> sim_New (\<lambda>_. ()) pair_config = Some s \<and>
    sim_Run tame_rand (\<lambda>b. b) 1 s = Some s' \<and> smNow s' = gNow e \<and> smCluster s' = gCluster e \<and>
    sim_TraceHash s' = TraceHash e"
proof -
  obtain e where e: "EngineStep pair_env pair_engine = Some e" by (rule pair_step)
  have n: "rc_New (sfNodes pair_config) = Some pair_cluster" using pair_New by (simp add: pair_config_def)
  have r: "Run pair_env 1 pair_engine = Some e" using e by simp
  show ?thesis
    using engine_replays_simulator [OF n r [unfolded pair_engine_def pair_env_def]
        pair_visited [unfolded pair_engine_def pair_env_def]] r by blast
qed

text \<open>The pair with two messages in flight, one from node 1 to node 2 and one from node 2 to itself.\<close>

definition ping :: "u32 \<Rightarrow> Message" where
  "ping from = zero_Message\<lparr>mFrom := from, mTo := 2\<rparr>"

definition busy_engine :: "(RCluster, Message, unit) Engine" where
  "busy_engine = pair_engine\<lparr>gQueue := push \<lparr>evAt = 2, evSeq = 2, evFrom = 2, evTo = 2, evMsg = ping 2\<rparr>
     (push \<lparr>evAt = 3, evSeq = 1, evFrom = 1, evTo = 2, evMsg = ping 1\<rparr> [])\<rparr>"

definition busy_queue :: "Message scheduled list" where
  "busy_queue = [\<lparr>scAt = 3, scSeq = 1, scMsg = ping 1\<rparr>, \<lparr>scAt = 2, scSeq = 2, scMsg = ping 2\<rparr>]"

lemma busy_related: "\<exists>s. sim_rel busy_engine s \<and> smQueue s = busy_queue"
proof -
  have n: "rc_New (sfNodes pair_config) = Some pair_cluster" using pair_New by (simp add: pair_config_def)
  obtain s where s: "sim_rel pair_engine s"
    using sim_New_cluster [OF n] unfolding pair_engine_def pair_env_def by blast
  have none: "same_queue [] []" by (simp add: same_queue_def heap_from_def)
  have "same_queue (gQueue busy_engine) busy_queue"
    using same_queue_push [OF same_queue_push [OF none, of 3 1 "ping 1"], of 2 2 "ping 2"]
    by (simp add: busy_engine_def busy_queue_def ping_def)
  then show ?thesis
    using s by (intro exI [of _ "s\<lparr>smQueue := busy_queue\<rparr>"]) (simp add: sim_rel_def busy_engine_def)
qed

theorem restart_replays_crash_witness:
  "\<exists>s c s'. sim_rel busy_engine s \<and> length (smQueue s) = 2 \<and> Restart 1 pair_cluster = Some (None, c) \<and>
    CrashRestart 1 s = Some (None, s') \<and> sim_rel (snd (Isolate 1 (busy_engine\<lparr>gCluster := c\<rparr>))) s'"
proof -
  obtain s where s: "sim_rel busy_engine s" "smQueue s = busy_queue" using busy_related by blast
  have g: "gCluster busy_engine = pair_cluster" by (simp add: busy_engine_def pair_engine_def NewEngine_def)
  then obtain c where c: "Restart 1 (gCluster busy_engine) = Some (None, c)" using pair_restart by auto
  have "length (smQueue s) = 2" by (simp add: s(2) busy_queue_def)
  then show ?thesis using restart_replays_crash [OF s(1) c] s(1) c g by auto
qed

lemma pair_sorted: "sorted_wrt (<) [1, 2 :: u32]"
  by simp

theorem CheckSafety_iff_invariants_witness:
  "CheckSafety (rev (the (nodesOf pair_cluster))) (the (nodesOf pair_cluster)) (\<lambda>_. rev (the (nodesOf pair_cluster))) =
     Some None \<and> list_all (\<lambda>iv. ivCheck iv pair_cluster = None) rc_SafetyInvariants"
proof -
  obtain ns where ns: "nodesOf pair_cluster = Some ns" "map fst ns = [1, 2]" using pair_nodes by auto
  have "sorted_wrt (<) (rcIds pair_cluster)" using nodesOf_ids [OF ns(1)] ns(2) by (metis (no_types) pair_sorted)
  from CheckSafety_iff_invariants [OF ns(1) this, of "rev ns" ns "\<lambda>_. rev ns"] show ?thesis
    using pair_safe ns(1) by (simp add: list_all_iff)
qed

end
