(* ===== verification/File_Device.thy ===== *)
theory File_Device
  imports Raft_Wal
begin

text \<open>
  The log device of the server, \<^verbatim>\<open>storage/wal/file_device.go\<close>, over an operating system file. The file has the
  content other readers see, the content that is on stable storage, and the offset of the open descriptor. Every
  call into the operating system may fail; which ones do is the parameter \<open>os\<close>, and a write that fails may have
  written a prefix. Without failing calls the device refines the memory device, and so does everything built on
  it; with a failing read it does not.
\<close>

subsection \<open>The device\<close>

record FileDevice =
  fvContent :: bytes
  fvStable :: bytes
  fvOffset :: nat
  fvOpen :: bool

datatype OsCall = OsWrite | OsSync | OsReadFile | OsStat | OsTruncate | OsSeek

text \<open>\<open>None\<close> is success; \<open>Some k\<close> a failure, for a write after \<open>k\<close> bytes.\<close>

type_synonym os = "OsCall \<Rightarrow> FileDevice \<Rightarrow> nat option"

definition OpenFileDevice :: "error option \<Rightarrow> error option \<Rightarrow> bytes \<Rightarrow> error + FileDevice" where
  "OpenFileDevice openErr seekErr content =
     (case openErr of
        Some e \<Rightarrow> Inl e
      | None \<Rightarrow>
          (case seekErr of
             Some e \<Rightarrow> Inl e
           | None \<Rightarrow> Inr \<lparr>fvContent = content, fvStable = content, fvOffset = length content, fvOpen = True\<rparr>))"

text \<open>A write at the offset; a gap before it reads as zeros.\<close>

definition writeAt :: "bytes \<Rightarrow> FileDevice \<Rightarrow> FileDevice" where
  "writeAt p d = d\<lparr>fvContent := take (fvOffset d) (fvContent d) @ replicate (fvOffset d - length (fvContent d)) 0 @ p @
     drop (fvOffset d + length p) (fvContent d), fvOffset := fvOffset d + length p\<rparr>"

definition fv_Append :: "os \<Rightarrow> bytes \<Rightarrow> FileDevice \<Rightarrow> error option \<times> FileDevice" where
  "fv_Append os p d =
     (if \<not> fvOpen d then (Some (ErrFile 0), d)
      else case os OsWrite d of
        None \<Rightarrow> (None, writeAt p d)
      | Some k \<Rightarrow> (Some (ErrFile 1), writeAt (take k p) d))"

definition fv_Sync :: "os \<Rightarrow> FileDevice \<Rightarrow> error option \<times> FileDevice" where
  "fv_Sync os d =
     (if \<not> fvOpen d then (Some (ErrFile 0), d)
      else case os OsSync d of
        None \<Rightarrow> (None, d\<lparr>fvStable := fvContent d\<rparr>)
      | Some _ \<Rightarrow> (Some (ErrFile 2), d))"

definition fv_DurableBytes :: "os \<Rightarrow> FileDevice \<Rightarrow> bytes \<times> FileDevice" where
  "fv_DurableBytes os d =
     (case fv_Sync os d of
        (Some _, d1) \<Rightarrow> ([], d1)
      | (None, d1) \<Rightarrow>
          (case os OsReadFile d1 of
             Some _ \<Rightarrow> ([], d1)
           | None \<Rightarrow> (fvContent d1, d1)))"

definition fv_TruncateDurable :: "os \<Rightarrow> int \<Rightarrow> FileDevice \<Rightarrow> error option \<times> FileDevice" where
  "fv_TruncateDurable os sz d =
     (if sz < 0 then (Some ErrInvalidTear, d)
      else if \<not> fvOpen d \<or> os OsStat d \<noteq> None then (Some (ErrFile 3), d)
      else if sz > int (length (fvContent d)) then (Some ErrInvalidTear, d)
      else if os OsTruncate d \<noteq> None then (Some (ErrFile 4), d)
      else
        let d1 = d\<lparr>fvContent := take (nat sz) (fvContent d)\<rparr> in
        if os OsSeek d1 \<noteq> None then (Some (ErrFile 5), d1)
        else fv_Sync os (d1\<lparr>fvOffset := length (fvContent d1)\<rparr>))"

definition fv_Close :: "error option \<Rightarrow> FileDevice \<Rightarrow> error option \<times> FileDevice" where
  "fv_Close closeErr d = (if \<not> fvOpen d then (None, d) else (closeErr, d\<lparr>fvOpen := False\<rparr>))"

definition file_device :: "os \<Rightarrow> FileDevice Device" where
  "file_device os = \<lparr>dAppend = fv_Append os, dSync = fv_Sync os, dDurableBytes = fv_DurableBytes os,
     dTruncateDurable = fv_TruncateDurable os\<rparr>"

fun runOps :: "'d Device \<Rightarrow> StoreOp list \<Rightarrow> 'd RaftwalStore \<Rightarrow> error option list \<times> 'd RaftwalStore" where
  "runOps D [] s = ([], s)"
| "runOps D (op # ops) s =
     (case runOp D op s of (e, s1) \<Rightarrow> case runOps D ops s1 of (es, s2) \<Rightarrow> (e # es, s2))"

subsection \<open>Devices that refine one another\<close>

text \<open>
  \<open>C\<close> does on a well-formed state what \<open>A\<close> does on its image; reading and truncating only while nothing waits
  for a sync, which is how the log uses them.
\<close>

locale device_refinement =
  fixes C :: "'c Device" and A :: "'a Device" and abs :: "'c \<Rightarrow> 'a" and wf :: "'c \<Rightarrow> bool" and idle :: "'c \<Rightarrow> bool"
  assumes append_abs: "wf d \<Longrightarrow> dAppend C p d = (e, d') \<Longrightarrow> wf d' \<and> dAppend A p (abs d) = (e, abs d')"
    and sync_abs: "wf d \<Longrightarrow> dSync C d = (e, d') \<Longrightarrow> wf d' \<and> idle d' \<and> dSync A (abs d) = (e, abs d')"
    and bytes_abs: "wf d \<Longrightarrow> idle d \<Longrightarrow> dDurableBytes C d = (bs, d') \<Longrightarrow>
      wf d' \<and> idle d' \<and> dDurableBytes A (abs d) = (bs, abs d')"
    and truncate_abs: "wf d \<Longrightarrow> idle d \<Longrightarrow> dTruncateDurable C n d = (e, d') \<Longrightarrow>
      wf d' \<and> idle d' \<and> dTruncateDurable A n (abs d) = (e, abs d')"
begin

definition absLog :: "'c Log \<Rightarrow> 'a Log" where
  "absLog l = \<lparr>lDevice = abs (lDevice l), lNextSeq = lNextSeq l\<rparr>"

definition absStore :: "'c RaftwalStore \<Rightarrow> 'a RaftwalStore" where
  "absStore s = RaftwalState.extend (RaftwalState.truncate s) \<lparr>rwLog = absLog (rwLog s)\<rparr>"

definition ready :: "'c RaftwalStore \<Rightarrow> bool" where
  "ready s \<longleftrightarrow> wf (lDevice (rwLog s)) \<and> idle (lDevice (rwLog s))"

lemma absLog_sel [simp]: "lDevice (absLog l) = abs (lDevice l)" "lNextSeq (absLog l) = lNextSeq l"
  by (simp_all add: absLog_def)

lemma absStore_sel [simp]:
  "rwHard (absStore s) = rwHard s" "rwData (absStore s) = rwData s" "rwBase (absStore s) = rwBase s"
  "rwLog (absStore s) = absLog (rwLog s)"
  by (simp_all add: absStore_def RaftwalState.defs)

lemma wal_Open_abs:
  assumes "wf d" and "idle d"
  shows "case wal_Open C d of
      Inl e \<Rightarrow> wal_Open A (abs d) = Inl e
    | Inr (l, rs) \<Rightarrow> wf (lDevice l) \<and> idle (lDevice l) \<and> wal_Open A (abs d) = Inr (absLog l, rs)"
proof -
  obtain bs1 d1 where d1: "dDurableBytes C d = (bs1, d1)" by fastforce
  obtain bs2 d2 where d2: "dDurableBytes C d1 = (bs2, d2)" by fastforce
  obtain rs v err where r: "Recover bs1 = (rs, v, err)" by (metis prod_cases3)
  obtain e3 d3 where d3: "dTruncateDurable C (int v) d2 = (e3, d3)" by fastforce
  note a1 = bytes_abs [OF assms d1] and a2 = bytes_abs [OF _ _ d2] and a3 = truncate_abs [OF _ _ d3]
  show ?thesis
    using a1 a2 a3 d1 d2 d3 r
    by (cases err; cases "v = length bs2"; cases e3) (simp_all add: wal_Open_def Let_def absLog_def)
qed

lemma wal_Append_abs:
  assumes "wf (lDevice l)" and "wal_Append C None [entry] l = (e, l')"
  shows "wf (lDevice l') \<and> wal_Append A None [entry] (absLog l) = (e, absLog l')"
proof -
  obtain e1 d1 where d1: "dAppend C (Encode \<lparr>rSequence = lNextSeq l, rEntry = entry\<rparr>) (lDevice l) = (e1, d1)" by fastforce
  show ?thesis using append_abs [OF assms(1) d1] assms(2) d1 by (cases e1) (auto simp: absLog_def)
qed

lemma wal_Sync_abs:
  assumes "wf (lDevice l)" and "wal_Sync C None l = (e, l')"
  shows "wf (lDevice l') \<and> idle (lDevice l') \<and> wal_Sync A None (absLog l) = (e, absLog l')"
proof -
  obtain d1 where d1: "dSync C (lDevice l) = (e, d1)" "l' = l\<lparr>lDevice := d1\<rparr>"
    using assms(2) by (auto simp: wal_Sync_def split: prod.splits)
  show ?thesis using sync_abs [OF assms(1) d1(1)] d1(2) by (simp add: wal_Sync_def absLog_def)
qed

lemma rw_append_abs:
  assumes "ready s" and "rw_append C entry s = (e, s')"
  shows "(e = None \<longrightarrow> ready s') \<and> rw_append A entry (absStore s) = (e, absStore s')"
proof -
  obtain e1 l1 where l1: "wal_Append C None [entry] (rwLog s) = (e1, l1)" by fastforce
  obtain e2 l2 where l2: "wal_Sync C None l1 = (e2, l2)" by fastforce
  have a1: "wf (lDevice l1) \<and> wal_Append A None [entry] (absLog (rwLog s)) = (e1, absLog l1)"
    using wal_Append_abs [OF _ l1] assms(1) by (simp add: ready_def)
  have a2: "wf (lDevice l2) \<and> idle (lDevice l2) \<and> wal_Sync A None (absLog l1) = (e2, absLog l2)"
    using wal_Sync_abs [OF _ l2] a1 by blast
  show ?thesis
    using assms(2) l1 l2 a1 a2
    by (cases e1) (auto simp: rw_append_def ready_def absStore_def RaftwalState.defs simp del: wal_Append.simps)
qed

lemma absStore_upd [simp]:
  "absStore (s\<lparr>rwHard := h\<rparr>) = (absStore s)\<lparr>rwHard := h\<rparr>" "absStore (s\<lparr>rwData := es\<rparr>) = (absStore s)\<lparr>rwData := es\<rparr>"
  "absStore (s\<lparr>rwBase := b\<rparr>) = (absStore s)\<lparr>rwBase := b\<rparr>"
  by (simp_all add: absStore_def RaftwalState.defs)

lemma ready_upd [simp]:
  "ready (s\<lparr>rwHard := h\<rparr>) = ready s" "ready (s\<lparr>rwData := es\<rparr>) = ready s" "ready (s\<lparr>rwBase := b\<rparr>) = ready s"
  by (simp_all add: ready_def)

lemma runOp_abs:
  assumes "ready s" and "runOp C op s = (e, s')"
  shows "(e = None \<longrightarrow> ready s') \<and> runOp A op (absStore s) = (e, absStore s')"
proof -
  obtain e1 s1 where a: "rw_append C (opRecord op s) s = (e1, s1)" by fastforce
  note abs = rw_append_abs [OF assms(1) a]
  show ?thesis
  proof (cases op)
    case (OpHard h)
    then show ?thesis using assms a abs by (cases e1) (auto simp: rw_SaveHardState_def split: if_splits)
  next
    case (OpAppend i en)
    then show ?thesis using assms a abs by (cases e1) (auto simp: rw_Append_def Let_def split: if_splits)
  next
    case (OpCompact i)
    then show ?thesis using assms a abs by (cases e1) (auto simp: rw_CompactLog_def Let_def split: if_splits)
  next
    case (OpReset i t)
    then show ?thesis using assms a abs by (cases e1) (auto simp: rw_ResetBase_def split: if_splits)
  qed
qed

end

text \<open>If moreover appending never fails, the store stays ready whatever the operations answer.\<close>

locale total_refinement = device_refinement +
  assumes append_total: "wf d \<Longrightarrow> \<exists>d'. dAppend C p d = (None, d')"
begin

lemma rw_append_ready:
  assumes "ready s" and "rw_append C entry s = (e, s')"
  shows "ready s'"
proof -
  obtain d1 where d1: "dAppend C (Encode \<lparr>rSequence = lNextSeq (rwLog s), rEntry = entry\<rparr>) (lDevice (rwLog s)) = (None, d1)"
    using append_total assms(1) by (auto simp: ready_def)
  then obtain l1 where l1: "wal_Append C None [entry] (rwLog s) = (None, l1)" by simp
  have "wf (lDevice l1)" using wal_Append_abs [OF _ l1] assms(1) by (simp add: ready_def)
  then show ?thesis
    using assms(2) l1 wal_Sync_abs [of l1]
    by (auto simp: rw_append_def ready_def simp del: wal_Append.simps split: prod.splits)
qed

lemma runOp_ready: "ready s \<Longrightarrow> runOp C op s = (e, s') \<Longrightarrow> ready s'"
  using rw_append_ready [of s]
  by (cases op) (fastforce simp: rw_SaveHardState_def rw_Append_def rw_CompactLog_def rw_ResetBase_def Let_def
      split: if_splits prod.splits option.splits)+

lemma runOps_abs:
  assumes "ready s" and "runOps C ops s = (errs, s')"
  shows "ready s' \<and> runOps A ops (absStore s) = (errs, absStore s')"
  using assms
proof (induction ops arbitrary: s errs)
  case (Cons op ops)
  obtain e s1 where s1: "runOp C op s = (e, s1)" by fastforce
  obtain es where es: "runOps C ops s1 = (es, s')" "errs = e # es" using Cons.prems(2) s1 by (auto split: prod.splits)
  show ?case
    using runOp_abs [OF Cons.prems(1) s1] Cons.IH [OF runOp_ready [OF Cons.prems(1) s1] es(1)] es(2) by simp
qed simp

end

subsection \<open>The file refines the memory device\<close>

definition calm :: os where
  "calm = (\<lambda>_ _. None)"

definition fv_wf :: "FileDevice \<Rightarrow> bool" where
  "fv_wf d \<longleftrightarrow> fvOpen d \<and> fvOffset d = length (fvContent d) \<and> fvStable d = take (length (fvStable d)) (fvContent d)"

definition fv_idle :: "FileDevice \<Rightarrow> bool" where
  "fv_idle d \<longleftrightarrow> fvStable d = fvContent d"

definition fv_abs :: "FileDevice \<Rightarrow> MemoryDevice" where
  "fv_abs d = \<lparr>md_durable = fvStable d, md_pending = drop (length (fvStable d)) (fvContent d)\<rparr>"

lemma fv_wf_content: "fv_wf d \<Longrightarrow> fvContent d = fvStable d @ drop (length (fvStable d)) (fvContent d)"
  unfolding fv_wf_def by (metis append_take_drop_id)

lemma fv_wf_length: "fv_wf d \<Longrightarrow> length (fvStable d) \<le> length (fvContent d)"
  using fv_wf_content [of d] by (metis length_append le_add1)

lemma calm_append: "fv_wf d \<Longrightarrow> fv_Append calm p d = (None, d\<lparr>fvContent := fvContent d @ p, fvOffset := fvOffset d + length p\<rparr>)"
  by (simp add: fv_wf_def fv_Append_def calm_def writeAt_def)

interpretation on_file: total_refinement "file_device calm" memory_device fv_abs fv_wf fv_idle
proof unfold_locales
  fix d d' :: FileDevice and p bs :: bytes and e n
  show "fv_wf d \<Longrightarrow> \<exists>d'. dAppend (file_device calm) p d = (None, d')"
    by (simp add: file_device_def calm_append)
  show "fv_wf d \<Longrightarrow> dAppend (file_device calm) p d = (e, d') \<Longrightarrow>
      fv_wf d' \<and> dAppend memory_device p (fv_abs d) = (e, fv_abs d')"
    using fv_wf_length [of d] calm_append [of d p]
    by (auto simp: file_device_def memory_device_def md_Append_def fv_abs_def fv_wf_def)
  show "fv_wf d \<Longrightarrow> dSync (file_device calm) d = (e, d') \<Longrightarrow>
      fv_wf d' \<and> fv_idle d' \<and> dSync memory_device (fv_abs d) = (e, fv_abs d')"
    using fv_wf_content [of d]
    by (auto simp: file_device_def memory_device_def md_Sync_def fv_abs_def fv_wf_def fv_idle_def fv_Sync_def calm_def)
  show "fv_wf d \<Longrightarrow> fv_idle d \<Longrightarrow> dDurableBytes (file_device calm) d = (bs, d') \<Longrightarrow>
      fv_wf d' \<and> fv_idle d' \<and> dDurableBytes memory_device (fv_abs d) = (bs, fv_abs d')"
    by (auto simp: file_device_def memory_device_def md_DurableBytes_def fv_abs_def fv_wf_def fv_idle_def fv_Sync_def
        fv_DurableBytes_def calm_def)
  show "fv_wf d \<Longrightarrow> fv_idle d \<Longrightarrow> dTruncateDurable (file_device calm) n d = (e, d') \<Longrightarrow>
      fv_wf d' \<and> fv_idle d' \<and> dTruncateDurable memory_device n (fv_abs d) = (e, fv_abs d')"
    by (auto simp: file_device_def memory_device_def md_TruncateDurable_def fv_abs_def fv_wf_def fv_idle_def fv_Sync_def
        fv_TruncateDurable_def calm_def Let_def split: if_splits)
qed

text \<open>
  The raft log on a file is the raft log on the memory device. Open the store on a file and run any
  operations on it; as long as the operating system fails no call, every operation answers what it answers over
  the memory device that starts with the same bytes, the states agree, and between operations everything in the
  file is on stable storage and equals the durable bytes of the memory device.
\<close>

theorem raftwal_on_file:
  assumes "OpenFileDevice None None content = Inr d" and "raftwal_Open (file_device calm) d = Inr s"
    and "runOps (file_device calm) ops s = (errs, s')"
  shows "\<exists>t t'. raftwal_Open memory_device (NewMemoryDevice content) = Inr t \<and> runOps memory_device ops t = (errs, t') \<and>
    RaftwalState.truncate t' = RaftwalState.truncate s' \<and>
    md_durable (lDevice (rwLog t')) = fvContent (lDevice (rwLog s')) \<and>
    fvStable (lDevice (rwLog s')) = fvContent (lDevice (rwLog s'))"
proof -
  have d: "fv_wf d" "fv_idle d" "fv_abs d = NewMemoryDevice content"
    using assms(1) by (auto simp: OpenFileDevice_def fv_wf_def fv_idle_def fv_abs_def NewMemoryDevice_def)
  obtain l rs st where l: "wal_Open (file_device calm) d = Inr (l, rs)" "replay rs empty_state = Inr st"
      "s = RaftwalState.extend st \<lparr>rwLog = l\<rparr>"
    using assms(2) by (auto simp: raftwal_Open_def split: sum.splits)
  have o: "fv_wf (lDevice l)" "fv_idle (lDevice l)" "wal_Open memory_device (fv_abs d) = Inr (on_file.absLog l, rs)"
    using on_file.wal_Open_abs [OF d(1,2)] l(1) by simp_all
  have open_t: "raftwal_Open memory_device (NewMemoryDevice content) = Inr (on_file.absStore s)"
    using o(3) l(2,3) d(3) by (simp add: raftwal_Open_def on_file.absStore_def RaftwalState.defs)
  have "on_file.ready s" using o(1,2) l(3) by (simp add: on_file.ready_def RaftwalState.defs)
  from on_file.runOps_abs [OF this assms(3)] open_t show ?thesis
    by (auto simp: RaftwalState.defs on_file.ready_def fv_idle_def fv_abs_def)
qed

theorem raftwal_on_file_witness:
  "\<exists>d s errs s' t'. OpenFileDevice None None [] = Inr d \<and> raftwal_Open (file_device calm) d = Inr s \<and>
    runOps (file_device calm) [OpAppend 1 zero_Entry, OpAppend 5 zero_Entry] s = (errs, s') \<and>
    runOps memory_device [OpAppend 1 zero_Entry, OpAppend 5 zero_Entry] fresh_store = (errs, t') \<and>
    rwData t' = rwData s'"
proof -
  obtain d where d: "OpenFileDevice None None [] = Inr d" by (simp add: OpenFileDevice_def)
  obtain s where s: "raftwal_Open (file_device calm) d = Inr s"
    using d by (auto simp: OpenFileDevice_def raftwal_Open_def wal_Open_def file_device_def fv_DurableBytes_def
        fv_Sync_def calm_def Recover_def)
  obtain errs s' where r: "runOps (file_device calm) [OpAppend 1 zero_Entry, OpAppend 5 zero_Entry] s = (errs, s')"
    by fastforce
  have "raftwal_Open memory_device (NewMemoryDevice []) = Inr fresh_store"
    by (simp add: raftwal_Open_def wal_Open_def memory_device_def md_DurableBytes_def NewMemoryDevice_def Recover_def
        fresh_store_def)
  then show ?thesis using raftwal_on_file [OF d s r] d s r by (auto simp: RaftwalState.defs)
qed

text \<open>
  A failing read is taken for an empty log. If the sync or the read inside \<open>DurableBytes\<close> fails while the
  store opens, \<open>Open\<close> reports no error: whatever the file holds, the store comes up with no hard state and no
  entries, ready to write record number one after the old content.
\<close>

theorem file_read_error_forgets:
  assumes "(\<forall>d. os OsSync d \<noteq> None) \<or> (\<forall>d. os OsReadFile d \<noteq> None)"
  shows "\<exists>s. raftwal_Open (file_device os) d = Inr s \<and> RaftwalState.truncate s = empty_state \<and>
    lNextSeq (rwLog s) = 1 \<and> fvContent (lDevice (rwLog s)) = fvContent d"
proof -
  have nil: "\<exists>d'. fv_DurableBytes os d = ([], d') \<and> fvContent d' = fvContent d" for d
    using assms by (auto simp: fv_DurableBytes_def fv_Sync_def split: option.splits prod.splits)
      (metis option.distinct(1))+
  obtain d1 where d1: "fv_DurableBytes os d = ([], d1)" "fvContent d1 = fvContent d" using nil by blast
  obtain d2 where d2: "fv_DurableBytes os d1 = ([], d2)" "fvContent d2 = fvContent d1" using nil by blast
  show ?thesis
    using d1 d2 by (simp add: raftwal_Open_def wal_Open_def file_device_def Recover_def RaftwalState.defs)
qed

theorem file_read_error_forgets_witness:
  "\<exists>s. raftwal_Open (file_device (\<lambda>call _. if call = OsReadFile then Some 0 else None))
      \<lparr>fvContent = log_image sample_records, fvStable = log_image sample_records,
       fvOffset = length (log_image sample_records), fvOpen = True\<rparr> = Inr s \<and>
    rwHard s = zero_HardState \<and> rwData s = [zero_Entry]"
proof -
  let ?os = "\<lambda>call (_ :: FileDevice). if call = OsReadFile then Some (0 :: nat) else None"
  have "(\<forall>d. ?os OsSync d \<noteq> None) \<or> (\<forall>d. ?os OsReadFile d \<noteq> None)" by simp
  from file_read_error_forgets [where os = ?os, OF this] show ?thesis
    by (fastforce simp: RaftwalState.defs empty_state_def)
qed

end
