(* ===== verification/Spec2Isabelle.thy ===== *)
theory Spec2Isabelle
  imports Quorum Raft_Node Wal Raft_Wal Raft_Safety Dst_Engine Paxos_Engine State_Machine Protocol Snapshot_Store Raft_Store Server_Spec Server Faultdisk Raft_Cluster Simulator File_Device
begin

text \<open>
  \<^bold>\<open>A verification of Promtact\<close>, a replicated key-value store with a deterministic simulator.

  The program is a Raft node (\<^verbatim>\<open>raft/\<close>), the storage below it (\<^verbatim>\<open>storage/\<close>), the key-value machine above it
  (\<^verbatim>\<open>statemachine/\<close>), the wire format (\<^verbatim>\<open>protocol/\<close>), the server that joins them (\<^verbatim>\<open>server/\<close>), and the tools that test
  them: a deterministic engine (\<^verbatim>\<open>dst/\<close>), the clusters it drives (\<^verbatim>\<open>dst/raftcluster/\<close>, \<^verbatim>\<open>examples/paxos/\<close>), an older
  simulator (\<^verbatim>\<open>sim/\<close>) and a disk that corrupts data (\<^verbatim>\<open>storage/faultdisk/\<close>). Source paths below are relative to
  \<^verbatim>\<open>src/\<close>.

  \<^bold>\<open>How the code is modelled.\<close> Structs are records, enumerations datatypes or word constants, and unsigned
  integers words of their width, so that arithmetic wraps as in Go. Stateful methods take and return the state. A
  Go error is a value of \<open>error\<close>; a panic, or a loop that does not end, is \<open>None\<close>, and a theorem that an
  operation returns is stated as \<open>Some\<close>. A Go interface is a record of operations (\<open>StableStore\<close>, \<open>Device\<close>,
  \<open>ClusterOps\<close>), and an operation of a package is one definition with the name it has in Go, with a prefix where
  packages share names (\<open>rw_Append\<close>, \<open>wal_Append\<close>, \<open>md_Append\<close>). Map iteration orders, the seeded random
  source, SHA-256, number and duration parsing and the failures of operating system calls are arguments.

  \<^bold>\<open>Prelude and bytes.\<close> \<open>Prelude\<close> has the integers, the errors, slices and counted loops. \<open>Bytes\<close> has the
  little-endian codecs of \<^verbatim>\<open>encoding/binary\<close> and CRC-32C, with the lemma that a single changed byte changes the
  checksum.

  \<^bold>\<open>Consensus.\<close> \<open>Quorum\<close>: \<^verbatim>\<open>raft/membership.go\<close> and the voter masks of \<^verbatim>\<open>raft/node.go\<close>; both quorum rules agree,
  and quorums of neighbouring configurations meet. \<open>Raft_Types\<close>: \<^verbatim>\<open>raft/types.go\<close>, \<^verbatim>\<open>raft/persist.go\<close>, and the
  locale \<open>durable_store\<close>, the contract of stable storage on which election safety rests: a successful write of
  the hard state is kept by a crash, and a crash at any moment leaves a hard state that is not older than the last
  acknowledged one. \<open>Raft_Node\<close>: every operation of \<^verbatim>\<open>raft/node.go\<close> and \<^verbatim>\<open>raft/recover.go\<close>. \<open>Raft_Quiet\<close> and
  \<open>Raft_Vote\<close>: what each operation does to term, vote and vote mask. \<open>Raft_Safety\<close>: clusters of nodes over a
  network that loses, duplicates, delays and reorders messages, with crashes, as the relation \<open>cluster_step\<close>;
  at most one leader is elected per term, by a quorum of recorded votes.

  \<^bold>\<open>Storage.\<close> \<open>Wal\<close>: \<^verbatim>\<open>storage/wal/format.go\<close>, \<^verbatim>\<open>wal.go\<close> and \<^verbatim>\<open>device.go\<close>; records round-trip, recovery returns
  exactly the complete records of a torn log and refuses a corrupted one. \<open>Raft_Wal\<close>: \<^verbatim>\<open>storage/raftwal/store.go\<close>
  refines an abstract store, is atomic under a crash inside an operation, and interprets \<open>durable_store\<close>.
  \<open>File_Device\<close>: \<^verbatim>\<open>storage/wal/file_device.go\<close> refines the memory device while the calls of the operating system
  succeed. \<open>Snapshot_Store\<close>: \<^verbatim>\<open>storage/snapshot/\<close>, with a file system whose calls fail and whose unsynced data and
  directory entries are lost; publication is atomic. \<open>Raft_Store\<close>: \<^verbatim>\<open>storage/raftstore/store.go\<close>, log and snapshot
  together, with power lost inside their operations and while opening; it interprets \<open>durable_store\<close> too.
  \<open>Faultdisk\<close>: \<^verbatim>\<open>storage/faultdisk/device.go\<close> and which of its faults recovery notices.

  \<^bold>\<open>Service.\<close> \<open>State_Machine\<close>: \<^verbatim>\<open>statemachine/machine.go\<close>; requests are applied once per client and number, and
  snapshots round-trip. \<open>Protocol\<close>: \<^verbatim>\<open>protocol/frame.go\<close>, \<^verbatim>\<open>peer.go\<close>, \<^verbatim>\<open>client.go\<close>; frames and messages round-trip
  over writers that split writes or fail. \<open>Server_Spec\<close>: \<^verbatim>\<open>server/spec.go\<close>; validation accepts exactly the good
  files, and the configurations of the declared nodes agree. \<open>Server\<close>: \<^verbatim>\<open>server/server.go\<close>; the event loop answers
  every request at most once and sends nothing after a storage error.

  \<^bold>\<open>Simulation.\<close> \<open>Event_Heap\<close> and \<open>Dst_Engine\<close>: \<^verbatim>\<open>dst/engine.go\<close>, \<^verbatim>\<open>inject.go\<close>, \<^verbatim>\<open>invariant.go\<close>; the schedule is a
  priority queue, a step delivers all that is due, injected faults do not shift the seeded draws. \<open>Paxos\<close>,
  \<open>Paxos_Inv\<close>, \<open>Paxos_Steps\<close>, \<open>Paxos_Safety\<close>, \<open>Paxos_Engine\<close>: \<^verbatim>\<open>examples/paxos/\<close>; agreement, and checked campaigns of
  the engine over it end without a violation. \<open>Raft_Cluster\<close>: \<^verbatim>\<open>dst/raftcluster/\<close>. \<open>Simulator\<close>: \<^verbatim>\<open>sim/\<close>; the engine
  over the raft cluster goes through the same states as the first simulator, crashes included.

  \<^bold>\<open>Interfaces.\<close> Every locale is interpreted on definitions of the model: the stable store on the raft log, on the
  raft store and on the store of the cluster adapter; the device contract on the memory device and the fault
  disk; the device refinement on the file device; the quorum system on single and joint voter masks; the event queue
  on the heap of the engine and the list of the simulator; the voting protocol on the Paxos majorities.

  \<^bold>\<open>This theory\<close> joins consensus and storage: election safety for nodes over the store the server opens.

  \<^bold>\<open>Bounds.\<close> The only fuel is in the decimal printing of a number, where the number itself is more than its count
  of digits. Other loops are structural, have a termination proof, or are partial functions into \<open>option\<close>: the
  counted loop over words, which never ends when its limit is the largest word, and the delivery loops. That the
  delivery loop of the engine returns is proved for Paxos while \<open>MaxDelay + 1 < 2^63\<close> and the ballots fit into 64
  bits. Theorems on logs ask for fewer than \<open>2^64\<close> records.

  \<^bold>\<open>Not modelled.\<close> The \<^verbatim>\<open>io_uring\<close> and raw block devices (rings shared with the kernel), the chaos controller (a
  kernel program), \<^verbatim>\<open>backup/\<close> (copying of directory trees), the decoding of JSON files in \<^verbatim>\<open>server/spec.go\<close> and
  \<^verbatim>\<open>dst/scenario/\<close>, the listeners, goroutines and deadlines of \<^verbatim>\<open>server.Run\<close>, \<^verbatim>\<open>protocol/call.go\<close>, and the command
  line. Election safety is proved of Raft; that logs of different nodes agree is checked at run time by the modelled
  invariants of the cluster adapter and is not proved. A directory that holds the data of a server exists:
  \<^verbatim>\<open>os.MkdirAll\<close> has no effect in the model.
\<close>

subsection \<open>Election safety over the production store\<close>

abbreviation production_reach :: "MemoryDevice RaftStore Cluster \<Rightarrow> bool" where
  "production_reach \<equiv> cluster_reach (raftstore_ops memory_device) rs_hard rs_hard_ok rs_crash"

abbreviation (input) solo_raftstore :: "MemoryDevice RaftStore" where
  "solo_raftstore \<equiv> fresh_raftstore fresh_store None"

lemma production_solo:
  "\<exists>nd n rs. NewNodeWithStore 1 [] 1 solo_raftstore = Some nd \<and> effectiveVoters nd = Some (1, 0) \<and>
     nStore nd = solo_raftstore \<and> nState nd = Follower \<and> Tick (raftstore_ops memory_device) nd = Some n \<and>
     nState n = Leader \<and> nTerm n = 1 \<and> md.coherent (rsWal (nStore n)) rs \<and>
     rwHard (rsWal (nStore n)) = \<lparr>hTerm = 1, hVotedFor = 1, hCommit = 1\<rparr> \<and> rwBase (rsWal (nStore n)) = 0 \<and>
     rwData (rsWal (nStore n)) = [zero_Entry, noop1] \<and> rsFS (nStore n) = empty_FS None"
proof -
  have two: "\<not> (2 :: u64) \<le> 1" by (simp add: word_le_nat_alt)
  have bits: "bitsSet 1 = 1" by (simp add: bitsSet_def bitsSet_loop.simps)
  obtain st1 st2 st3 rs where st:
    "rw_SaveHardState memory_device \<lparr>hTerm = 1, hVotedFor = 1, hCommit = 0\<rparr> fresh_store = (None, st1)"
    "rw_Append memory_device 1 noop1 st1 = (None, st2)"
    "rw_SaveHardState memory_device \<lparr>hTerm = 1, hVotedFor = 1, hCommit = 1\<rparr> st2 = (None, st3)"
    and st3: "md.coherent st3 rs" "rwHard st3 = \<lparr>hTerm = 1, hVotedFor = 1, hCommit = 1\<rparr>" "rwBase st3 = 0"
      "rwData st3 = [zero_Entry, noop1]"
    using solo_store by blast
  show ?thesis
    using st st3
    by (simp add: NewNodeWithStore_def nodeBit_def Tick_def Let_def startPreVote_def
        quorumMask_def effectiveVoters_def for_u64.simps lastIndex_def majorityMask_def bits two
        startElection_def persistHardState_def raftstore_ops_def rs_SaveHardState_def rs_Append_def becomeLeader_def
        appendLocal_def entryAt_def offset_def applyCommittedConfigurations_def applyCommittedConfiguration_def
        applyConfigurationEntry_def zero_Entry_def broadcastAppend_def) blast
qed

text \<open>The store of the elected node loses power with five bytes of a record written, and comes up again.\<close>

lemma production_torn_crash:
  assumes "md.coherent (rsWal st) rs" and "rwBase (rsWal st) = 0" and "rsFS st = empty_FS None"
  shows "\<exists>st'. rs_crash st st' \<and> rwHard (rsWal st') = rwHard (rsWal st) \<and> rwData (rsWal st') = rwData (rsWal st)"
proof -
  let ?w = "rsWal st" and ?op = "OpHard (rwHard (rsWal st))"
  have rej: "rejects ?op ?w = None" by simp
  have fit: "opFits ?op ?w" by simp
  have inv: "md.log_inv (rwLog ?w) rs" using assms(1) by (simp add: md.coherent_def)
  obtain l where l: "wal_Append memory_device None [opRecord ?op ?w] (rwLog ?w) = (None, l)"
    using md.append_sync_total [OF inv] by blast
  have p: "length (md_pending (lDevice l)) = 112" using md.append_unsynced [OF inv l] by simp
  then obtain dev where dev: "md_Crash 5 (lDevice l) = Inr dev" by (simp add: md_Crash_def)
  obtain w' where w': "raftwal_Open memory_device dev = Inr w'" "RaftwalState.truncate w' = RaftwalState.truncate ?w"
    using crash_in_op [OF assms(1) fit rej l dev] by auto
  let ?fs = "reboot (\<lambda>_. None) (\<lambda>_. []) (\<lambda>_. False) (\<lambda>_. 0) None (empty_FS None)"
  have "rw_inside ?w (?w\<lparr>rwLog := l\<rparr>)" using rej l unfolding rw_inside_def rw_inside_op_def by blast
  then have "rs_inside st (st\<lparr>rsWal := ?w\<lparr>rwLog := l\<rparr>\<rparr>)" by (rule inside_log)
  from lost [OF this, of 5 dev "\<lambda>_. None" "\<lambda>_. []" "\<lambda>_. False" "\<lambda>_. 0" None]
  have lost: "rs_lost st dev ?fs" using dev assms(3) by (simp add: empty_FS_def)
  obtain fs1 where o: "OpenStore ?fs = (Inr (\<lparr>sLast = 0\<rparr>, zero_Image), fs1)"
    by (simp add: OpenStore_def os_ReadFile_def call_def down_def reboot_def powerFail_def empty_FS_def)
  have eq: "rwHard w' = rwHard ?w" "rwData w' = rwData ?w" "rwBase w' = 0"
    using w'(2) assms(2) by (simp_all add: RaftwalState.defs)
  have "raftstore_Open memory_device dev ?fs =
      Inr (\<lparr>rsWal = w', rsSnap = \<lparr>sLast = 0\<rparr>, rsPending = zero_Snapshot, rsFS = fs1\<rparr>,
        \<lparr>rvHard = rwHard w', rvSnapshot = fromImage zero_Image, rvSuffix = tl (rwData w')\<rparr>)"
    by (rule raftstore_Open_intro [OF o w'(1)])
      (simp_all add: eq zero_Image_def completeFence_def rw_StateWithBase_def)
  then show ?thesis using lost eq unfolding rs_crash_def by fastforce
qed

lemma ensurePeers_none: "ensurePeers 0 n = Some n"
proof -
  have bit: "nodeBit (of_nat k) \<noteq> None" if "k \<in> {1..<65}" for k
  proof -
    have "unat (of_nat k :: u32) = k" using that by (simp add: unat_of_nat)
    then have "(of_nat k :: u32) \<noteq> 0" "\<not> of_nat k > (64 :: u32)" using that by (auto simp: word_less_nat_alt)
    then show ?thesis by (simp add: nodeBit_def)
  qed
  have "foldM (ensurePeer 0) (map of_nat ks) n = Some n" if "set ks \<subseteq> {1..<65}" for ks
    using that by (induction ks) (use bit in \<open>force simp: ensurePeer_def\<close>)+
  from this [of "[1..<65]"] show ?thesis unfolding ensurePeers_def by simp
qed

lemma production_elects:
  "\<exists>c n. production_reach c \<and> (1, 1, 1, 0) \<in> cElected c \<and> cNodes c 1 = Some n \<and> nState n = Follower \<and> nTerm n = 1"
proof -
  obtain nd n rs where n: "NewNodeWithStore 1 [] 1 solo_raftstore = Some nd" "effectiveVoters nd = Some (1, 0)"
      "nStore nd = solo_raftstore" "nState nd = Follower" "Tick (raftstore_ops memory_device) nd = Some n"
      "nState n = Leader" "nTerm n = 1"
    and st: "md.coherent (rsWal (nStore n)) rs" "rwBase (rsWal (nStore n)) = 0" "rsFS (nStore n) = empty_FS None"
      "rwHard (rsWal (nStore n)) = \<lparr>hTerm = 1, hVotedFor = 1, hCommit = 1\<rparr>"
      "rwData (rsWal (nStore n)) = [zero_Entry, noop1]"
    using production_solo by blast
  let ?c = "\<lparr>cNodes = [1 \<mapsto> nd], cNet = {}, cVotes = {}, cElected = {}\<rparr> :: MemoryDevice RaftStore Cluster"
  let ?c1 = "observe rs_hard 1 nd n ?c"
  have "cluster_init rs_hard rs_hard_ok ?c"
    using n(1,3) fresh_store_ok by (auto simp: cluster_init_def rs_hard_ok_def empty_state_def)
  then have "production_reach ?c" by (rule reach_init)
  moreover have "cluster_step (raftstore_ops memory_device) rs_hard rs_crash ?c ?c1"
    by (rule cluster_step.call) (auto intro: node_call.intros(1) [OF n(5)])
  ultimately have r1: "production_reach ?c1" by (rule reach_step)
  have e1: "(1, 1, 1, 0) \<in> cElected ?c1" "cNodes ?c1 1 = Some n" using n by (simp_all add: observe_def)
  obtain st' where st': "rs_crash (nStore n) st'" "rwHard (rsWal st') = \<lparr>hTerm = 1, hVotedFor = 1, hCommit = 1\<rparr>"
      "rwData (rsWal st') = [zero_Entry, noop1]"
    using production_torn_crash [OF st(1-3)] st(4,5) by auto
  have two: "\<not> (2 :: u64) \<le> 1" by (simp add: word_le_nat_alt)
  obtain n' where n': "NewRecoveredNode 1 [] 1 st' (rs_hard st') (rwData (rsWal st')) = Some n'" "nState n' = Follower"
      "nTerm n' = 1"
    unfolding st'(2,3)
    by (simp add: NewRecoveredNode_def NewNodeWithStore_def nodeBit_def finishRecovery_def restoreConfigurationState_def
        lastIndex_def for_u64.simps two restoreConfigurationEntry_def entryAt_def offset_def zero_Entry_def Let_def restoreVoters_def ensurePeers_none)
  let ?c2 = "observe rs_hard 1 n n' ?c1"
  have "cluster_step (raftstore_ops memory_device) rs_hard rs_crash ?c1 ?c2"
    by (rule cluster_step.restart [where crash = rs_crash and hard_of = rs_hard and i = 1 and n = n and n' = n'
          and st' = st' and st = "nStore n" and ps = "[]" and t = 1 and log = "rwData (rsWal st')"])
      (simp_all only: e1(2) run_refl st'(1) n'(1) simp_thms)
  with r1 have "production_reach ?c2" by (rule reach_step)
  moreover have "(1, 1, 1, 0) \<in> cElected ?c2" "cNodes ?c2 1 = Some n'" using n by (simp_all add: observe_def)
  ultimately show ?thesis using n'(2,3) by blast
qed

text \<open>
  C2: Election safety of the production configuration. The same guarantee as for the bare write-ahead log holds
  for nodes over the store that the server opens, the log and the snapshot file together. Executions save
  snapshots, compact logs and install snapshots from peers. Power may be lost between two operations of the store,
  inside a write to the log with any prefix of the record surviving, inside the publication of a snapshot at
  any of its calls, and again while the store is being opened; calls of the file system may fail. In every such
  execution two elections won in the same term under the same or neighbouring voter configurations were won by
  the same node.
\<close>

theorem production_election_safety:
  assumes "production_reach c"
    and "(t, i, V, W) \<in> cElected c" and "(t, j, V', W') \<in> cElected c"
    and "adjacent (V, W) (V', W')"
  shows "i = j"
  using durable_store.elected_unique [OF raftstore_md.durable_store_axioms
      durable_store.cluster_reach_inv [OF raftstore_md.durable_store_axioms assms(1)] assms(2-4)] .

text \<open>The instance: a node is elected, loses power inside a write to its log, and is recovered from the torn log.\<close>

theorem production_election_safety_witness:
  "\<exists>c i n. production_reach c \<and> (1, i, 1, 0) \<in> cElected c \<and> cNodes c 1 = Some n \<and> nState n = Follower \<and> nTerm n = 1 \<and>
     (\<forall>j. (1, j, 1, 0) \<in> cElected c \<longrightarrow> j = i)"
proof -
  obtain c n where c: "production_reach c" "(1, 1, 1, 0) \<in> cElected c" "cNodes c 1 = Some n" "nState n = Follower"
      "nTerm n = 1"
    using production_elects by blast
  have "j = 1" if "(1, j, 1, 0) \<in> cElected c" for j
    using production_election_safety [OF c(1) that c(2)] by (simp add: adjacent_def)
  then show ?thesis using c by blast
qed

end
